(* ===== verification/Prelude.thy ===== *)
theory Prelude
  imports Main "HOL-Library.Word" "HOL-Library.List_Lexorder"
begin

unbundle bit_operations_syntax

text \<open>
  What the components share: the names of the machine integers, the outcome type of operations that
  can fail, the two build modes of \<^verbatim>\<open>BOOST_ASSERT\<close>, and generic lemmas about outcomes, stacks kept
  in lists and byte-at-a-time parsers.
\<close>

section \<open>Types\<close>

type_synonym byte = "8 word"
type_synonym u16 = "16 word"
type_synonym u32 = "32 word"
type_synonym u64 = "64 word"

text \<open>
  \<^verbatim>\<open>std::string\<close> and \<^verbatim>\<open>buffer_t\<close> are both sequences of bytes.  Literals of the source are written as
  HOL strings and converted.
\<close>

definition byte_of_char :: "char \<Rightarrow> byte" where
  "byte_of_char c = word_of_nat (of_char c)"

definition str :: "string \<Rightarrow> byte list" where
  "str s = map byte_of_char s"

lemma byte_of_char_unat [simp]: "unat (byte_of_char c) = of_char c"
proof -
  have "(of_char c :: nat) < 256" by simp
  then show ?thesis by (simp add: byte_of_char_def unat_of_nat)
qed

lemma byte_of_char_inject [simp]: "byte_of_char c = byte_of_char d \<longleftrightarrow> c = d"
  by (metis byte_of_char_unat of_char_eq_iff)

lemma str_inject [simp]: "str s = str t \<longleftrightarrow> s = t"
  unfolding str_def by (rule inj_map_eq_map) (simp add: inj_def)

lemma str_Nil [simp]: "str [] = []"
  and length_str [simp]: "length (str s) = length s"
  by (simp_all add: str_def)

section \<open>Outcomes\<close>

text \<open>
  An operation of the library returns a value, throws a C++ exception, trips a \<^verbatim>\<open>BOOST_ASSERT\<close> in a
  build that has assertions, or is undefined behaviour (popping an empty container, reading out of
  bounds) in a build that has not.
\<close>

datatype fault = Assertion | Undefined | Exception

datatype build = Debug | Release

type_synonym 'a result = "fault + 'a"

definition rbind :: "'a result \<Rightarrow> ('a \<Rightarrow> 'b result) \<Rightarrow> 'b result" where
  "rbind m f = (case m of Inl e \<Rightarrow> Inl e | Inr x \<Rightarrow> f x)"

definition boost_assert :: "build \<Rightarrow> bool \<Rightarrow> unit result" where
  "boost_assert b P = (if b = Debug \<and> \<not> P then Inl Assertion else Inr ())"

definition defined_if :: "bool \<Rightarrow> unit result" where
  "defined_if P = (if P then Inr () else Inl Undefined)"

definition throw_unless :: "bool \<Rightarrow> unit result" where
  "throw_unless P = (if P then Inr () else Inl Exception)"

named_theorems result_simps \<open>evaluation of outcomes\<close>

lemma rbind_simps [simp, result_simps]:
  "rbind (Inl e) f = Inl e"
  "rbind (Inr x) f = f x"
  by (simp_all add: rbind_def)

lemma rbind_eq_Inr [result_simps]:
  "rbind m f = Inr y \<longleftrightarrow> (\<exists>x. m = Inr x \<and> f x = Inr y)"
  by (cases m) auto

lemma rbind_assoc: "rbind (rbind m f) g = rbind m (\<lambda>x. rbind (f x) g)"
  by (cases m) auto

lemma boost_assert_eq_Inr [simp, result_simps]:
  "boost_assert b P = Inr u \<longleftrightarrow> (b = Debug \<longrightarrow> P)"
  by (auto simp: boost_assert_def)

lemma boost_assert_True [simp, result_simps]:
  "boost_assert b True = Inr ()"
  "boost_assert Release P = Inr ()"
  "\<not> P \<Longrightarrow> boost_assert Debug P = Inl Assertion"
  by (simp_all add: boost_assert_def)

lemma defined_if_eq_Inr [simp, result_simps]: "defined_if P = Inr u \<longleftrightarrow> P"
  by (auto simp: defined_if_def)

lemma defined_if_simps [simp, result_simps]:
  "defined_if True = Inr ()"
  "defined_if False = Inl Undefined"
  by (simp_all add: defined_if_def)

lemma throw_unless_eq_Inr [simp, result_simps]: "throw_unless P = Inr u \<longleftrightarrow> P"
  by (auto simp: throw_unless_def)

lemma throw_unless_simps [simp, result_simps]:
  "throw_unless True = Inr ()"
  "throw_unless False = Inl Exception"
  by (simp_all add: throw_unless_def)

text \<open>Collecting the values of a fallible function over a list; the first fault stops it.\<close>

fun rmap :: "('a \<Rightarrow> 'b result) \<Rightarrow> 'a list \<Rightarrow> 'b list result" where
  "rmap f [] = Inr []"
| "rmap f (x # xs) = rbind (f x) (\<lambda>y. rbind (rmap f xs) (\<lambda>ys. Inr (y # ys)))"

lemma rmap_ok: "(\<And>x. x \<in> set xs \<Longrightarrow> f x = Inr (g x)) \<Longrightarrow> rmap f xs = Inr (map g xs)"
  by (induction xs) simp_all

section \<open>Lexicographic comparison\<close>

text \<open>
  \<^verbatim>\<open>std::lexicographical_compare\<close> with a comparison of elements; \<^verbatim>\<open>std::string\<close> and \<^verbatim>\<open>std::array\<close>
  compare their bytes unsigned, which is the order of \<^verbatim>\<open>List_Lexorder\<close>.
\<close>

fun lex_lt :: "('a \<Rightarrow> 'a \<Rightarrow> bool) \<Rightarrow> 'a list \<Rightarrow> 'a list \<Rightarrow> bool" where
  "lex_lt lt xs [] = False"
| "lex_lt lt [] (y # ys) = True"
| "lex_lt lt (x # xs) (y # ys) = (if lt x y then True else if lt y x then False else lex_lt lt xs ys)"

lemma lex_lt_less: "lex_lt (<) xs ys \<longleftrightarrow> xs < (ys :: 'a::linorder list)"
  by (induction "(<) :: 'a \<Rightarrow> 'a \<Rightarrow> bool" xs ys rule: lex_lt.induct) auto

section \<open>Stacks kept in lists\<close>

text \<open>
  A \<^verbatim>\<open>std::deque\<close> used as a stack grows at its back, so the top is the last element of the list.
\<close>

lemma last_snoc_butlast: "xs \<noteq> [] \<Longrightarrow> butlast xs @ [last xs] = xs"
  by simp

lemma nth_append_top [simp]: "(xs @ [y]) ! length xs = y"
  by simp

section \<open>Parsers that read one element at a time\<close>

text \<open>
  A step of a parser calls back with some values and then goes on with a new state or stops with a
  fault.  \<open>after\<close> continues a step: the callbacks come in order.
\<close>

definition emit :: "'o list \<Rightarrow> 'o list \<times> 'r \<Rightarrow> 'o list \<times> 'r" where
  "emit os p = (os @ fst p, snd p)"

definition after :: "'o list \<times> 's result \<Rightarrow> ('s \<Rightarrow> 'o list \<times> 't result) \<Rightarrow> 'o list \<times> 't result" where
  "after m k = (case m of (os, Inl f) \<Rightarrow> (os, Inl f) | (os, Inr s) \<Rightarrow> emit os (k s))"

lemma emit_simps [simp]:
  "emit [] p = p"
  "emit os (os', r) = (os @ os', r)"
  "emit os (emit os' p) = emit (os @ os') p"
  by (simp_all add: emit_def)

lemma after_simps [simp]:
  "after (os, Inl f) k = (os, Inl f)"
  "after (os, Inr s) k = emit os (k s)"
  by (simp_all add: after_def)

lemma after_emit [simp]: "after (emit os p) k = emit os (after p k)"
  by (cases p; cases "snd p") (auto simp: after_def)

lemma after_assoc: "after (after m k) k' = after m (\<lambda>s. after (k s) k')"
  by (cases m; cases "snd m") auto

lemma after_eq_ok: "after m k = (os, Inr t) \<longleftrightarrow>
  (\<exists>os1 s os2. m = (os1, Inr s) \<and> k s = (os2, Inr t) \<and> os = os1 @ os2)"
  by (cases m; cases "snd m"; cases "k (projr (snd m))") (auto simp: emit_def)

text \<open>
  The parsers of the library (TLV, UTF-8, CSV, JSON) are objects with a \<^verbatim>\<open>put\<close> for one element,
  which calls back with whatever has become complete, and a \<^verbatim>\<open>read\<close> that calls \<^verbatim>\<open>put\<close> for a range.
  This is the interface: \<open>read\<close> is \<open>put\<close> once per element.  What follows holds for each of them: input
  may be split at any point, and an invariant of \<open>put\<close> is an invariant of \<open>read\<close>.
\<close>

locale feeder =
  fixes put :: "'s \<Rightarrow> 'c \<Rightarrow> 'o list \<times> 's result"
    and read :: "'s \<Rightarrow> 'c list \<Rightarrow> 'o list \<times> 's result"
  assumes read_Nil: "read s [] = ([], Inr s)"
    and read_Cons: "read s (c # cs) = after (put s c) (\<lambda>s'. read s' cs)"
begin

lemma read_append: "read s (xs @ ys) = after (read s xs) (\<lambda>s'. read s' ys)"
  by (induction xs arbitrary: s) (simp_all add: read_Nil read_Cons after_assoc)

lemma read_append_ok:
  "read s xs = (os, Inr s') \<Longrightarrow> read s' ys = (os', r) \<Longrightarrow> read s (xs @ ys) = (os @ os', r)"
  by (simp add: read_append)

lemma read_append_fault:
  "read s xs = (os, Inl f) \<Longrightarrow> read s (xs @ ys) = (os, Inl f)"
  by (simp add: read_append)

lemma read_invariant:
  assumes step: "\<And>s c os s'. I s \<Longrightarrow> put s c = (os, Inr s') \<Longrightarrow> I s'"
  shows "I s \<Longrightarrow> read s cs = (os, Inr s') \<Longrightarrow> I s'"
proof (induction cs arbitrary: s os)
  case Nil
  then show ?case by (simp add: read_Nil)
next
  case (Cons c cs)
  then show ?case by (auto simp: read_Cons after_eq_ok dest: step)
qed

lemma read_total:
  assumes ok: "\<And>s c. I s \<Longrightarrow> \<exists>os s'. put s c = (os, Inr s') \<and> I s'"
  shows "I s \<Longrightarrow> \<exists>os s'. read s cs = (os, Inr s') \<and> I s'"
proof (induction cs arbitrary: s)
  case Nil
  then show ?case by (simp add: read_Nil)
next
  case (Cons c cs)
  from ok [OF Cons.prems, of c] obtain os1 s1 where p: "put s c = (os1, Inr s1)" and i: "I s1"
    by blast
  from Cons.IH [OF i] p show ?case by (auto simp: read_Cons)
qed

end

end
