(* ===== verification/Buffer.thy ===== *)
theory Buffer
  imports Prelude
begin

text \<open>
  Conversion between integers and byte buffers: \<^verbatim>\<open>include/cyng/obj/buffer_cast.hpp\<close>,
  \<^verbatim>\<open>src/obj/src/buffer_cast.cpp\<close> and the byte swaps of
  \<^verbatim>\<open>include/cyng/obj/algorithm/swap_bytes.h\<close>.  The host's byte order, \<^verbatim>\<open>cyng_BIG_ENDIAN\<close> in the
  source, is a parameter.
\<close>

datatype endian = Little | Big

text \<open>The memory of an integer of \<open>n\<close> bytes, as \<^verbatim>\<open>std::memcpy\<close> sees it on the host.\<close>

definition le_bytes :: "nat \<Rightarrow> 'a::len word \<Rightarrow> byte list" where
  "le_bytes n w = map (\<lambda>i. ucast (drop_bit (8 * i) w)) [0..<n]"

fun le_word :: "byte list \<Rightarrow> 'a::len word" where
  "le_word [] = 0"
| "le_word (b # bs) = ucast b OR push_bit 8 (le_word bs)"

definition mem_bytes :: "endian \<Rightarrow> 'a::len word \<Rightarrow> byte list" where
  "mem_bytes h w =
     (case h of Little \<Rightarrow> le_bytes (LENGTH('a) div 8) w | Big \<Rightarrow> rev (le_bytes (LENGTH('a) div 8) w))"

definition mem_word :: "endian \<Rightarrow> byte list \<Rightarrow> 'a::len word" where
  "mem_word h bs = (case h of Little \<Rightarrow> le_word bs | Big \<Rightarrow> le_word (rev bs))"

text \<open>
  \<^verbatim>\<open>to_buffer_be<T>\<close> copies the memory; \<^verbatim>\<open>to_buffer<T>\<close> reverses it on a little-endian host.
  \<^verbatim>\<open>mem_fill\<close> is the \<^verbatim>\<open>T r = T(); memcpy(&r, src, size)\<close> of the readers: bytes that are not copied
  stay zero.
\<close>

definition to_buffer_be :: "endian \<Rightarrow> 'a::len word \<Rightarrow> byte list" where
  "to_buffer_be h n = mem_bytes h n"

definition to_buffer :: "endian \<Rightarrow> 'a::len word \<Rightarrow> byte list" where
  "to_buffer h n = (let buffer = to_buffer_be h n in if h = Big then buffer else rev buffer)"

definition mem_fill :: "endian \<Rightarrow> byte list \<Rightarrow> 'a::len word" where
  "mem_fill h bs = mem_word h (bs @ replicate (LENGTH('a) div 8 - length bs) 0)"

definition to_numeric_be :: "endian \<Rightarrow> byte list \<Rightarrow> 'a::len word" where
  "to_numeric_be h buffer =
     (let size = min (LENGTH('a) div 8) (length buffer) in mem_fill h (take size buffer))"

definition to_numeric_le :: "endian \<Rightarrow> byte list \<Rightarrow> 'a::len word" where
  "to_numeric_le h buffer =
     (let size = min (LENGTH('a) div 8) (length buffer) in mem_fill h (rev (take size buffer)))"

definition to_numeric :: "endian \<Rightarrow> byte list \<Rightarrow> 'a::len word" where
  "to_numeric h buffer = (if h = Big then to_numeric_be h buffer else to_numeric_le h buffer)"

text \<open>
  The readers with an offset.  The size copied is \<open>min sizeof(T) (buffer.size())\<close>, whatever the
  offset, so an offset near the end reads past the buffer.  The assertion
  \<open>sizeof(T) \<le> buffer.size() - offset\<close> is on \<^verbatim>\<open>std::size_t\<close>: the difference wraps.
\<close>

definition offset_in_bounds :: "'a::len word itself \<Rightarrow> nat \<Rightarrow> nat \<Rightarrow> bool" where
  "offset_in_bounds t len offset \<longleftrightarrow>
     LENGTH('a) div 8 \<le> unat (word_of_nat len - word_of_nat offset :: u64)"

definition to_numeric_be_at :: "build \<Rightarrow> endian \<Rightarrow> byte list \<Rightarrow> nat \<Rightarrow> 'a::len word result" where
  "to_numeric_be_at b h buffer offset =
     (let size = min (LENGTH('a) div 8) (length buffer) in
      rbind (boost_assert b (offset_in_bounds TYPE('a word) (length buffer) offset)) (\<lambda>_.
      rbind (defined_if (offset + size \<le> length buffer)) (\<lambda>_.
      Inr (mem_fill h (take size (drop offset buffer))))))"

definition to_numeric_le_at :: "build \<Rightarrow> endian \<Rightarrow> byte list \<Rightarrow> nat \<Rightarrow> 'a::len word result" where
  "to_numeric_le_at b h buffer offset =
     (let size = min (LENGTH('a) div 8) (length buffer) in
      rbind (boost_assert b (offset_in_bounds TYPE('a word) (length buffer) offset)) (\<lambda>_.
      rbind (defined_if (offset + size \<le> length buffer)) (\<lambda>_.
      Inr (mem_fill h (rev (take size (drop offset buffer)) @
                       replicate (LENGTH('a) div 8 - size) 0)))))"

definition to_numeric_at :: "build \<Rightarrow> endian \<Rightarrow> byte list \<Rightarrow> nat \<Rightarrow> 'a::len word result" where
  "to_numeric_at b h buffer offset =
     (if h = Big then to_numeric_be_at b h buffer offset else to_numeric_le_at b h buffer offset)"

text \<open>\<^verbatim>\<open>to_string_nil\<close>: the bytes from an offset up to the first zero byte.\<close>

definition to_string_nil :: "byte list \<Rightarrow> nat \<Rightarrow> byte list" where
  "to_string_nil buffer offset =
     (if offset < length buffer then takeWhile (\<lambda>b. b \<noteq> 0) (drop offset buffer) else [])"

section \<open>Byte swaps\<close>

definition swap_bytes16 :: "u16 \<Rightarrow> u16" where
  "swap_bytes16 v = push_bit 8 v OR drop_bit 8 v"

definition swap_bytes32 :: "u32 \<Rightarrow> u32" where
  "swap_bytes32 v =
     (let v = (push_bit 8 v AND 0xFF00FF00) OR (drop_bit 8 v AND 0xFF00FF)
      in push_bit 16 v OR drop_bit 16 v)"

definition swap_bytes64 :: "u64 \<Rightarrow> u64" where
  "swap_bytes64 v =
     (let v = (push_bit 8 v AND 0xFF00FF00FF00FF00) OR (drop_bit 8 v AND 0x00FF00FF00FF00FF);
          v = (push_bit 16 v AND 0xFFFF0000FFFF0000) OR (drop_bit 16 v AND 0x0000FFFF0000FFFF)
      in push_bit 32 v OR drop_bit 32 v)"

text \<open>The signed versions shift arithmetically, so they mask what the sign has filled in.\<close>

definition swap_bytes_i16 :: "16 word \<Rightarrow> 16 word" where
  "swap_bytes_i16 v = push_bit 8 v OR (signed_drop_bit 8 v AND 0xFF)"

definition swap_bytes_i32 :: "32 word \<Rightarrow> 32 word" where
  "swap_bytes_i32 v =
     (let v = (push_bit 8 v AND 0xFF00FF00) OR (signed_drop_bit 8 v AND 0xFF00FF)
      in push_bit 16 v OR (signed_drop_bit 16 v AND 0xFFFF))"

definition swap_bytes_i64 :: "64 word \<Rightarrow> 64 word" where
  "swap_bytes_i64 v =
     (let v = (push_bit 8 v AND 0xFF00FF00FF00FF00) OR (signed_drop_bit 8 v AND 0x00FF00FF00FF00FF);
          v = (push_bit 16 v AND 0xFFFF0000FFFF0000) OR (signed_drop_bit 16 v AND 0x0000FFFF0000FFFF)
      in push_bit 32 v OR (signed_drop_bit 32 v AND 0xFFFFFFFF))"

section \<open>Lemmas\<close>

lemma length_le_bytes [simp]: "length (le_bytes n w) = n"
  by (simp add: le_bytes_def)

lemma length_mem_bytes [simp]: "length (mem_bytes h (w :: 'a::len word)) = LENGTH('a) div 8"
  by (cases h) (simp_all add: mem_bytes_def)

lemma bit_le_word:
  "bit (le_word bs :: 'a::len word) i \<longleftrightarrow>
     i < LENGTH('a) \<and> i div 8 < length bs \<and> bit (bs ! (i div 8)) (i mod 8)"
proof (induction bs arbitrary: i)
  case Nil
  then show ?case by simp
next
  case (Cons b bs)
  show ?case
  proof (cases "i < 8")
    case True
    then show ?thesis by (auto simp: bit_simps)
  next
    case False
    then have d: "i div 8 = Suc ((i - 8) div 8)" and m: "i mod 8 = (i - 8) mod 8"
      by (simp_all add: div_if mod_if)
    have "\<not> bit b i" using False by (simp add: impossible_bit)
    with False Cons.IH [of "i - 8"] show ?thesis
      by (auto simp: bit_simps d m)
  qed
qed

lemma nth_le_bytes [simp]:
  "i < n \<Longrightarrow> le_bytes n w ! i = ucast (drop_bit (8 * i) w)"
  by (simp add: le_bytes_def)

lemma le_word_le_bytes:
  assumes "8 * n = LENGTH('a::len)"
  shows "le_word (le_bytes n w) = (w :: 'a word)"
proof (rule bit_word_eqI)
  fix i assume i: "i < LENGTH('a)"
  then have "i div 8 < n" using assms by (simp add: div_less_iff_less_mult mult.commute)
  with i show "bit (le_word (le_bytes n w) :: 'a word) i = bit w i"
    by (simp add: bit_le_word bit_simps)
qed

lemma le_bytes_le_word:
  assumes "length bs = n" and "8 * n \<le> LENGTH('a::len)"
  shows "le_bytes n (le_word bs :: 'a word) = bs"
proof (rule nth_equalityI)
  fix i assume "i < length (le_bytes n (le_word bs :: 'a word))"
  then have i: "i < n" by simp
  show "le_bytes n (le_word bs :: 'a word) ! i = bs ! i"
  proof (rule bit_word_eqI)
    fix j assume j: "j < LENGTH(8)"
    then have "(8 * i + j) div 8 = i" and "(8 * i + j) mod 8 = j" by simp_all
    with i j assms show "bit (le_bytes n (le_word bs :: 'a word) ! i) j = bit (bs ! i) j"
      by (simp add: bit_simps bit_le_word)
  qed
qed (simp add: assms)

text \<open>The wire order: most significant byte first, on either host.\<close>

definition be_bytes :: "'a::len word \<Rightarrow> byte list" where
  "be_bytes w = rev (le_bytes (LENGTH('a) div 8) w)"

lemma length_be_bytes [simp]: "length (be_bytes (w :: 'a::len word)) = LENGTH('a) div 8"
  by (simp add: be_bytes_def)

lemma to_buffer_eq_be_bytes [simp]: "to_buffer h w = be_bytes w"
  by (cases h) (simp_all add: to_buffer_def to_buffer_be_def mem_bytes_def be_bytes_def Let_def)

lemma le_word_append_zeros:
  "length bs + k = LENGTH('a::len) div 8 \<Longrightarrow> (le_word (bs @ replicate k 0) :: 'a word) = le_word bs"
  by (rule bit_word_eqI) (auto simp: bit_le_word nth_append)

lemma to_numeric_exact:
  assumes "length bs = LENGTH('a::len) div 8"
  shows "(to_numeric h bs :: 'a word) = le_word (rev bs)"
  using assms
  by (cases h) (simp_all add: to_numeric_def to_numeric_be_def to_numeric_le_def mem_fill_def
      mem_word_def)

lemma to_numeric_at_exact:
  assumes "length bs = offset + LENGTH('a::len) div 8" and "length bs < 2 ^ 64"
  shows "(to_numeric_at b h bs offset :: 'a word result) = Inr (le_word (rev (drop offset bs)))"
proof -
  have "unat (word_of_nat (length bs) - word_of_nat offset :: u64) = LENGTH('a) div 8"
    using assms by (simp flip: of_nat_diff add: unat_of_nat)
  with assms show ?thesis
    by (cases h) (simp_all add: to_numeric_at_def to_numeric_be_at_def to_numeric_le_at_def Let_def
        offset_in_bounds_def mem_fill_def mem_word_def min_def)
qed

text \<open>
  A value of fixed width on the wire.  A run of such values is read back value by value at the
  multiples of the width; the integers of the library and its OBIS codes provide the interface.
\<close>

locale fixed_codec =
  fixes enc :: "'a \<Rightarrow> byte list"
    and dec :: "byte list \<Rightarrow> 'a"
    and width :: nat
  assumes length_enc: "length (enc x) = width"
    and dec_enc: "dec (enc x) = x"
begin

lemma enc_inject: "enc x = enc y \<longleftrightarrow> x = y"
  by (metis dec_enc)

lemma length_run: "length (concat (map enc xs)) = width * length xs"
  by (induction xs) (simp_all add: length_enc)

lemma run_chunk:
  "i < length xs \<Longrightarrow> take width (drop (i * width) (concat (map enc xs))) = enc (xs ! i)"
proof (induction xs arbitrary: i)
  case Nil
  then show ?case by simp
next
  case (Cons x xs)
  then show ?case by (cases i) (simp_all add: length_enc)
qed

lemma run_decode:
  "map (\<lambda>i. dec (take width (drop (i * width) (concat (map enc xs))))) [0..<length xs] = xs"
  by (rule nth_equalityI) (simp_all add: run_chunk dec_enc)

end

lemma to_numeric_to_buffer_aux:
  assumes "8 * (LENGTH('a::len) div 8) = LENGTH('a)"
  shows "to_numeric h (be_bytes (w :: 'a word)) = w"
  using le_word_le_bytes [OF assms] by (simp add: to_numeric_exact be_bytes_def)

interpretation codec8: fixed_codec "to_buffer h :: byte \<Rightarrow> byte list" "to_numeric h" 1 for h
  by unfold_locales (simp_all add: to_numeric_to_buffer_aux)

interpretation codec16: fixed_codec "to_buffer h :: u16 \<Rightarrow> byte list" "to_numeric h" 2 for h
  by unfold_locales (simp_all add: to_numeric_to_buffer_aux)

interpretation codec32: fixed_codec "to_buffer h :: u32 \<Rightarrow> byte list" "to_numeric h" 4 for h
  by unfold_locales (simp_all add: to_numeric_to_buffer_aux)

interpretation codec64: fixed_codec "to_buffer h :: u64 \<Rightarrow> byte list" "to_numeric h" 8 for h
  by unfold_locales (simp_all add: to_numeric_to_buffer_aux)

interpretation codec128: fixed_codec "to_buffer h :: 128 word \<Rightarrow> byte list" "to_numeric h" 16 for h
  by unfold_locales (simp_all add: to_numeric_to_buffer_aux)

lemmas to_numeric_be_bytes [simp] =
  codec8.dec_enc [simplified] codec16.dec_enc [simplified] codec32.dec_enc [simplified]
  codec64.dec_enc [simplified] codec128.dec_enc [simplified]

section \<open>The number in a byte sequence\<close>

fun le_number :: "byte list \<Rightarrow> nat" where
  "le_number [] = 0"
| "le_number (b # bs) = unat b + 256 * le_number bs"

lemma byte_less [simp]: "unat (b :: byte) < 256"
  using unsigned_less [of b] by simp

lemma digit_bound: "x < b \<Longrightarrow> n < m \<Longrightarrow> x + b * n < b * (m :: nat)"
proof -
  assume "x < b" and "n < m"
  then have "b * (n + 1) \<le> b * m" by (intro mult_le_mono2) simp
  with \<open>x < b\<close> show ?thesis by simp
qed

lemma le_number_bound: "le_number bs < 256 ^ length bs"
  by (induction bs) (simp_all add: digit_bound)

lemma le_number_append: "le_number (xs @ ys) = le_number xs + 256 ^ length xs * le_number ys"
  by (induction xs) (simp_all add: algebra_simps)

lemma unat_le_word:
  "8 * length bs \<le> LENGTH('a::len) \<Longrightarrow> unat (le_word bs :: 'a word) = le_number bs"
proof (induction bs)
  case (Cons b bs)
  let ?w = "le_word bs :: 'a word" and ?b = "ucast b :: 'a word"
  have "(256 :: nat) ^ length (b # bs) = 2 ^ (8 * length (b # bs))"
    by (simp add: power_mult power_add)
  also have "\<dots> \<le> 2 ^ LENGTH('a)" using Cons.prems by (intro power_increasing) simp_all
  finally have size: "256 ^ length (b # bs) \<le> (2 :: nat) ^ LENGTH('a)" .
  have "unat b < 256 ^ length (b # bs)" using byte_less [of b] by (rule less_le_trans) simp
  with size have b: "unat ?b = unat b"
    by (simp add: unsigned_ucast_eq take_bit_nat_eq_self_iff)
  have "?b AND push_bit 8 ?w = 0"
    by (rule bit_word_eqI) (auto simp: bit_simps dest: bit_imp_le_length)
  then have "le_word (b # bs) = ?b + 256 * ?w"
    using word_plus_and_or [of ?b "push_bit 8 ?w"] by (simp add: push_bit_eq_mult)
  also have "\<dots> = word_of_nat (unat ?b + 256 * unat ?w)" by simp
  also have "unat ?b + 256 * unat ?w = le_number (b # bs)" using Cons b by simp
  finally show ?case
    using le_number_bound [of "b # bs"] size by (simp only: unat_of_nat mod_less)
qed simp

lemma le_number_rev_less:
  "length xs = length ys \<Longrightarrow> le_number (rev xs) < le_number (rev ys) \<longleftrightarrow> xs < ys"
proof (induction xs ys rule: list_induct2)
  case (Cons x xs y ys)
  have more: "le_number (rev as) + 256 ^ n * unat a < le_number (rev cs) + 256 ^ n * unat c"
    if "a < c" "length as = n" for a c :: byte and as cs n
  proof -
    from that(1) have "256 ^ n * (unat a + 1) \<le> 256 ^ n * unat c"
      by (intro mult_le_mono2) (simp add: word_less_nat_alt)
    with that(2) le_number_bound [of "rev as"] show ?thesis by simp
  qed
  consider "x < y" | "y < x" | "x = y" by fastforce
  then show ?case
    by cases (use more [of x y xs "length xs" ys] more [of y x ys "length xs" xs] Cons in \<open>auto simp: le_number_append\<close>)
qed simp

lemma le_word_rev_less:
  assumes "length xs = length ys" and "8 * length xs \<le> LENGTH('a::len)"
  shows "(le_word (rev xs) :: 'a word) < le_word (rev ys) \<longleftrightarrow> xs < ys"
  using assms by (simp add: word_less_nat_alt unat_le_word le_number_rev_less)

section \<open>Byte swaps reverse the wire order\<close>

text \<open>The bits of the masks, by evaluation, and what one masked pair of shifts does to a bit.\<close>

lemma all_below: "list_all P [0..<n] \<Longrightarrow> i < n \<Longrightarrow> P i"
  by (simp add: list_all_iff)

lemma mask_bits:
  "bit (0xFF00FF00 :: u32) i \<longleftrightarrow> i < 32 \<and> odd (i div 8)"
  "bit (0xFF00FF :: u32) i \<longleftrightarrow> i < 32 \<and> even (i div 8)"
  "bit (0xFF00FF00FF00FF00 :: u64) i \<longleftrightarrow> i < 64 \<and> odd (i div 8)"
  "bit (0xFF00FF00FF00FF :: u64) i \<longleftrightarrow> i < 64 \<and> even (i div 8)"
  "bit (0xFFFF0000FFFF0000 :: u64) i \<longleftrightarrow> i < 64 \<and> odd (i div 16)"
  "bit (0xFFFF0000FFFF :: u64) i \<longleftrightarrow> i < 64 \<and> even (i div 16)"
proof -
  have "list_all (\<lambda>i. bit (0xFF00FF00 :: u32) i = odd (i div 8)) [0..<32]" by code_simp
  note all_below [OF this, of i]
  moreover have "list_all (\<lambda>i. bit (0xFF00FF :: u32) i = even (i div 8)) [0..<32]" by code_simp
  note all_below [OF this, of i]
  moreover have "list_all (\<lambda>i. bit (0xFF00FF00FF00FF00 :: u64) i = odd (i div 8)) [0..<64]"
    by code_simp
  note all_below [OF this, of i]
  moreover have "list_all (\<lambda>i. bit (0xFF00FF00FF00FF :: u64) i = even (i div 8)) [0..<64]"
    by code_simp
  note all_below [OF this, of i]
  moreover have "list_all (\<lambda>i. bit (0xFFFF0000FFFF0000 :: u64) i = odd (i div 16)) [0..<64]"
    by code_simp
  note all_below [OF this, of i]
  moreover have "list_all (\<lambda>i. bit (0xFFFF0000FFFF :: u64) i = even (i div 16)) [0..<64]"
    by code_simp
  note all_below [OF this, of i]
  ultimately show
    "bit (0xFF00FF00 :: u32) i \<longleftrightarrow> i < 32 \<and> odd (i div 8)"
    "bit (0xFF00FF :: u32) i \<longleftrightarrow> i < 32 \<and> even (i div 8)"
    "bit (0xFF00FF00FF00FF00 :: u64) i \<longleftrightarrow> i < 64 \<and> odd (i div 8)"
    "bit (0xFF00FF00FF00FF :: u64) i \<longleftrightarrow> i < 64 \<and> even (i div 8)"
    "bit (0xFFFF0000FFFF0000 :: u64) i \<longleftrightarrow> i < 64 \<and> odd (i div 16)"
    "bit (0xFFFF0000FFFF :: u64) i \<longleftrightarrow> i < 64 \<and> even (i div 16)"
    using impossible_bit [of _ i] by (cases "i < 32"; cases "i < 64"; simp add: impossible_bit)+
qed

lemma swap_stage:
  assumes mh: "\<And>i. bit mh i \<longleftrightarrow> i < LENGTH('a::len) \<and> odd (i div n)"
    and ml: "\<And>i. bit ml i \<longleftrightarrow> i < LENGTH('a) \<and> even (i div n)"
    and n: "0 < n"
  shows "bit ((push_bit n v AND mh) OR (drop_bit n v AND ml) :: 'a word) i \<longleftrightarrow>
    i < LENGTH('a) \<and> bit v (if odd (i div n) then i - n else i + n)"
proof -
  have "odd (i div n) \<Longrightarrow> n \<le> i" using n by (metis div_less even_zero not_le)
  then show ?thesis by (auto simp: bit_simps mh ml add.commute)
qed

lemma signed_stage:
  assumes "\<And>i. bit m i \<Longrightarrow> i + n < LENGTH('a::len)"
  shows "signed_drop_bit n v AND m = (drop_bit n v AND m :: 'a word)"
proof (rule bit_word_eqI)
  fix i assume "i < LENGTH('a)"
  then show "bit (signed_drop_bit n v AND m) i = bit (drop_bit n v AND m) i"
    using assms [of i] by (auto simp: bit_simps add.commute)
qed

lemma even_block_below:
  "even (i div n) \<Longrightarrow> i < n * (2 * k) \<Longrightarrow> 0 < n \<Longrightarrow> i + n < n * (2 * (k :: nat))"
proof -
  assume e: "even (i div n)" and i: "i < n * (2 * k)" and n: "0 < n"
  then have "i div n < 2 * k" by (simp add: div_less_iff_less_mult mult.commute)
  moreover from e obtain j where "i div n = 2 * j" by (elim evenE)
  ultimately have "i div n + 2 \<le> 2 * k" by simp
  then have "n * (i div n + 2) \<le> n * (2 * k)" by (rule mult_le_mono2)
  moreover have "i < n * (i div n) + n" using n
    by (metis add.commute add_less_cancel_left mod_less_divisor mult_div_mod_eq)
  ultimately show ?thesis by (simp add: algebra_simps)
qed

lemma low_mask_bits:
  "bit (0xFF :: u16) i \<longleftrightarrow> i < 8"
  "bit (0xFFFF :: u32) i \<longleftrightarrow> i < 16"
  "bit (0xFFFFFFFF :: u64) i \<longleftrightarrow> i < 32"
proof -
  have "(0xFF :: u16) = mask 8" "(0xFFFF :: u32) = mask 16" "(0xFFFFFFFF :: u64) = mask 32"
    by (simp_all add: mask_eq_exp_minus_1)
  then show "bit (0xFF :: u16) i \<longleftrightarrow> i < 8" "bit (0xFFFF :: u32) i \<longleftrightarrow> i < 16"
    "bit (0xFFFFFFFF :: u64) i \<longleftrightarrow> i < 32"
    by (simp_all only: bit_mask_iff) auto
qed

lemma last_stage:
  assumes "LENGTH('a::len) = 2 * n" and "0 < n"
  shows "bit (push_bit n v OR drop_bit n v :: 'a word) i \<longleftrightarrow>
      i < LENGTH('a) \<and> bit v (if n \<le> i then i - n else i + n)"
  using assms by (auto simp: bit_simps add.commute impossible_bit)

lemma signed_last_stage:
  assumes n: "LENGTH('a::len) = 2 * n" "0 < n" and m: "\<And>i. bit m i \<longleftrightarrow> i < n"
  shows "push_bit n v OR (signed_drop_bit n v AND m) = (push_bit n v OR drop_bit n v :: 'a word)"
proof -
  have "drop_bit n v AND m = drop_bit n v"
  proof (rule bit_word_eqI)
    fix i show "bit (drop_bit n v AND m) i = bit (drop_bit n v) i"
      using n bit_imp_le_length [of v "i + n"] by (auto simp: bit_simps m add.commute)
  qed
  moreover have "signed_drop_bit n v AND m = drop_bit n v AND m"
    by (rule signed_stage) (use n in \<open>simp add: m\<close>)
  ultimately show ?thesis by simp
qed

lemma swap_bytes_i16_eq: "swap_bytes_i16 v = swap_bytes16 v"
  unfolding swap_bytes_i16_def swap_bytes16_def
  by (rule signed_last_stage) (simp_all only: low_mask_bits, simp_all)

lemma swap_bytes_i32_eq: "swap_bytes_i32 v = swap_bytes32 v"
proof -
  have "signed_drop_bit 8 v AND 0xFF00FF = drop_bit 8 v AND 0xFF00FF"
    by (rule signed_stage, simp only: mask_bits, drule conjE) (use even_block_below [of _ 8 2] in auto)
  then show ?thesis
    unfolding swap_bytes_i32_def swap_bytes32_def Let_def
    by (simp only:) (rule signed_last_stage, simp_all only: low_mask_bits, simp_all)
qed

lemma swap_bytes_i64_eq: "swap_bytes_i64 v = swap_bytes64 v"
proof -
  have "signed_drop_bit 8 w AND 0x00FF00FF00FF00FF = drop_bit 8 w AND 0x00FF00FF00FF00FF"
    for w :: u64
    by (rule signed_stage, simp only: mask_bits, drule conjE) (use even_block_below [of _ 8 4] in auto)
  moreover have "signed_drop_bit 16 w AND 0x0000FFFF0000FFFF = drop_bit 16 w AND 0x0000FFFF0000FFFF"
    for w :: u64
    by (rule signed_stage, simp only: mask_bits, drule conjE) (use even_block_below [of _ 16 2] in auto)
  ultimately show ?thesis
    unfolding swap_bytes_i64_def swap_bytes64_def Let_def
    by (simp only:) (rule signed_last_stage, simp_all only: low_mask_bits, simp_all)
qed

text \<open>Bit \<open>i\<close> of the swapped word is the same bit of the mirrored byte.\<close>

lemma bit_swap_bytes16:
  "bit (swap_bytes16 v) i \<longleftrightarrow> i < 16 \<and> bit v (8 * (1 - i div 8) + i mod 8)"
proof (cases "i < 16")
  case True
  have "list_all (\<lambda>i. (if 8 \<le> i then i - 8 else i + 8) = 8 * (1 - i div 8) + i mod 8) [0..<16]"
    by code_simp
  from all_below [OF this True] True show ?thesis
    unfolding swap_bytes16_def by (subst last_stage) simp_all
qed (simp add: impossible_bit)

lemma bit_swap_bytes32:
  "bit (swap_bytes32 v) i \<longleftrightarrow> i < 32 \<and> bit v (8 * (3 - i div 8) + i mod 8)"
proof (cases "i < 32")
  case True
  let ?f = "\<lambda>n i. if odd (i div n) then i - n else i + n"
  let ?v = "(push_bit 8 v AND 0xFF00FF00) OR (drop_bit 8 v AND 0xFF00FF)"
  have v: "bit ?v i \<longleftrightarrow> i < 32 \<and> bit v (?f 8 i)" for i
    by (subst swap_stage) (simp_all only: mask_bits, simp_all)
  have "list_all (\<lambda>i. (if 16 \<le> i then i - 16 else i + 16) < 32 \<and>
     ?f 8 (if 16 \<le> i then i - 16 else i + 16) = 8 * (3 - i div 8) + i mod 8) [0..<32]"
    by code_simp
  from all_below [OF this True] True show ?thesis
    unfolding swap_bytes32_def Let_def
    by (subst last_stage) (simp_all only: v, simp_all)
qed (simp add: impossible_bit)

lemma bit_swap_bytes64:
  "bit (swap_bytes64 v) i \<longleftrightarrow> i < 64 \<and> bit v (8 * (7 - i div 8) + i mod 8)"
proof (cases "i < 64")
  case True
  let ?f = "\<lambda>n i. if odd (i div n) then i - n else i + n"
  let ?v = "(push_bit 8 v AND 0xFF00FF00FF00FF00) OR (drop_bit 8 v AND 0x00FF00FF00FF00FF)"
  let ?w = "(push_bit 16 ?v AND 0xFFFF0000FFFF0000) OR (drop_bit 16 ?v AND 0x0000FFFF0000FFFF)"
  let ?g = "\<lambda>i. if 32 \<le> i then i - 32 else (i :: nat) + 32"
  have v: "bit ?v i \<longleftrightarrow> i < 64 \<and> bit v (?f 8 i)" for i
    by (subst swap_stage) (simp_all only: mask_bits, simp_all)
  have w: "bit ?w i \<longleftrightarrow> i < 64 \<and> bit ?v (?f 16 i)" for i
    by (subst swap_stage) (simp_all only: mask_bits, simp_all)
  have "list_all (\<lambda>i. ?g i < 64 \<and> ?f 16 (?g i) < 64 \<and>
     ?f 8 (?f 16 (?g i)) = 8 * (7 - i div 8) + i mod 8) [0..<64]"
    by code_simp
  from all_below [OF this True] True show ?thesis
    unfolding swap_bytes64_def Let_def
    by (subst last_stage) (simp_all only: w v, simp_all)
qed (simp add: impossible_bit)

lemma be_bytes_mirror:
  assumes n: "LENGTH('a::len) = 8 * n"
    and s: "\<And>i. bit (s :: 'a word) i \<longleftrightarrow> i < 8 * n \<and> bit v (8 * (n - 1 - i div 8) + i mod 8)"
  shows "be_bytes s = rev (be_bytes (v :: 'a word))"
proof -
  have "le_bytes n s ! k = rev (le_bytes n v) ! k" if k: "k < n" for k
  proof (rule bit_word_eqI)
    fix j assume j: "j < LENGTH(8)"
    then have "(8 * k + j) div 8 = k" and "(8 * k + j) mod 8 = j" and "8 * k + j < 8 * n"
      using k by simp_all
    with j k show "bit (le_bytes n s ! k) j = bit (rev (le_bytes n v) ! k) j"
      by (simp add: bit_simps s rev_nth)
  qed
  then have "le_bytes n s = rev (le_bytes n v)" by (simp add: list_eq_iff_nth_eq)
  then show ?thesis by (simp add: be_bytes_def n)
qed

lemma be_bytes_swap16: "be_bytes (swap_bytes16 v) = rev (be_bytes v)"
  by (rule be_bytes_mirror [where n = 2]) (simp_all add: bit_swap_bytes16)

lemma be_bytes_swap32: "be_bytes (swap_bytes32 v) = rev (be_bytes v)"
  by (rule be_bytes_mirror [where n = 4]) (simp_all add: bit_swap_bytes32)

lemma be_bytes_swap64: "be_bytes (swap_bytes64 v) = rev (be_bytes v)"
  by (rule be_bytes_mirror [where n = 8]) (simp_all add: bit_swap_bytes64)

section \<open>Properties\<close>

text \<open>Numbers on the wire: \<^verbatim>\<open>to_numeric\<close> reads back what \<^verbatim>\<open>to_buffer\<close> wrote, on hosts of any byte order and
  also across hosts of different byte order, since the bytes are those of the big-endian number.\<close>

theorem wire_number:
  "(to_numeric h' (to_buffer h (v :: u64)) :: u64) = v \<and>
   (to_numeric h' (to_buffer h (w :: u16)) :: u16) = w \<and>
   length (to_buffer h v) = 8 \<and>
   unat v = le_number (rev (to_buffer h v)) \<and>
   (to_buffer h v < to_buffer h v' \<longleftrightarrow> v < v')"
proof -
  have v: "le_word (rev (be_bytes x)) = x" for x :: u64
    by (simp add: be_bytes_def le_word_le_bytes)
  have "unat v = le_number (rev (be_bytes v))"
    using unat_le_word [where 'a = 64 and bs = "rev (be_bytes v)"] by (simp add: v)
  moreover have "be_bytes v < be_bytes v' \<longleftrightarrow> v < v'"
    using le_word_rev_less [where 'a = 64, of "be_bytes v" "be_bytes v'"] by (simp add: v)
  ultimately show ?thesis by simp
qed

text \<open>Short buffers: a number read from fewer bytes than it has is the number of these bytes on a
  little-endian host, but on a big-endian host it is shifted up by the missing bytes.\<close>

theorem to_numeric_short:
  assumes "length bs + k = LENGTH('a::len) div 8" and "LENGTH('a) mod 8 = 0"
  shows "(to_numeric Little bs :: 'a word) = le_word (rev bs) \<and>
    (to_numeric Big bs :: 'a word) = push_bit (8 * k) (le_word (rev bs))"
proof -
  have min: "min (LENGTH('a) div 8) (length bs) = length bs"
    and k: "LENGTH('a) div 8 - length bs = k" using assms(1) by simp_all
  have zeros: "(le_word (replicate k 0 @ bs') :: 'a word) = push_bit (8 * k) (le_word bs')" for bs'
    by (induction k) (simp_all add: add.commute flip: push_bit_push_bit)
  have little: "(to_numeric Little bs :: 'a word) = le_word (rev bs)"
    using le_word_append_zeros [where 'a = 'a, of "rev bs" k] assms(1)
    by (simp add: to_numeric_def to_numeric_le_def mem_fill_def mem_word_def min k)
  have big: "(to_numeric Big bs :: 'a word) = push_bit (8 * k) (le_word (rev bs))"
    by (simp add: to_numeric_def to_numeric_be_def mem_fill_def mem_word_def min k zeros)
  from little big show ?thesis ..
qed

theorem to_numeric_short_witness:
  "(to_numeric Little [1, 2] :: u32) = 0x0102 \<and> (to_numeric Big [1, 2] :: u32) = 0x01020000"
  using to_numeric_short [where 'a = 32, of "[1, 2]" 2] by simp

text \<open>Reading a number at an offset: it is read when it lies within the buffer; otherwise the assertion stops a
  debug build, but only while the offset is within the buffer: past its end the unsigned difference
  wraps around and the copy reads outside in either build.\<close>

theorem to_numeric_at_bounds:
  fixes bs :: "byte list"
  assumes "length bs < 2 ^ 63" and "offset < 2 ^ 63"
  shows "(to_numeric_at b h bs offset :: u64 result) =
    (if offset + 8 \<le> length bs then Inr (le_word (rev (take 8 (drop offset bs))))
     else if offset = 0 \<and> b = Release then Inr (to_numeric h bs)
     else if offset \<le> length bs \<and> b = Debug then Inl Assertion
     else Inl Undefined)"
proof -
  have diff: "unat (word_of_nat (length bs) - word_of_nat offset :: u64) =
      (if offset \<le> length bs then length bs - offset else 2 ^ 64 + length bs - offset)"
    using assms by (auto simp: unat_sub_if' unat_of_nat)
  have in_bounds: "offset_in_bounds TYPE(u64) (length bs) offset \<longleftrightarrow>
      (offset + 8 \<le> length bs \<or> length bs < offset)"
    using assms by (auto simp: offset_in_bounds_def diff)
  show ?thesis
  proof (cases "offset + 8 \<le> length bs")
    case True
    then show ?thesis
      by (cases h) (simp_all add: to_numeric_at_def to_numeric_be_at_def to_numeric_le_at_def Let_def
          in_bounds mem_fill_def mem_word_def min_def)
  next
    case False
    then show ?thesis
      by (cases h; cases b) (auto simp: to_numeric_at_def to_numeric_be_at_def to_numeric_le_at_def Let_def
          in_bounds min_def to_numeric_def to_numeric_be_def to_numeric_le_def mem_fill_def)
  qed
qed

theorem to_numeric_at_bounds_witness:
  "(to_numeric_at Debug Little [1, 2] 3 :: u64 result) = Inl Undefined \<and>
   (to_numeric_at Debug Little [1, 2] 1 :: u64 result) = Inl Assertion \<and>
   (to_numeric_at Debug Little [0, 0, 0, 0, 0, 0, 0, 0, 7] 1 :: u64 result) = Inr 7"
  using to_numeric_at_bounds [of "[1, 2]" 3 Debug Little] to_numeric_at_bounds [of "[1, 2]" 1 Debug Little]
    to_numeric_at_bounds [of "[0, 0, 0, 0, 0, 0, 0, 0, 7]" 1 Debug Little]
  by simp

text \<open>The byte swaps reverse the bytes of the number on the wire, so they are their own inverses, and the
  signed versions, which shift with sign and mask the rest away, agree with the unsigned ones.\<close>

theorem swap_bytes_correct:
  "to_buffer h (swap_bytes16 a) = rev (to_buffer h a) \<and>
   to_buffer h (swap_bytes32 b) = rev (to_buffer h b) \<and>
   to_buffer h (swap_bytes64 c) = rev (to_buffer h c) \<and>
   swap_bytes16 (swap_bytes16 a) = a \<and> swap_bytes32 (swap_bytes32 b) = b \<and> swap_bytes64 (swap_bytes64 c) = c \<and>
   swap_bytes_i16 a = swap_bytes16 a \<and> swap_bytes_i32 b = swap_bytes32 b \<and> swap_bytes_i64 c = swap_bytes64 c"
proof -
  have "be_bytes (swap_bytes16 (swap_bytes16 a)) = be_bytes a"
    "be_bytes (swap_bytes32 (swap_bytes32 b)) = be_bytes b"
    "be_bytes (swap_bytes64 (swap_bytes64 c)) = be_bytes c"
    by (simp_all add: be_bytes_swap16 be_bytes_swap32 be_bytes_swap64)
  then have "swap_bytes16 (swap_bytes16 a) = a" "swap_bytes32 (swap_bytes32 b) = b"
    "swap_bytes64 (swap_bytes64 c) = c"
    using codec16.enc_inject codec32.enc_inject codec64.enc_inject by (simp_all only: to_buffer_eq_be_bytes)
  then show ?thesis
    by (simp add: be_bytes_swap16 be_bytes_swap32 be_bytes_swap64 swap_bytes_i16_eq swap_bytes_i32_eq swap_bytes_i64_eq)
qed
end
