(* ===== verification/Intrinsics.thy ===== *)
theory Intrinsics
  imports Buffer
begin

text \<open>
  The intrinsic value types of \<^verbatim>\<open>include/cyng/obj/intrinsics/\<close> that have operations of their own: VM op
  codes, log levels, OBIS and EDIS codes, MAC addresses, version numbers, colors and unparsed (raw)
  values.  Octet arrays of fixed size (digests, AES keys, UUIDs) need no more than their bytes.
\<close>

section \<open>VM op codes: op.h\<close>

datatype op =
    PUSH | PC | PR | CORA | ASP | CALL | JA | JE | JNE | RET | ESBA | REBA | PULL | FRM | ADD | SUB
  | INVOKE | INVOKE_R | FORWARD | RESOLVE | IDENT | NOW | PID | TID
  | MAKE_ATTR | MAKE_PARAM | MAKE_PROP | MAKE_ATTR_MAP | MAKE_PARAM_MAP | MAKE_PROP_MAP
  | MAKE_TUPLE | MAKE_VECTOR | MAKE_DEQUE | MAKE_PRG | SPLIT
  | LERR | TSTERR | RESERR | TIDY | ASSERT_TYPE | ASSERT_VALUE | HALT | NOOP

primrec op_code :: "op \<Rightarrow> u16" where
  "op_code PUSH = 0"
| "op_code PC = 1"
| "op_code PR = 2"
| "op_code CORA = 3"
| "op_code ASP = 4"
| "op_code CALL = 5"
| "op_code JA = 6"
| "op_code JE = 7"
| "op_code JNE = 8"
| "op_code RET = 0xF0"
| "op_code ESBA = 0xF9"
| "op_code REBA = 0xFA"
| "op_code PULL = 0xFB"
| "op_code FRM = 0xFC"
| "op_code ADD = 0xF1"
| "op_code SUB = 0xF2"
| "op_code INVOKE = 0x100"
| "op_code INVOKE_R = 0x101"
| "op_code FORWARD = 0x102"
| "op_code RESOLVE = 0x103"
| "op_code IDENT = 0x104"
| "op_code NOW = 0x105"
| "op_code PID = 0x106"
| "op_code TID = 0x107"
| "op_code MAKE_ATTR = 0x108"
| "op_code MAKE_PARAM = 0x109"
| "op_code MAKE_PROP = 0x10A"
| "op_code MAKE_ATTR_MAP = 0x10B"
| "op_code MAKE_PARAM_MAP = 0x10C"
| "op_code MAKE_PROP_MAP = 0x10D"
| "op_code MAKE_TUPLE = 0x10E"
| "op_code MAKE_VECTOR = 0x10F"
| "op_code MAKE_DEQUE = 0x110"
| "op_code MAKE_PRG = 0x111"
| "op_code SPLIT = 0x112"
| "op_code LERR = 0x113"
| "op_code TSTERR = 0x114"
| "op_code RESERR = 0x115"
| "op_code TIDY = 0x116"
| "op_code ASSERT_TYPE = 0x117"
| "op_code ASSERT_VALUE = 0x118"
| "op_code HALT = 0xFFFD"
| "op_code NOOP = 0xFFFE"

definition all_ops :: "op list" where
  "all_ops = [PUSH, PC, PR, CORA, ASP, CALL, JA, JE, JNE, RET, ESBA, REBA, PULL, FRM, ADD, SUB,
    INVOKE, INVOKE_R, FORWARD, RESOLVE, IDENT, NOW, PID, TID,
    MAKE_ATTR, MAKE_PARAM, MAKE_PROP, MAKE_ATTR_MAP, MAKE_PARAM_MAP, MAKE_PROP_MAP,
    MAKE_TUPLE, MAKE_VECTOR, MAKE_DEQUE, MAKE_PRG, SPLIT,
    LERR, TSTERR, RESERR, TIDY, ASSERT_TYPE, ASSERT_VALUE, HALT, NOOP]"

text \<open>An \<^verbatim>\<open>op\<close> read from a wire can hold any 16-bit value; this names the enumerators.\<close>

definition op_of_code :: "u16 \<Rightarrow> op option" where
  "op_of_code w = map_of (map (\<lambda>c. (op_code c, c)) all_ops) w"

text \<open>The table of \<^verbatim>\<open>src/parse/src/op.cpp\<close>; \<^verbatim>\<open>to_op\<close> turns an unknown name into \<open>NOOP\<close>.\<close>

definition ops :: "(string \<times> op) list" where
  "ops = [(''NOW'', NOW), (''PUSH'', PUSH), (''PC'', PC), (''PR'', PR), (''CORA'', CORA),
    (''ASP'', ASP), (''CALL'', CALL), (''JA'', JA), (''JE'', JE), (''JNE'', JNE), (''RET'', RET),
    (''ESBA'', ESBA), (''REBA'', REBA), (''PULL'', PULL), (''FRM'', FRM), (''ADD'', ADD),
    (''SUB'', SUB), (''INVOKE'', INVOKE), (''INVOKE_R'', INVOKE_R), (''FORWARD'', FORWARD),
    (''RESOLVE'', RESOLVE), (''IDENT'', IDENT), (''PID'', PID), (''TID'', TID),
    (''MAKE_ATTR'', MAKE_ATTR), (''MAKE_PARAM'', MAKE_PARAM), (''MAKE_ATTR_MAP'', MAKE_ATTR_MAP),
    (''MAKE_PARAM_MAP'', MAKE_PARAM_MAP), (''MAKE_TUPLE'', MAKE_TUPLE),
    (''MAKE_VECTOR'', MAKE_VECTOR), (''MAKE_DEQUE'', MAKE_DEQUE), (''MAKE_PRG'', MAKE_PRG),
    (''SPLIT'', SPLIT), (''LERR'', LERR), (''TSTERR'', TSTERR), (''RESERR'', RESERR),
    (''TIDY'', TIDY), (''ASSERT_TYPE'', ASSERT_TYPE), (''ASSERT_VALUE'', ASSERT_VALUE),
    (''HALT'', HALT), (''NOOP'', NOOP)]"

definition to_op :: "string \<Rightarrow> op" where
  "to_op s = (case map_of ops s of Some c \<Rightarrow> c | None \<Rightarrow> NOOP)"

text \<open>
  The name \<^verbatim>\<open>operator<<\<close> of \<^verbatim>\<open>src/io/src/ostream.cpp\<close> prints after the prefix \<open>op:\<close>; \<open>None\<close> is its
  default branch, which prints the number.
\<close>

fun op_name :: "op \<Rightarrow> string option" where
  "op_name PUSH = Some ''PUSH''"
| "op_name CALL = Some ''CALL''"
| "op_name RET = Some ''RET''"
| "op_name JA = Some ''JA''"
| "op_name JE = Some ''JE''"
| "op_name JNE = Some ''JNE''"
| "op_name ESBA = Some ''ESBA''"
| "op_name REBA = Some ''REBA''"
| "op_name PULL = Some ''PULL''"
| "op_name FRM = Some ''FRM''"
| "op_name ADD = Some ''ADD''"
| "op_name SUB = Some ''SUB''"
| "op_name INVOKE = Some ''INVOKE''"
| "op_name INVOKE_R = Some ''INVOKE_R''"
| "op_name FORWARD = Some ''FORWARD''"
| "op_name RESOLVE = Some ''RESOLVE''"
| "op_name IDENT = Some ''IDENT''"
| "op_name NOW = Some ''NOW''"
| "op_name PID = Some ''PID''"
| "op_name TID = Some ''TID''"
| "op_name MAKE_ATTR = Some ''MAKE_ATTR''"
| "op_name MAKE_PARAM = Some ''MAKE_PARAM''"
| "op_name MAKE_PROP = Some ''MAKE_PROP''"
| "op_name MAKE_ATTR_MAP = Some ''MAKE_ATTR_MAP''"
| "op_name MAKE_PARAM_MAP = Some ''MAKE_PARAM_MAP''"
| "op_name MAKE_PROP_MAP = Some ''MAKE_PROP_MAP''"
| "op_name MAKE_TUPLE = Some ''MAKE_TUPLE''"
| "op_name MAKE_VECTOR = Some ''MAKE_VECTOR''"
| "op_name MAKE_DEQUE = Some ''MAKE_DEQUE''"
| "op_name SPLIT = Some ''SPLIT''"
| "op_name TIDY = Some ''TIDY''"
| "op_name ASSERT_TYPE = Some ''ASSERT_TYPE''"
| "op_name ASSERT_VALUE = Some ''ASSERT_VALUE''"
| "op_name HALT = Some ''HALT''"
| "op_name NOOP = Some ''NOOP''"
| "op_name _ = None"

section \<open>Log levels: severity.h\<close>

datatype severity =
  LEVEL_TRACE | LEVEL_DEBUG | LEVEL_INFO | LEVEL_WARNING | LEVEL_ERROR | LEVEL_FATAL | LEVEL_ALL

primrec severity_code :: "severity \<Rightarrow> byte" where
  "severity_code LEVEL_TRACE = 0"
| "severity_code LEVEL_DEBUG = 1"
| "severity_code LEVEL_INFO = 2"
| "severity_code LEVEL_WARNING = 3"
| "severity_code LEVEL_ERROR = 4"
| "severity_code LEVEL_FATAL = 5"
| "severity_code LEVEL_ALL = 6"

section \<open>OBIS codes: obis.h, obis.cpp\<close>

datatype obis = Obis (medium: byte) (channel: byte) (indicator: byte) (mode: byte) (quantity: byte)
  (storage: byte)

definition obis_data :: "obis \<Rightarrow> byte list" where
  "obis_data o6 = [medium o6, channel o6, indicator o6, mode o6, quantity o6, storage o6]"

text \<open>The constructor from a \<^verbatim>\<open>data_type\<close>: the array has exactly six elements.\<close>

definition obis_of_data :: "byte list \<Rightarrow> obis" where
  "obis_of_data d = Obis (d ! 0) (d ! 1) (d ! 2) (d ! 3) (d ! 4) (d ! 5)"

text \<open>
  \<^verbatim>\<open>operator<\<close> compares the arrays; the other operators are defined from it and from \<^verbatim>\<open>operator==\<close> as in
  the source.
\<close>

definition obis_lt :: "obis \<Rightarrow> obis \<Rightarrow> bool" where
  "obis_lt lhs rhs \<longleftrightarrow> lex_lt (<) (obis_data lhs) (obis_data rhs)"

definition obis_gt :: "obis \<Rightarrow> obis \<Rightarrow> bool" where
  "obis_gt lhs rhs \<longleftrightarrow> obis_lt rhs lhs"

definition obis_le :: "obis \<Rightarrow> obis \<Rightarrow> bool" where
  "obis_le lhs rhs \<longleftrightarrow> \<not> obis_gt lhs rhs"

definition obis_ge :: "obis \<Rightarrow> obis \<Rightarrow> bool" where
  "obis_ge lhs rhs \<longleftrightarrow> \<not> obis_lt lhs rhs"

definition to_uint64 :: "build \<Rightarrow> endian \<Rightarrow> obis \<Rightarrow> u64 result" where
  "to_uint64 b h o6 =
     (let r = (case h of Big \<Rightarrow> mem_fill h (obis_data o6) | Little \<Rightarrow> mem_fill h (rev (obis_data o6)))
      in rbind (boost_assert b (r < 0xFFFFFFFFFFFF)) (\<lambda>_. Inr r))"

definition to_uint16 :: "build \<Rightarrow> endian \<Rightarrow> obis \<Rightarrow> u16 result" where
  "to_uint16 b h o6 =
     rbind (boost_assert b (quantity o6 \<noteq> 0)) (\<lambda>_.
     rbind (boost_assert b (storage o6 \<noteq> 0)) (\<lambda>_.
     Inr (if quantity o6 = 0xFF then ucast (storage o6) - 1
          else case h of
            Big \<Rightarrow> push_bit 8 (ucast (storage o6)) OR ucast (quantity o6)
          | Little \<Rightarrow> push_bit 8 (ucast (quantity o6)) OR ucast (storage o6))))"

definition starts_with :: "obis \<Rightarrow> byte list \<Rightarrow> bool" where
  "starts_with o6 s = (if length s < 6 then take (length s) (obis_data o6) = s else False)"

definition is_private :: "obis \<Rightarrow> bool" where
  "is_private o6 \<longleftrightarrow>
     (medium o6 \<ge> 0x80 \<and> medium o6 \<le> 0xC7) \<or>
     (channel o6 \<ge> 0x80 \<and> channel o6 \<le> 0xC7) \<or>
     indicator o6 = 0xF0 \<or>
     (mode o6 \<ge> 0x80 \<and> mode o6 \<le> 0xFE) \<or>
     (quantity o6 \<ge> 0x80 \<and> quantity o6 \<le> 0xFE) \<or>
     (storage o6 \<ge> 0x80 \<and> storage o6 \<le> 0xFE)"

definition is_nil :: "obis \<Rightarrow> bool" where
  "is_nil o6 \<longleftrightarrow> list_all (\<lambda>c. c = 0) (obis_data o6)"

definition compare_n :: "obis \<Rightarrow> obis \<Rightarrow> nat \<Rightarrow> bool" where
  "compare_n lhs rhs n = (if n < 6 then take n (obis_data lhs) = take n (obis_data rhs) else False)"

definition depth :: "obis \<Rightarrow> nat" where
  "depth o6 = length (takeWhile (\<lambda>c. c = 0xFF) (rev (obis_data o6)))"

text \<open>
  \<^verbatim>\<open>descend\<close> and \<^verbatim>\<open>next\<close> walk a reverse iterator.  Its position is an index that counts down, and
  \<^verbatim>\<open>*--pos\<close> is the element one index higher.
\<close>

fun descend_from :: "nat \<Rightarrow> byte list \<Rightarrow> byte list option" where
  "descend_from 0 d = None"
| "descend_from (Suc pos) d =
     (if d ! pos \<noteq> 0xFF \<and> pos \<noteq> 5 then Some (d[Suc pos := 0x01]) else descend_from pos d)"

definition descend :: "obis \<Rightarrow> obis" where
  "descend o6 = (case descend_from 6 (obis_data o6) of Some d \<Rightarrow> obis_of_data d | None \<Rightarrow> o6)"

fun next_from :: "nat \<Rightarrow> byte list \<Rightarrow> byte list option" where
  "next_from 0 d = None"
| "next_from (Suc pos) d =
     (if d ! pos \<noteq> 0xFF \<and> pos \<noteq> 5 then Some (d[pos := d ! pos + 1]) else next_from pos d)"

definition next_obis :: "obis \<Rightarrow> obis" where
  "next_obis o6 = (case next_from 6 (obis_data o6) of Some d \<Rightarrow> obis_of_data d | None \<Rightarrow> o6)"

text \<open>\<^verbatim>\<open>to_array<std::uint8_t>\<close> of \<^verbatim>\<open>array_cast.hpp\<close>: reversed on a little-endian host.\<close>

definition to_array8 :: "endian \<Rightarrow> 'a::len word \<Rightarrow> byte list" where
  "to_array8 h n = (case h of Big \<Rightarrow> mem_bytes h n | Little \<Rightarrow> rev (mem_bytes h n))"

definition make_obis_u32 :: "u32 \<Rightarrow> u32 \<Rightarrow> u32 \<Rightarrow> u32 \<Rightarrow> u32 \<Rightarrow> u32 \<Rightarrow> obis" where
  "make_obis_u32 a b c d e f =
     Obis (ucast (a AND 0xFF)) (ucast (b AND 0xFF)) (ucast (c AND 0xFF))
          (ucast (d AND 0xFF)) (ucast (e AND 0xFF)) (ucast (f AND 0xFF))"

definition make_obis_ef :: "endian \<Rightarrow> byte \<Rightarrow> byte \<Rightarrow> byte \<Rightarrow> byte \<Rightarrow> u16 \<Rightarrow> obis" where
  "make_obis_ef h a b c d ef =
     (case h of
        Big \<Rightarrow> Obis a b c d (ucast (ef AND 0xFF)) (ucast (drop_bit 8 ef AND 0xFF))
      | Little \<Rightarrow> Obis a b c d (ucast (drop_bit 8 ef AND 0xFF)) (ucast (ef AND 0xFF)))"

definition make_obis_storage :: "obis \<Rightarrow> byte \<Rightarrow> obis" where
  "make_obis_storage code s =
     Obis (medium code) (channel code) (indicator code) (mode code) (quantity code) s"

definition make_obis_2 :: "endian \<Rightarrow> obis \<Rightarrow> u16 \<Rightarrow> obis" where
  "make_obis_2 h code s =
     (let a = to_array8 h s in
      Obis (medium code) (channel code) (indicator code) (mode code) (a ! 0) (a ! 1))"

definition make_obis_u64 :: "endian \<Rightarrow> u64 \<Rightarrow> obis" where
  "make_obis_u64 h n =
     (let a = to_array8 h n in
      case h of
        Big \<Rightarrow> Obis (a ! 5) (a ! 4) (a ! 3) (a ! 2) (a ! 1) (a ! 0)
      | Little \<Rightarrow> Obis (a ! 2) (a ! 3) (a ! 4) (a ! 5) (a ! 6) (a ! 7))"

type_synonym obis_path = "obis list"

definition append_code :: "obis_path \<Rightarrow> obis \<Rightarrow> obis_path" where
  "append_code p code = p @ [code]"

definition append_path :: "obis_path \<Rightarrow> obis_path \<Rightarrow> obis_path" where
  "append_path p e = p @ e"

text \<open>\<^verbatim>\<open>std::hash\<close> of an OBIS code and of a path (the shift is on 64 bits).\<close>

definition hash_obis :: "build \<Rightarrow> endian \<Rightarrow> obis \<Rightarrow> u64 result" where
  "hash_obis b h o6 = to_uint64 b h o6"

fun hash_obis_path :: "build \<Rightarrow> endian \<Rightarrow> u64 \<Rightarrow> obis_path \<Rightarrow> u64 result" where
  "hash_obis_path b h acc [] = Inr acc"
| "hash_obis_path b h acc (c # cs) =
     rbind (to_uint64 b h c) (\<lambda>r. hash_obis_path b h (acc XOR push_bit 1 r) cs)"

instantiation obis :: linorder
begin

definition less_eq_obis :: "obis \<Rightarrow> obis \<Rightarrow> bool" where
  "less_eq_obis a b \<longleftrightarrow> obis_le a b"

definition less_obis :: "obis \<Rightarrow> obis \<Rightarrow> bool" where
  "less_obis a b \<longleftrightarrow> obis_lt a b"

instance
proof
  fix x y z :: obis
  have inj: "obis_data x = obis_data y \<Longrightarrow> x = y"
    by (cases x; cases y) (simp add: obis_data_def)
  show "x < y \<longleftrightarrow> x \<le> y \<and> \<not> y \<le> x" and "x \<le> x" and "x \<le> y \<or> y \<le> x"
    by (auto simp: less_eq_obis_def less_obis_def obis_le_def obis_gt_def obis_lt_def lex_lt_less)
  show "x \<le> y \<Longrightarrow> y \<le> z \<Longrightarrow> x \<le> z" and "x \<le> y \<Longrightarrow> y \<le> x \<Longrightarrow> x = y"
    using inj
    by (auto simp: less_eq_obis_def obis_le_def obis_gt_def obis_lt_def lex_lt_less)
qed

end

section \<open>EDIS codes: edis.h, edis.cpp\<close>

datatype edis = Edis (edis_indicator: byte) (edis_mode: byte) (edis_quantity: byte)

definition edis_data :: "edis \<Rightarrow> byte list" where
  "edis_data e = [edis_indicator e, edis_mode e, edis_quantity e]"

text \<open>
  On a little-endian host.  (The big-endian branch of the source copies six bytes from a
  three-byte array into a four-byte integer.)
\<close>

definition edis_to_uint32 :: "edis \<Rightarrow> u64" where
  "edis_to_uint32 e = ucast (mem_fill Little (rev (edis_data e)) :: u32)"

definition to_edis :: "obis \<Rightarrow> edis" where
  "to_edis o6 = Edis (indicator o6) (mode o6) (quantity o6)"

definition edis_is_nil :: "edis \<Rightarrow> bool" where
  "edis_is_nil e \<longleftrightarrow> list_all (\<lambda>c. c = 0) (edis_data e)"

section \<open>MAC addresses: mac.h, mac.cpp\<close>

datatype mac48 = Mac48 byte byte byte byte byte byte

fun get_octets :: "mac48 \<Rightarrow> byte list" where
  "get_octets (Mac48 a b c d e f) = [a, b, c, d, e, f]"

fun get_oui :: "mac48 \<Rightarrow> byte list" where
  "get_oui (Mac48 a b c d e f) = [a, b, c]"

fun get_nic :: "mac48 \<Rightarrow> byte list" where
  "get_nic (Mac48 a b c d e f) = [d, e, f]"

definition mac48_of_list :: "byte list \<Rightarrow> mac48" where
  "mac48_of_list d = Mac48 (d ! 0) (d ! 1) (d ! 2) (d ! 3) (d ! 4) (d ! 5)"

text \<open>From the last octets of a UUID (sixteen bytes).\<close>

definition mac48_of_uuid :: "byte list \<Rightarrow> mac48" where
  "mac48_of_uuid tag =
     Mac48 (tag ! 10) (tag ! 11) (tag ! 12) (tag ! 13) (tag ! 14) (tag ! 15)"

fun is_multicast :: "mac48 \<Rightarrow> bool" where
  "is_multicast (Mac48 a b c d e f) \<longleftrightarrow> a AND 0x01 = 0x01"

definition is_pause :: "mac48 \<Rightarrow> bool" where
  "is_pause m \<longleftrightarrow> m = Mac48 0x01 0x80 0xC2 0x00 0x00 0x01"

fun is_private_mac :: "mac48 \<Rightarrow> bool" where
  "is_private_mac (Mac48 a b c d e f) \<longleftrightarrow> a AND 0x02 = 0x02"

definition is_nil_mac :: "mac48 \<Rightarrow> bool" where
  "is_nil_mac m \<longleftrightarrow> list_all (\<lambda>c. c = 0) (get_octets m)"

definition broadcast_address :: mac48 where
  "broadcast_address = Mac48 0xFF 0xFF 0xFF 0xFF 0xFF 0xFF"

definition is_broadcast :: "mac48 \<Rightarrow> bool" where
  "is_broadcast m \<longleftrightarrow> m = broadcast_address"

definition toogle_kth_bit :: "u32 \<Rightarrow> nat \<Rightarrow> u32" where
  "toogle_kth_bit n k = n XOR push_bit (k - 1) 1"

fun to_ipv6_link_local :: "mac48 \<Rightarrow> byte list" where
  "to_ipv6_link_local (Mac48 a b c d e f) =
     [0xFE, 0x80, 0, 0, 0, 0, 0, 0, ucast (toogle_kth_bit (ucast a) 2), b, c, 0xFF, 0xFE, d, e, f]"

text \<open>
  \<^verbatim>\<open>generate_random_mac48\<close>, with the six random octets as its argument: the private bit is set.
\<close>

definition private_mac :: "byte list \<Rightarrow> mac48" where
  "private_mac addr = mac48_of_list (addr[0 := addr ! 0 OR 0x2])"

datatype mac64 = Mac64 u16 u16 u16 u16

fun get_words :: "mac64 \<Rightarrow> u16 list" where
  "get_words (Mac64 a b c d) = [a, b, c, d]"

definition mac64_of_octets ::
  "endian \<Rightarrow> byte \<Rightarrow> byte \<Rightarrow> byte \<Rightarrow> byte \<Rightarrow> byte \<Rightarrow> byte \<Rightarrow> byte \<Rightarrow> byte \<Rightarrow> mac64" where
  "mac64_of_octets h o1 o2 o3 o4 o5 o6 o7 o8 =
     (let w = (\<lambda>x y. case h of
                 Big \<Rightarrow> push_bit 8 (ucast y) OR (ucast x AND 0xFF)
               | Little \<Rightarrow> push_bit 8 (ucast x) OR (ucast y AND 0xFF))
      in Mac64 (w o1 o2) (w o3 o4) (w o5 o6) (w o7 o8))"

definition mac64_of_list :: "endian \<Rightarrow> byte list \<Rightarrow> mac64" where
  "mac64_of_list h d =
     mac64_of_octets h (d ! 0) (d ! 1) (d ! 2) (d ! 3) (d ! 4) (d ! 5) (d ! 6) (d ! 7)"

definition mac64_of_uuid :: "endian \<Rightarrow> byte list \<Rightarrow> mac64" where
  "mac64_of_uuid h tag =
     mac64_of_octets h (tag ! 8) (tag ! 9) (tag ! 10) (tag ! 11) (tag ! 12) (tag ! 13) (tag ! 14)
       (tag ! 15)"

section \<open>Versions: version.h\<close>

text \<open>
  \<^verbatim>\<open>details::part\<close> is a union of one integer and its two halves: the first half in memory is the
  \<open>major\<close> part, so its place in the whole depends on the host.
\<close>

datatype version = Version (version_full: u32)

definition part16 :: "endian \<Rightarrow> u16 \<Rightarrow> u16 \<Rightarrow> u32" where
  "part16 h maj mnr = mem_word h (mem_bytes h maj @ mem_bytes h mnr)"

definition make_version :: "endian \<Rightarrow> u16 \<Rightarrow> u16 \<Rightarrow> version" where
  "make_version h maj mnr = Version (part16 h maj mnr)"

definition version_major :: "endian \<Rightarrow> version \<Rightarrow> u16" where
  "version_major h v = mem_word h (take 2 (mem_bytes h (version_full v)))"

definition version_minor :: "endian \<Rightarrow> version \<Rightarrow> u16" where
  "version_minor h v = mem_word h (drop 2 (mem_bytes h (version_full v)))"

datatype revision = Revision (revision_full: u64)

definition part32 :: "endian \<Rightarrow> u32 \<Rightarrow> u32 \<Rightarrow> u64" where
  "part32 h maj mnr = mem_word h (mem_bytes h maj @ mem_bytes h mnr)"

definition make_revision :: "endian \<Rightarrow> u32 \<Rightarrow> u32 \<Rightarrow> revision" where
  "make_revision h maj mnr = Revision (part32 h maj mnr)"

definition make_revision4 :: "endian \<Rightarrow> u16 \<Rightarrow> u16 \<Rightarrow> u16 \<Rightarrow> u16 \<Rightarrow> revision" where
  "make_revision4 h a b c d =
     make_revision h (version_full (make_version h a b)) (version_full (make_version h c d))"

definition revision_major :: "endian \<Rightarrow> revision \<Rightarrow> u32" where
  "revision_major h v = mem_word h (take 4 (mem_bytes h (revision_full v)))"

definition revision_minor :: "endian \<Rightarrow> revision \<Rightarrow> u32" where
  "revision_minor h v = mem_word h (drop 4 (mem_bytes h (revision_full v)))"

section \<open>Colors: color.hpp\<close>

datatype 'c color = Color (red: 'c) (green: 'c) (blue: 'c) (opacity: 'c)

text \<open>\<^verbatim>\<open>red() == green() == blue()\<close> compares a truth value with a channel.\<close>

definition colored :: "'a::len word color \<Rightarrow> bool" where
  "colored c \<longleftrightarrow> (if red c = green c then 1 else 0) = blue c"

section \<open>Unparsed values: raw.h, raw.cpp\<close>

datatype raw = Raw (raw_literal: "byte list") (raw_code: u16)

definition raw_eq :: "raw \<Rightarrow> raw \<Rightarrow> bool" where
  "raw_eq lhs rhs = (if raw_code lhs = raw_code rhs then raw_literal lhs = raw_literal rhs else False)"

text \<open>
  \<^verbatim>\<open>char\<close> is signed, and \<^verbatim>\<open>lexicographical_compare\<close> of Boost compares with \<^verbatim>\<open>char\<close>'s \<^verbatim>\<open>operator<\<close>.
\<close>

definition raw_lt :: "raw \<Rightarrow> raw \<Rightarrow> bool" where
  "raw_lt lhs rhs =
     (if raw_code lhs < raw_code rhs then lex_lt (\<lambda>x y. x <s y) (raw_literal lhs) (raw_literal rhs) else False)"

section \<open>Lemmas\<close>

lemma op_of_code_op_code [simp]: "op_of_code (op_code c) = Some c"
  by (cases c) (simp_all add: op_of_code_def all_ops_def)

lemma op_code_inject [simp]: "op_code c = op_code d \<longleftrightarrow> c = d"
  by (metis op_of_code_op_code option.inject)

lemma all_ops_complete: "c \<in> set all_ops"
  by (cases c) (simp_all add: all_ops_def)

lemma obis_of_data_obis_data [simp]: "obis_of_data (obis_data c) = c"
  by (cases c) (simp add: obis_data_def obis_of_data_def)

lemma length_obis_data [simp]: "length (obis_data c) = 6"
  by (simp add: obis_data_def)

lemma obis_data_obis_of_data: "length d = 6 \<Longrightarrow> obis_data (obis_of_data d) = d"
  by (auto simp: obis_data_def obis_of_data_def length_Suc_conv numeral_eq_Suc)

interpretation obis_codec: fixed_codec obis_data obis_of_data 6
  by unfold_locales simp_all

lemma length_edis_data [simp]: "length (edis_data e) = 3"
  by (simp add: edis_data_def)

lemma length_get_octets [simp]: "length (get_octets m) = 6"
  by (cases m) simp

lemma mac48_of_list_get_octets [simp]: "mac48_of_list (get_octets m) = m"
  by (cases m) (simp add: mac48_of_list_def)

interpretation mac48_codec: fixed_codec get_octets mac48_of_list 6
  by unfold_locales simp_all

lemma le_word_inject:
  "length xs = length ys \<Longrightarrow> 8 * length xs \<le> LENGTH('a::len) \<Longrightarrow>
   (le_word xs :: 'a word) = le_word ys \<longleftrightarrow> xs = ys"
  by (metis le_bytes_le_word)

lemma obis_number: "(mem_fill Little (rev (obis_data o6)) :: u64) = le_word (rev (obis_data o6))"
  using le_word_append_zeros [of "rev (obis_data o6)" 2, where 'a = 64]
  by (simp add: mem_fill_def mem_word_def)

lemma obis_number_less:
  "(le_word (rev (obis_data o6)) :: u64) < 0xFFFFFFFFFFFF \<longleftrightarrow>
   o6 \<noteq> Obis 0xFF 0xFF 0xFF 0xFF 0xFF 0xFF"
proof -
  let ?w = "le_word (rev (obis_data o6)) :: u64"
  have all: "le_word (rev (obis_data (Obis 0xFF 0xFF 0xFF 0xFF 0xFF 0xFF))) = (0xFFFFFFFFFFFF :: u64)"
    by code_simp
  have "unat ?w < 256 ^ 6"
    using le_number_bound [of "rev (obis_data o6)"] by (simp add: unat_le_word)
  then have "?w \<le> 0xFFFFFFFFFFFF" by (simp add: word_le_nat_alt)
  moreover have "?w = 0xFFFFFFFFFFFF \<longleftrightarrow> o6 = Obis 0xFF 0xFF 0xFF 0xFF 0xFF 0xFF"
    unfolding all [symmetric] by (subst le_word_inject) (simp_all add: obis_codec.enc_inject)
  ultimately show ?thesis by (auto simp: order.strict_iff_order)
qed

lemma to_array8_eq [simp]: "to_array8 h w = be_bytes w"
  by (cases h) (simp_all add: to_array8_def mem_bytes_def be_bytes_def)

lemma make_obis_u64_number: "make_obis_u64 Little (le_word (rev (obis_data o6))) = o6"
proof -
  let ?d = "obis_data o6"
  have "le_word (rev ?d) = (le_word (rev ([0, 0] @ ?d)) :: u64)"
    using le_word_append_zeros [of "rev ?d" 2, where 'a = 64]
    by (simp del: le_word.simps add: numeral_2_eq_2)
  then have "be_bytes (le_word (rev ?d) :: u64) = [0, 0] @ ?d"
    by (simp only: be_bytes_def) (simp add: le_bytes_le_word)
  then show ?thesis
    by (simp add: make_obis_u64_def Let_def) (simp add: obis_data_def)
qed

lemma six: "(6 :: nat) = Suc (Suc (Suc (Suc (Suc (Suc 0)))))"
  by simp

lemma depth_Obis: "depth (Obis a b c d e f) =
   (if f \<noteq> 0xFF then 0 else if e \<noteq> 0xFF then 1 else if d \<noteq> 0xFF then 2 else if c \<noteq> 0xFF then 3
    else if b \<noteq> 0xFF then 4 else if a \<noteq> 0xFF then 5 else 6)"
  by (simp add: depth_def obis_data_def)

lemma descend_from_6: "descend_from 6 [a, b, c, d, e, f] =
   (if e \<noteq> 0xFF then Some [a, b, c, d, e, 1] else if d \<noteq> 0xFF then Some [a, b, c, d, 1, f]
    else if c \<noteq> 0xFF then Some [a, b, c, 1, e, f] else if b \<noteq> 0xFF then Some [a, b, 1, d, e, f]
    else if a \<noteq> 0xFF then Some [a, 1, c, d, e, f] else None)"
  unfolding six by (simp only: descend_from.simps) simp

lemma descend_Obis: "descend (Obis a b c d e f) =
   (if e \<noteq> 0xFF then Obis a b c d e 1 else if d \<noteq> 0xFF then Obis a b c d 1 f
    else if c \<noteq> 0xFF then Obis a b c 1 e f else if b \<noteq> 0xFF then Obis a b 1 d e f
    else if a \<noteq> 0xFF then Obis a 1 c d e f else Obis a b c d e f)"
  by (simp add: descend_def obis_data_def obis_of_data_def descend_from_6)

lemma next_from_6: "next_from 6 [a, b, c, d, e, f] =
   (if e \<noteq> 0xFF then Some [a, b, c, d, e + 1, f] else if d \<noteq> 0xFF then Some [a, b, c, d + 1, e, f]
    else if c \<noteq> 0xFF then Some [a, b, c + 1, d, e, f] else if b \<noteq> 0xFF then Some [a, b + 1, c, d, e, f]
    else if a \<noteq> 0xFF then Some [a + 1, b, c, d, e, f] else None)"
  unfolding six by (simp only: next_from.simps) simp

lemma next_Obis: "next_obis (Obis a b c d e f) =
   (if e \<noteq> 0xFF then Obis a b c d (e + 1) f else if d \<noteq> 0xFF then Obis a b c (d + 1) e f
    else if c \<noteq> 0xFF then Obis a b (c + 1) d e f else if b \<noteq> 0xFF then Obis a (b + 1) c d e f
    else if a \<noteq> 0xFF then Obis (a + 1) b c d e f else Obis a b c d e f)"
  by (simp add: next_obis_def obis_data_def obis_of_data_def next_from_6)

lemma mem_bytes_mem_word:
  assumes "8 * length bs = LENGTH('a::len)"
  shows "mem_bytes h (mem_word h bs :: 'a word) = bs"
proof -
  have n: "LENGTH('a) div 8 = length bs" using assms by simp
  show ?thesis
    using assms by (cases h) (simp_all add: mem_bytes_def mem_word_def n le_bytes_le_word)
qed

lemma mem_word_mem_bytes:
  assumes "8 * (LENGTH('a::len) div 8) = LENGTH('a)"
  shows "mem_word h (mem_bytes h w) = (w :: 'a word)"
  using assms by (cases h) (simp_all add: mem_bytes_def mem_word_def le_word_le_bytes)

lemma version_parts [simp]:
  "version_major h (make_version h maj mnr) = maj"
  "version_minor h (make_version h maj mnr) = mnr"
  "revision_major h (make_revision h maj' mnr') = maj'"
  "revision_minor h (make_revision h maj' mnr') = mnr'"
  by (simp_all add: version_major_def version_minor_def make_version_def part16_def
      revision_major_def revision_minor_def make_revision_def part32_def
      mem_bytes_mem_word mem_word_mem_bytes)

section \<open>Properties\<close>

text \<open>Op names: whatever name \<^verbatim>\<open>operator<<\<close> prints for an op code, \<^verbatim>\<open>to_op\<close> reads back as that op
  code, except for \<open>MAKE_PROP\<close> and \<open>MAKE_PROP_MAP\<close>, which are missing from the table of
  \<^verbatim>\<open>parse/op.cpp\<close> and are read as \<open>NOOP\<close>.\<close>

theorem to_op_op_name:
  assumes "op_name c = Some n"
  shows "to_op n = (if c = MAKE_PROP \<or> c = MAKE_PROP_MAP then NOOP else c)"
proof -
  have "list_all (\<lambda>c. case op_name c of None \<Rightarrow> True
      | Some n \<Rightarrow> to_op n = (if c = MAKE_PROP \<or> c = MAKE_PROP_MAP then NOOP else c)) all_ops"
    by code_simp
  with all_ops_complete [of c] assms show ?thesis by (auto simp: list_all_iff)
qed

theorem to_op_op_name_witness:
  "to_op ''INVOKE_R'' = INVOKE_R \<and> to_op ''MAKE_PROP_MAP'' = NOOP"
  using to_op_op_name [of INVOKE_R "''INVOKE_R''"]
    to_op_op_name [of MAKE_PROP_MAP "''MAKE_PROP_MAP''"] by simp

text \<open>OBIS codes as numbers, little-endian host: \<^verbatim>\<open>to_uint64\<close> fails exactly for the code of six
  octets \<open>FF\<close> in a build with assertions, \<^verbatim>\<open>make_obis\<close> inverts it, and the order of the codes is the
  order of the numbers.\<close>

theorem obis_number_roundtrip:
  "(\<exists>r. to_uint64 b Little o6 =
      (if b = Debug \<and> o6 = Obis 0xFF 0xFF 0xFF 0xFF 0xFF 0xFF then Inl Assertion else Inr r) \<and>
    make_obis_u64 Little r = o6) \<and>
   (o6 < p6 \<longleftrightarrow> (\<exists>r s. to_uint64 Release Little o6 = Inr r \<and> to_uint64 Release Little p6 = Inr s \<and> r < s))"
proof -
  have u: "to_uint64 b Little c =
      (if b = Debug \<and> c = Obis 0xFF 0xFF 0xFF 0xFF 0xFF 0xFF then Inl Assertion
       else Inr (le_word (rev (obis_data c))))" for b c
    using obis_number_less [of c]
    by (cases b) (auto simp: to_uint64_def Let_def obis_number)
  have "o6 < p6 \<longleftrightarrow> (le_word (rev (obis_data o6)) :: u64) < le_word (rev (obis_data p6))"
    by (subst le_word_rev_less) (simp_all add: less_obis_def obis_lt_def lex_lt_less)
  with u make_obis_u64_number show ?thesis by auto
qed

text \<open>OBIS lists: for a code of depth 1 to 5 \<^verbatim>\<open>descend\<close> goes to the first entry below (one group less
  is open, and it is 1), and \<^verbatim>\<open>next\<close> advances the last fixed group and, unless that wraps to \<open>FF\<close>,
  keeps the depth.\<close>

theorem obis_descend_next:
  assumes "0 < depth o6" and "depth o6 < 6"
  shows "depth (descend o6) = depth o6 - 1 \<and>
    obis_data (descend o6) = (obis_data o6)[6 - depth o6 := 1] \<and>
    obis_data (next_obis o6) = (obis_data o6)[5 - depth o6 := obis_data o6 ! (5 - depth o6) + 1] \<and>
    (obis_data o6 ! (5 - depth o6) \<noteq> 0xFE \<longrightarrow> depth (next_obis o6) = depth o6)"
proof -
  obtain a b c d e f where o6: "o6 = Obis a b c d e f" by (cases o6)
  have f: "f = 0xFF" using assms(1) by (simp add: o6 depth_Obis split: if_splits)
  have "depth o6 \<in> {1, 2, 3, 4, 5}" using assms by auto
  then show ?thesis
    by (auto simp: o6 f depth_Obis descend_Obis next_Obis obis_data_def split: if_splits)
qed

theorem obis_descend_next_witness:
  "descend (Obis 0x81 0x81 0x11 0x06 0x01 0xFF) = Obis 0x81 0x81 0x11 0x06 0x01 0x01 \<and>
   depth (next_obis (Obis 0x81 0x81 0x11 0x06 0x01 0xFF)) = 1"
  using obis_descend_next [of "Obis 0x81 0x81 0x11 0x06 0x01 0xFF"]
  by (simp add: depth_Obis descend_Obis next_Obis)

text \<open>The documentation of \<^verbatim>\<open>descend\<close> and \<^verbatim>\<open>next\<close> leaves a code of depth 0 unchanged; the code does
  not: \<^verbatim>\<open>descend\<close> sets its storage group to 1 and \<^verbatim>\<open>next\<close> advances its quantity group.\<close>

theorem obis_depth_0:
  assumes "depth o6 = 0" and "quantity o6 \<noteq> 0xFF"
  shows "descend o6 = make_obis_storage o6 1 \<and>
    next_obis o6 = Obis (medium o6) (channel o6) (indicator o6) (mode o6) (quantity o6 + 1) (storage o6)"
  using assms by (cases o6) (simp add: descend_Obis next_Obis make_obis_storage_def)

theorem obis_depth_0_witness:
  "next_obis (Obis 0x81 0x81 0x11 0x06 0x01 0x02) = Obis 0x81 0x81 0x11 0x06 0x02 0x02"
  using obis_depth_0 [of "Obis 0x81 0x81 0x11 0x06 0x01 0x02"] by (simp add: depth_Obis)

text \<open>Versions: on either host the four numbers of a revision are read back from its halves.\<close>

theorem revision_parts:
  "version_major h (Version (revision_major h (make_revision4 h a b c d))) = a \<and>
   version_minor h (Version (revision_major h (make_revision4 h a b c d))) = b \<and>
   version_major h (Version (revision_minor h (make_revision4 h a b c d))) = c \<and>
   version_minor h (Version (revision_minor h (make_revision4 h a b c d))) = d"
  by (simp add: make_revision4_def)

text \<open>\<^verbatim>\<open>operator<\<close> of raw values is no strict weak order: two values of the same type code are never
  ordered, whatever their literals, although \<^verbatim>\<open>operator==\<close> tells them apart.\<close>

theorem raw_lt_same_code:
  "\<not> raw_lt (Raw l c) (Raw m c) \<and> (raw_eq (Raw l c) (Raw m c) \<longleftrightarrow> l = m)"
  by (simp add: raw_lt_def raw_eq_def)

end
