(* ===== verification/Maps.thy ===== *)
theory Maps
  imports Prelude
begin

text \<open>
  \<^verbatim>\<open>std::map\<close> as the list of its pairs in key order, with the operations the library uses: \<^verbatim>\<open>emplace\<close> and
  \<^verbatim>\<open>insert\<close> (an existing entry stays), assignment through \<^verbatim>\<open>operator[]\<close> (it is replaced), \<^verbatim>\<open>find\<close> and
  \<^verbatim>\<open>erase\<close>.  The locale is the interface its clients rely on.
\<close>

type_synonym ('k, 'v) std_map = "('k \<times> 'v) list"

fun map_emplace :: "'k::linorder \<Rightarrow> 'v \<Rightarrow> ('k, 'v) std_map \<Rightarrow> ('k, 'v) std_map" where
  "map_emplace k v [] = [(k, v)]"
| "map_emplace k v ((k', v') # m) =
     (if k < k' then (k, v) # (k', v') # m
      else if k = k' then (k', v') # m
      else (k', v') # map_emplace k v m)"

fun map_assign :: "'k::linorder \<Rightarrow> 'v \<Rightarrow> ('k, 'v) std_map \<Rightarrow> ('k, 'v) std_map" where
  "map_assign k v [] = [(k, v)]"
| "map_assign k v ((k', v') # m) =
     (if k < k' then (k, v) # (k', v') # m
      else if k = k' then (k', v) # m
      else (k', v') # map_assign k v m)"

fun map_find :: "'k \<Rightarrow> ('k, 'v) std_map \<Rightarrow> 'v option" where
  "map_find k [] = None"
| "map_find k ((k', v') # m) = (if k = k' then Some v' else map_find k m)"

definition map_erase :: "'k \<Rightarrow> ('k, 'v) std_map \<Rightarrow> ('k, 'v) std_map" where
  "map_erase k m = filter (\<lambda>p. fst p \<noteq> k) m"

definition sorted_keys :: "('k::linorder, 'v) std_map \<Rightarrow> bool" where
  "sorted_keys m \<longleftrightarrow> sorted_wrt (<) (map fst m)"

text \<open>The interface: a representation with an invariant, and what each operation does to \<open>find\<close>.\<close>

locale ordered_map =
  fixes empty :: 'm
    and find :: "'k \<Rightarrow> 'm \<Rightarrow> 'v option"
    and emplace :: "'k \<Rightarrow> 'v \<Rightarrow> 'm \<Rightarrow> 'm"
    and assign :: "'k \<Rightarrow> 'v \<Rightarrow> 'm \<Rightarrow> 'm"
    and erase :: "'k \<Rightarrow> 'm \<Rightarrow> 'm"
    and invar :: "'m \<Rightarrow> bool"
  assumes invar_empty: "invar empty"
    and invar_emplace: "invar m \<Longrightarrow> invar (emplace k v m)"
    and invar_assign: "invar m \<Longrightarrow> invar (assign k v m)"
    and invar_erase: "invar m \<Longrightarrow> invar (erase k m)"
    and find_empty: "find k empty = None"
    and find_emplace: "invar m \<Longrightarrow>
      find k' (emplace k v m) = (if k' = k \<and> find k m = None then Some v else find k' m)"
    and find_assign: "invar m \<Longrightarrow> find k' (assign k v m) = (if k' = k then Some v else find k' m)"
    and find_erase: "invar m \<Longrightarrow> find k' (erase k m) = (if k' = k then None else find k' m)"
    and extensional: "invar m \<Longrightarrow> invar m' \<Longrightarrow> (\<And>k. find k m = find k m') \<Longrightarrow> m = m'"
begin

definition emplace_all :: "('k \<times> 'v) list \<Rightarrow> 'm \<Rightarrow> 'm" where
  "emplace_all ps m = fold (\<lambda>(k, v). emplace k v) ps m"

lemma invar_emplace_all: "invar m \<Longrightarrow> invar (emplace_all ps m)"
  unfolding emplace_all_def
  by (induction ps arbitrary: m) (auto simp: invar_emplace)

lemma find_emplace_all:
  "invar m \<Longrightarrow> find k (emplace_all ps m) =
     (case find k m of Some v \<Rightarrow> Some v | None \<Rightarrow> map_of ps k)"
  unfolding emplace_all_def
proof (induction ps arbitrary: m)
  case Nil
  then show ?case by (simp split: option.split)
next
  case (Cons p ps)
  then show ?case
    by (cases p) (auto simp: invar_emplace find_emplace split: option.splits)
qed

text \<open>The first of two pairs with the same key stays; pairs with different keys may be exchanged.\<close>

lemma emplace_all_perm:
  assumes "distinct (map fst ps)" and "set ps = set qs" and "distinct (map fst qs)"
  shows "emplace_all ps empty = emplace_all qs empty"
proof (rule extensional)
  fix k
  have "map_of ps k = map_of qs k"
    using assms by (metis map_of_inject_set)
  then show "find k (emplace_all ps empty) = find k (emplace_all qs empty)"
    by (simp add: find_emplace_all invar_empty find_empty)
qed (simp_all add: invar_emplace_all invar_empty)

lemma erase_emplace_new: "invar m \<Longrightarrow> find k m = None \<Longrightarrow> erase k (emplace k v m) = m"
  by (rule extensional) (auto simp: invar_emplace invar_erase find_emplace find_erase)

lemma assign_assign: "invar m \<Longrightarrow> assign k v (assign k w m) = assign k v m"
  by (rule extensional) (auto simp: invar_assign find_assign)

lemma emplace_present: "invar m \<Longrightarrow> find k m \<noteq> None \<Longrightarrow> emplace k v m = m"
  by (rule extensional) (auto simp: invar_emplace find_emplace)

end

lemma sorted_keys_simps [simp]:
  "sorted_keys []"
  "sorted_keys ((k, v) # m) \<longleftrightarrow> (\<forall>x \<in> set m. k < fst x) \<and> sorted_keys m"
  by (auto simp: sorted_keys_def)

lemma set_map_emplace: "set (map_emplace k v m) \<subseteq> insert (k, v) (set m)"
  by (induction k v m rule: map_emplace.induct) auto

lemma set_map_assign: "set (map_assign k v m) \<subseteq> insert (k, v) (set m)"
  by (induction k v m rule: map_assign.induct) auto

lemma map_find_above: "\<forall>x \<in> set m. k < fst x \<Longrightarrow> map_find (k :: 'k::linorder) m = None"
  by (induction m) auto

lemma map_find_map_of: "map_find k m = map_of m k"
  by (induction m) auto

lemma map_find_in_set: "map_find k m = Some v \<Longrightarrow> (k, v) \<in> set m"
  by (simp add: map_find_map_of map_of_SomeD)

lemma sorted_keys_emplace: "sorted_keys m \<Longrightarrow> sorted_keys (map_emplace k v m)"
proof (induction k v m rule: map_emplace.induct)
  case (2 k v k' v' m)
  then show ?case using set_map_emplace [of k v m] by fastforce
qed simp

lemma sorted_keys_assign: "sorted_keys m \<Longrightarrow> sorted_keys (map_assign k v m)"
proof (induction k v m rule: map_assign.induct)
  case (2 k v k' v' m)
  then show ?case using set_map_assign [of k v m] by fastforce
qed simp

lemma sorted_keys_erase: "sorted_keys m \<Longrightarrow> sorted_keys (map_erase k m)"
  by (induction m) (auto simp: map_erase_def)

lemma map_find_emplace: "sorted_keys m \<Longrightarrow>
  map_find k' (map_emplace k v m) = (if k' = k \<and> map_find k m = None then Some v else map_find k' m)"
proof (induction k v m rule: map_emplace.induct)
  case (2 k v k0 v0 m)
  have "k \<le> k0 \<Longrightarrow> k' < k0 \<Longrightarrow> map_find k' m = None" for k'
    using 2 map_find_above [of m k'] by fastforce
  with 2 show ?case by auto
qed simp

lemma map_find_assign: "sorted_keys m \<Longrightarrow>
  map_find k' (map_assign k v m) = (if k' = k then Some v else map_find k' m)"
  by (induction k v m rule: map_assign.induct) auto

lemma map_find_erase: "map_find k' (map_erase k m) = (if k' = k then None else map_find k' m)"
  by (induction m) (auto simp: map_erase_def)

lemma map_rebuild: "distinct (map fst m) \<Longrightarrow> map (\<lambda>k. (k, the (map_of m k))) (map fst m) = m"
  by (simp only: map_map comp_def, rule map_idI) (auto simp: map_of_is_SomeI)

lemma sorted_keys_extensional:
  assumes "sorted_keys m" and "sorted_keys m'" and "\<And>k. map_find k m = map_find k m'"
  shows "m = m'"
proof -
  have e: "map_of m = map_of m'" using assms(3) by (auto simp: map_find_map_of)
  then have "set (map fst m) = set (map fst m')"
    by (metis dom_map_of_conv_image_fst list.set_map)
  then have k: "map fst m = map fst m'"
    using assms(1,2) unfolding sorted_keys_def by (metis strict_sorted_equal)
  from assms(1,2) have "distinct (map fst m)" "distinct (map fst m')"
    unfolding sorted_keys_def by (simp_all add: strict_sorted_iff)
  with map_rebuild [of m] map_rebuild [of m'] e k show ?thesis by metis
qed

interpretation std: ordered_map "[] :: ('k::linorder, 'v) std_map" map_find map_emplace map_assign
  map_erase sorted_keys
  by unfold_locales
    (auto simp: sorted_keys_emplace sorted_keys_assign sorted_keys_erase map_find_emplace
      map_find_assign map_find_erase intro: sorted_keys_extensional)

text \<open>Emplacing the pairs of a map in any order, in particular backwards, builds the map again.\<close>

lemma emplace_all_sorted: "sorted_keys m \<Longrightarrow> std.emplace_all m [] = m"
  by (rule sorted_keys_extensional)
    (simp_all add: std.invar_emplace_all std.find_emplace_all, simp add: map_find_map_of)

lemma emplace_all_rev: "sorted_keys m \<Longrightarrow> std.emplace_all (rev m) [] = m"
proof -
  assume m: "sorted_keys m"
  then have "distinct (map fst m)" unfolding sorted_keys_def by (simp add: strict_sorted_iff)
  then have "std.emplace_all (rev m) [] = std.emplace_all m []"
    by (intro std.emplace_all_perm) (simp_all add: rev_map [symmetric])
  with m show ?thesis by (simp add: emplace_all_sorted)
qed

end
