(* ===== verification/Object.thy ===== *)
theory Object
  imports Intrinsics Maps
begin

text \<open>
  The value model: \<^verbatim>\<open>class object\<close> with the type list of \<^verbatim>\<open>include/cyng/obj/tag.hpp\<close>, and the generic
  operations on objects, \<^verbatim>\<open>find\<close>, \<^verbatim>\<open>size\<close>, \<^verbatim>\<open>merge\<close>, \<^verbatim>\<open>numeric_cast\<close> and the container casts.

  An object owns its value (a \<^verbatim>\<open>unique_ptr\<close>, cloned on copy), so a value is what there is to model.  The
  types follow the order of \<^verbatim>\<open>traits::tag_t\<close>; where several types share one representation (the 64-bit
  time types, the octet arrays of fixed size, the endpoints) one constructor takes the type as an
  argument.  \<^verbatim>\<open>std::map\<close> is the list of its pairs in key order.  A float is its bits; an address of
  Boost.Asio is its text.  \<^verbatim>\<open>make_object\<close> never nests an object in an object, so \<^verbatim>\<open>TC_OBJECT\<close> tags no
  value; custom (extrinsic) types are outside the model.
\<close>

datatype chrono = TimePoint | NanoSecond | MicroSecond | MilliSecond | Second | Minute | Hour

datatype octets = Md5 | Sha1 | Sha256 | Sha512 | Aes128 | Aes192 | Aes256 | Uuid

datatype endpoint = Tcp | Udp | Icmp

datatype object =
    ONull | OBool bool | OChar byte | OFloat u32 | ODouble u64 | OFloat80 "128 word"
  | OU8 byte | OU16 u16 | OU32 u32 | OU64 u64 | OI8 byte | OI16 u16 | OI32 u32 | OI64 u64
  | OString "byte list" | OPath "byte list" | OChrono chrono u64 | OBuffer "byte list"
  | OVersion version | ORevision revision | OOp u16 | OSeverity byte | OMac48 mac48 | OMac64 mac64
  | OPid u32 | OObis obis | OObisPath obis_path | OEdis edis | OColor8 "byte color"
  | OColor16 "u16 color" | OOctets octets "byte list" | ORaw raw
  | OTuple "object list" | OVector "object list" | ODeque "object list"
  | OAttrMap "(u64 \<times> object) list" | OAttr u64 object
  | OParamMap "(byte list \<times> object) list" | OParam "byte list" object
  | OPropMap "(obis \<times> object) list" | OProp obis object
  | OPrg "byte list list" | OEc u32 "byte list" | OIpAddress "byte list"
  | OEndpoint endpoint u16 "byte list" | OEod

section \<open>Type codes: tag.hpp, tag.cpp\<close>

primrec chrono_tag :: "chrono \<Rightarrow> u16" where
  "chrono_tag TimePoint = 16"
| "chrono_tag NanoSecond = 17"
| "chrono_tag MicroSecond = 18"
| "chrono_tag MilliSecond = 19"
| "chrono_tag Second = 20"
| "chrono_tag Minute = 21"
| "chrono_tag Hour = 22"

primrec octets_tag :: "octets \<Rightarrow> u16" where
  "octets_tag Md5 = 36"
| "octets_tag Sha1 = 37"
| "octets_tag Sha256 = 38"
| "octets_tag Sha512 = 39"
| "octets_tag Aes128 = 40"
| "octets_tag Aes192 = 41"
| "octets_tag Aes256 = 42"
| "octets_tag Uuid = 56"

primrec octets_size :: "octets \<Rightarrow> nat" where
  "octets_size Md5 = 16"
| "octets_size Sha1 = 20"
| "octets_size Sha256 = 32"
| "octets_size Sha512 = 64"
| "octets_size Aes128 = 16"
| "octets_size Aes192 = 24"
| "octets_size Aes256 = 32"
| "octets_size Uuid = 16"

primrec endpoint_tag :: "endpoint \<Rightarrow> u16" where
  "endpoint_tag Tcp = 58"
| "endpoint_tag Udp = 59"
| "endpoint_tag Icmp = 60"

primrec type_tag :: "object \<Rightarrow> u16" where
  "type_tag ONull = 0"
| "type_tag (OBool v) = 1"
| "type_tag (OChar v) = 2"
| "type_tag (OFloat v) = 3"
| "type_tag (ODouble v) = 4"
| "type_tag (OFloat80 v) = 5"
| "type_tag (OU8 v) = 6"
| "type_tag (OU16 v) = 7"
| "type_tag (OU32 v) = 8"
| "type_tag (OU64 v) = 9"
| "type_tag (OI8 v) = 10"
| "type_tag (OI16 v) = 11"
| "type_tag (OI32 v) = 12"
| "type_tag (OI64 v) = 13"
| "type_tag (OString v) = 14"
| "type_tag (OPath v) = 15"
| "type_tag (OChrono t v) = chrono_tag t"
| "type_tag (OBuffer v) = 23"
| "type_tag (OVersion v) = 24"
| "type_tag (ORevision v) = 25"
| "type_tag (OOp v) = 26"
| "type_tag (OSeverity v) = 27"
| "type_tag (OMac48 v) = 28"
| "type_tag (OMac64 v) = 29"
| "type_tag (OPid v) = 30"
| "type_tag (OObis v) = 31"
| "type_tag (OObisPath v) = 32"
| "type_tag (OEdis v) = 33"
| "type_tag (OColor8 v) = 34"
| "type_tag (OColor16 v) = 35"
| "type_tag (OOctets t v) = octets_tag t"
| "type_tag (ORaw v) = 44"
| "type_tag (OTuple v) = 45"
| "type_tag (OVector v) = 46"
| "type_tag (ODeque v) = 47"
| "type_tag (OAttrMap v) = 48"
| "type_tag (OAttr k v) = 49"
| "type_tag (OParamMap v) = 50"
| "type_tag (OParam k v) = 51"
| "type_tag (OPropMap v) = 52"
| "type_tag (OProp k v) = 53"
| "type_tag (OPrg v) = 54"
| "type_tag (OEc v c) = 55"
| "type_tag (OIpAddress v) = 57"
| "type_tag (OEndpoint t p v) = endpoint_tag t"
| "type_tag OEod = 61"

definition TC_EOD :: nat where "TC_EOD = 61"
definition TC_EXTRINSIC :: nat where "TC_EXTRINSIC = TC_EOD + 1"

definition names :: "string list" where
  "names = [''null'', ''bool'', ''char'', ''f'', ''d'', ''ld'',
    ''u8'', ''u16'', ''u32'', ''u64'', ''i8'', ''i16'', ''i32'', ''i64'', ''s'', ''fs:path'',
    ''chrono:tp'', ''chrono:ns'', ''chrono:us'', ''chrono:ms'', ''chrono:sec'', ''chrono:min'', ''chrono:h'',
    ''binary'', ''v'', ''r'', ''op'', ''severity'', ''mac48'', ''mac64'', ''pid'', ''obis'', ''obis:path'', ''edis'',
    ''color:8'', ''color:16'', ''crypto:MD5'', ''crypto:SHA1'', ''crypto:SHA256'', ''crypto:SHA512'',
    ''crypto::AES128'', ''crypto::AES192'', ''crypto::AES256'', ''obj'', ''raw'', ''tpl'', ''vec'', ''deque'',
    ''amap'', ''attr'', ''pmap'', ''param'', ''omap'', ''prop'', ''prg'', ''ec'', ''uuid'', ''ip:address'',
    ''ip:tcp:ep'', ''ip:udp:ep'', ''ip:icmp:ep'', ''eod'']"

text \<open>\<^verbatim>\<open>std::find_if\<close> over the table, as an index.\<close>

fun index_of :: "'a \<Rightarrow> 'a list \<Rightarrow> nat option" where
  "index_of x [] = None"
| "index_of x (y # ys) = (if x = y then Some 0 else map_option Suc (index_of x ys))"

definition type_code_exists :: "string \<Rightarrow> bool" where
  "type_code_exists name \<longleftrightarrow> index_of name names \<noteq> None"

definition type_code_by_name :: "string \<Rightarrow> nat" where
  "type_code_by_name name = (case index_of name names of Some idx \<Rightarrow> idx | None \<Rightarrow> 0)"

definition intrinsic_name_by_type_code :: "nat \<Rightarrow> string" where
  "intrinsic_name_by_type_code tc = (if tc < TC_EOD then names ! tc else '''')"

definition is_container :: "u16 \<Rightarrow> bool" where
  "is_container tc \<longleftrightarrow> tc \<in> {45, 46, 47, 48, 49, 50, 51, 52, 53, 54}"

section \<open>Size: size.cpp\<close>

definition obj_size :: "object \<Rightarrow> nat" where
  "obj_size obj = (case obj of
      OTuple v \<Rightarrow> length v | OVector v \<Rightarrow> length v | ODeque v \<Rightarrow> length v
    | OAttrMap m \<Rightarrow> length m | OParamMap m \<Rightarrow> length m | OPropMap m \<Rightarrow> length m | _ \<Rightarrow> 1)"

section \<open>Lookup: find.cpp\<close>

text \<open>The overloads for tuples, vectors and deques have one body each; they share a model.\<close>

definition match_idx :: "u64 \<Rightarrow> object \<Rightarrow> bool" where
  "match_idx idx obj = (case obj of
      OAttr k v \<Rightarrow> k = idx | OU32 n \<Rightarrow> n = ucast idx | OU64 n \<Rightarrow> n = idx | _ \<Rightarrow> False)"

definition match_name :: "byte list \<Rightarrow> object \<Rightarrow> bool" where
  "match_name name obj = (case obj of
      OParam k v \<Rightarrow> k = name | OString s \<Rightarrow> s = name | _ \<Rightarrow> False)"

definition match_code :: "obis \<Rightarrow> object \<Rightarrow> bool" where
  "match_code code obj = (case obj of
      OProp k v \<Rightarrow> k = code | OObis c \<Rightarrow> c = code | _ \<Rightarrow> False)"

definition extract_value :: "object \<Rightarrow> object" where
  "extract_value obj = (case obj of OAttr k v \<Rightarrow> v | OParam k v \<Rightarrow> v | OProp k v \<Rightarrow> v | _ \<Rightarrow> obj)"

definition find_idx_seq :: "object list \<Rightarrow> u64 \<Rightarrow> object" where
  "find_idx_seq p idx = (case List.find (match_idx idx) p of
      Some obj \<Rightarrow> extract_value obj
    | None \<Rightarrow> if unat idx < length p then p ! unat idx else ONull)"

definition find_name_seq :: "object list \<Rightarrow> byte list \<Rightarrow> object" where
  "find_name_seq p name = (case List.find (match_name name) p of Some obj \<Rightarrow> extract_value obj | None \<Rightarrow> ONull)"

definition find_code_seq :: "object list \<Rightarrow> obis \<Rightarrow> object" where
  "find_code_seq p code = (case List.find (match_code code) p of Some obj \<Rightarrow> extract_value obj | None \<Rightarrow> ONull)"

definition find_in_map :: "('k \<times> object) list \<Rightarrow> 'k \<Rightarrow> object" where
  "find_in_map m k = (case map_find k m of Some obj \<Rightarrow> obj | None \<Rightarrow> ONull)"

definition find_idx :: "object \<Rightarrow> u64 \<Rightarrow> object" where
  "find_idx obj idx = (case obj of
      OTuple v \<Rightarrow> find_idx_seq v idx | OVector v \<Rightarrow> find_idx_seq v idx | ODeque v \<Rightarrow> find_idx_seq v idx
    | OAttrMap m \<Rightarrow> find_in_map m idx
    | OAttr k v \<Rightarrow> if k = idx then v else ONull
    | _ \<Rightarrow> obj)"

definition find_name :: "object \<Rightarrow> byte list \<Rightarrow> object" where
  "find_name obj name = (case obj of
      OTuple v \<Rightarrow> find_name_seq v name | OVector v \<Rightarrow> find_name_seq v name
    | ODeque v \<Rightarrow> find_name_seq v name
    | OParamMap m \<Rightarrow> find_in_map m name
    | OParam k v \<Rightarrow> if k = name then v else ONull
    | _ \<Rightarrow> obj)"

definition find_code :: "object \<Rightarrow> obis \<Rightarrow> object" where
  "find_code obj code = (case obj of
      OTuple v \<Rightarrow> find_code_seq v code | OVector v \<Rightarrow> find_code_seq v code
    | ODeque v \<Rightarrow> find_code_seq v code
    | OPropMap m \<Rightarrow> find_in_map m code
    | OProp k v \<Rightarrow> if k = code then v else ONull
    | _ \<Rightarrow> obj)"

text \<open>\<^verbatim>\<open>reader::operator[]\<close> chained over names (\<^verbatim>\<open>reader.hpp\<close>).\<close>

fun find_path :: "object \<Rightarrow> byte list list \<Rightarrow> object" where
  "find_path obj [] = obj"
| "find_path obj (k # ks) = find_path (find_name obj k) ks"

section \<open>Nested parameter maps: merge.cpp\<close>

fun merge :: "build \<Rightarrow> (byte list \<times> object) list \<Rightarrow> byte list list \<Rightarrow> object \<Rightarrow>
    (byte list \<times> object) list result" where
  "merge b pm [] val = Inr pm"
| "merge b pm [k] val = Inr (map_assign k val pm)"
| "merge b pm (k # k2 # ks) val =
     (case map_find k pm of
        Some (OParamMap inner) \<Rightarrow>
          rbind (merge b inner (k2 # ks) val) (\<lambda>inner'. Inr (map_assign k (OParamMap inner') pm))
      | Some _ \<Rightarrow> rbind (boost_assert b False) (\<lambda>_. Inr pm)
      | None \<Rightarrow>
          rbind (merge b [] (k2 # ks) val) (\<lambda>inner'. Inr (map_assign k (OParamMap inner') pm)))"

section \<open>Conversion: value_cast.hpp, container_cast.hpp, vector_cast.hpp\<close>

text \<open>\<^verbatim>\<open>object_cast<T>\<close> at the types the library asks for: a null pointer is \<open>None\<close>.\<close>

definition cast_u64 :: "object \<Rightarrow> u64 option" where
  "cast_u64 obj = (case obj of OU64 v \<Rightarrow> Some v | _ \<Rightarrow> None)"

definition cast_string :: "object \<Rightarrow> byte list option" where
  "cast_string obj = (case obj of OString v \<Rightarrow> Some v | _ \<Rightarrow> None)"

definition cast_obis :: "object \<Rightarrow> obis option" where
  "cast_obis obj = (case obj of OObis v \<Rightarrow> Some v | _ \<Rightarrow> None)"

definition cast_buffer :: "object \<Rightarrow> byte list option" where
  "cast_buffer obj = (case obj of OBuffer v \<Rightarrow> Some v | _ \<Rightarrow> None)"

definition cast_op :: "object \<Rightarrow> u16 option" where
  "cast_op obj = (case obj of OOp v \<Rightarrow> Some v | _ \<Rightarrow> None)"

definition cast_attr :: "object \<Rightarrow> (u64 \<times> object) option" where
  "cast_attr obj = (case obj of OAttr k v \<Rightarrow> Some (k, v) | _ \<Rightarrow> None)"

definition cast_param :: "object \<Rightarrow> (byte list \<times> object) option" where
  "cast_param obj = (case obj of OParam k v \<Rightarrow> Some (k, v) | _ \<Rightarrow> None)"

definition cast_prop :: "object \<Rightarrow> (obis \<times> object) option" where
  "cast_prop obj = (case obj of OProp k v \<Rightarrow> Some (k, v) | _ \<Rightarrow> None)"

text \<open>\<^verbatim>\<open>value_cast<T>(obj, def)\<close> and \<^verbatim>\<open>vector_cast<T>(obj, def)\<close> over an \<^verbatim>\<open>object_cast<T>\<close>.\<close>

definition value_cast :: "(object \<Rightarrow> 'a option) \<Rightarrow> object \<Rightarrow> 'a \<Rightarrow> 'a" where
  "value_cast cast obj def = (case cast obj of Some v \<Rightarrow> v | None \<Rightarrow> def)"

definition vector_cast :: "(object \<Rightarrow> 'a option) \<Rightarrow> object \<Rightarrow> 'a \<Rightarrow> 'a list" where
  "vector_cast cast obj def = (case obj of
      OVector v \<Rightarrow> map (\<lambda>x. value_cast cast x def) v
    | OTuple v \<Rightarrow> map (\<lambda>x. value_cast cast x def) v
    | ODeque v \<Rightarrow> map (\<lambda>x. value_cast cast x def) v
    | _ \<Rightarrow> [])"

text \<open>
  \<^verbatim>\<open>to_param_map(tuple_t)\<close>: the tuple's elements must be parameters (asserted); in a build without
  assertions one that is not becomes the default pair, an empty name with a null object.
\<close>

fun to_param_map_tuple :: "build \<Rightarrow> (byte list \<times> object) list \<Rightarrow> object list \<Rightarrow>
    (byte list \<times> object) list result" where
  "to_param_map_tuple b pmap [] = Inr pmap"
| "to_param_map_tuple b pmap (obj # tpl) =
     rbind (boost_assert b (type_tag obj = 51)) (\<lambda>_.
       let (k, v) = (case cast_param obj of Some p \<Rightarrow> p | None \<Rightarrow> ([], ONull)) in
       to_param_map_tuple b (map_emplace k v pmap) tpl)"

text \<open>
  \<^verbatim>\<open>numeric_cast<T>\<close> for an integral \<open>T\<close> other than \<^verbatim>\<open>bool\<close>, with the range \<open>lo\<close> to \<open>hi\<close>: what does not fit
  is the default.  The conversions of floating point numbers and of strings (a stream extraction) are
  parameters.
\<close>

definition numeric_cast ::
  "(object \<Rightarrow> int) \<Rightarrow> (byte list \<Rightarrow> int) \<Rightarrow> int \<Rightarrow> int \<Rightarrow> object \<Rightarrow> int \<Rightarrow> int" where
  "numeric_cast from_float from_string lo hi obj def =
     (let boost_cast = (\<lambda>n. if lo \<le> n \<and> n \<le> hi then n else def) in
      case obj of
        OBool b \<Rightarrow> if b then lo else hi
      | OChar n \<Rightarrow> boost_cast (sint n)
      | OU8 n \<Rightarrow> boost_cast (uint n) | OU16 n \<Rightarrow> boost_cast (uint n)
      | OU32 n \<Rightarrow> boost_cast (uint n) | OU64 n \<Rightarrow> boost_cast (uint n)
      | OI8 n \<Rightarrow> boost_cast (sint n) | OI16 n \<Rightarrow> boost_cast (sint n)
      | OI32 n \<Rightarrow> boost_cast (sint n) | OI64 n \<Rightarrow> boost_cast (sint n)
      | OFloat f \<Rightarrow> from_float obj | ODouble f \<Rightarrow> from_float obj | OFloat80 f \<Rightarrow> from_float obj
      | OString s \<Rightarrow> from_string s
      | _ \<Rightarrow> def)"

section \<open>Well-formed objects\<close>

text \<open>
  What the C++ types guarantee: octet arrays have their size and maps are in key order, at every depth.
\<close>

fun wf_object :: "object \<Rightarrow> bool" where
  "wf_object (OOctets t v) \<longleftrightarrow> length v = octets_size t"
| "wf_object (OTuple v) \<longleftrightarrow> (\<forall>x \<in> set v. wf_object x)"
| "wf_object (OVector v) \<longleftrightarrow> (\<forall>x \<in> set v. wf_object x)"
| "wf_object (ODeque v) \<longleftrightarrow> (\<forall>x \<in> set v. wf_object x)"
| "wf_object (OAttrMap m) \<longleftrightarrow> sorted_keys m \<and> (\<forall>p \<in> set m. wf_object (snd p))"
| "wf_object (OAttr k v) \<longleftrightarrow> wf_object v"
| "wf_object (OParamMap m) \<longleftrightarrow> sorted_keys m \<and> (\<forall>p \<in> set m. wf_object (snd p))"
| "wf_object (OParam k v) \<longleftrightarrow> wf_object v"
| "wf_object (OPropMap m) \<longleftrightarrow> sorted_keys m \<and> (\<forall>p \<in> set m. wf_object (snd p))"
| "wf_object (OProp k v) \<longleftrightarrow> wf_object v"
| "wf_object _ \<longleftrightarrow> True"

definition wf_map :: "('k::linorder \<times> object) list \<Rightarrow> bool" where
  "wf_map m \<longleftrightarrow> sorted_keys m \<and> (\<forall>p \<in> set m. wf_object (snd p))"

lemma wf_object_maps [simp]:
  "wf_object (OAttrMap a) \<longleftrightarrow> wf_map a"
  "wf_object (OParamMap m) \<longleftrightarrow> wf_map m"
  "wf_object (OPropMap p) \<longleftrightarrow> wf_map p"
  by (simp_all add: wf_map_def)

declare wf_object.simps(5,7,9) [simp del]

lemma wf_map_Nil [simp]: "wf_map []"
  by (simp add: wf_map_def)

lemma wf_map_find: "wf_map m \<Longrightarrow> map_find k m = Some v \<Longrightarrow> wf_object v"
  unfolding wf_map_def by (force dest: map_find_in_set)

lemma wf_map_assign: "wf_map m \<Longrightarrow> wf_object v \<Longrightarrow> wf_map (map_assign k v m)"
  using set_map_assign [of k v m] unfolding wf_map_def by (fastforce simp: sorted_keys_assign)

lemma wf_map_emplace: "wf_map m \<Longrightarrow> wf_object v \<Longrightarrow> wf_map (map_emplace k v m)"
  using set_map_emplace [of k v m] unfolding wf_map_def by (fastforce simp: sorted_keys_emplace)

lemma wf_map_sorted: "wf_map m \<Longrightarrow> sorted_keys m"
  by (simp add: wf_map_def)

text \<open>One level of \<open>merge\<close>: it goes into a parameter map, old or new, or stops at another type.\<close>

lemma merge_levelE:
  assumes "merge b pm (k # k2 # ks) v = Inr pm'"
  obtains (inner) inner inner' where
      "map_find k pm = Some (OParamMap inner) \<or> map_find k pm = None \<and> inner = []"
      "merge b inner (k2 # ks) v = Inr inner'" "pm' = map_assign k (OParamMap inner') pm"
  | (stop) "b = Release" "pm' = pm"
proof (cases "\<exists>inner. map_find k pm = Some (OParamMap inner)")
  case True
  with assms that(1) show ?thesis by (auto simp: rbind_eq_Inr)
next
  case False
  show ?thesis
  proof (cases "map_find k pm")
    case None
    with assms that(1) show ?thesis by (auto simp: rbind_eq_Inr)
  next
    case (Some x)
    with False assms that(2) show ?thesis by (cases b) (auto split: object.splits)
  qed
qed

declare merge.simps(3) [simp del]

lemma merge_other_keys:
  assumes "merge b pm ks v = Inr pm'" and "sorted_keys pm" and "k \<noteq> hd ks"
  shows "map_find k pm' = map_find k pm"
proof (cases ks rule: remdups_adj.cases)
  case (3 k1 k2 ks2)
  with assms(1) have "merge b pm (k1 # k2 # ks2) v = Inr pm'" by simp
  then show ?thesis
    by (cases rule: merge_levelE) (use 3 assms(2,3) in \<open>auto simp: map_find_assign\<close>)
qed (use assms in \<open>auto simp: map_find_assign\<close>)

lemma wf_merge:
  "merge b pm ks v = Inr pm' \<Longrightarrow> wf_map pm \<Longrightarrow> wf_object v \<Longrightarrow> wf_map pm'"
proof (induction ks arbitrary: pm pm')
  case (Cons k ks)
  show ?case
  proof (cases ks)
    case Nil
    with Cons.prems show ?thesis by (auto intro: wf_map_assign)
  next
    case (Cons k2 ks2)
    with Cons.prems(1) have "merge b pm (k # k2 # ks2) v = Inr pm'" by simp
    then show ?thesis
      by (cases rule: merge_levelE)
        (use Cons.IH Cons.prems(2,3) Cons in \<open>auto intro!: wf_map_assign dest: wf_map_find\<close>)
  qed
qed simp

lemma find_name_ParamMap: "find_name (OParamMap m) k = (case map_find k m of Some v \<Rightarrow> v | None \<Rightarrow> ONull)"
  by (simp add: find_name_def find_in_map_def)

lemma find_name_ONull [simp]: "find_name ONull k = ONull" by (simp add: find_name_def)
lemma find_path_ONull [simp]: "find_path ONull ks = ONull" by (induction ks) auto

section \<open>Properties\<close>

text \<open>Type names: the name of every type code below \<^verbatim>\<open>TC_EOD\<close> is in the table and leads back to the
  code; \<^verbatim>\<open>TC_EOD\<close> itself has a name in the table, but \<^verbatim>\<open>intrinsic_name_by_type_code\<close> does not give it,
  and an unknown name is read as the null type.\<close>

theorem type_names_roundtrip:
  "(tc < TC_EOD \<longrightarrow> type_code_exists (intrinsic_name_by_type_code tc) \<and>
      type_code_by_name (intrinsic_name_by_type_code tc) = tc) \<and>
   type_code_by_name ''eod'' = TC_EOD \<and> intrinsic_name_by_type_code TC_EOD = '''' \<and>
   (\<not> type_code_exists s \<longrightarrow> type_code_by_name s = 0)"
proof -
  have "list_all (\<lambda>tc. index_of (names ! tc) names = Some tc) [0..<61]" by code_simp
  then have "tc < 61 \<Longrightarrow> index_of (names ! tc) names = Some tc" by (simp add: list_all_iff)
  moreover have "type_code_by_name ''eod'' = 61" by code_simp
  ultimately show ?thesis
    by (simp add: type_code_exists_def type_code_by_name_def intrinsic_name_by_type_code_def TC_EOD_def)
qed

theorem type_names_roundtrip_witness:
  "type_code_by_name (intrinsic_name_by_type_code 43) = 43 \<and> type_code_by_name ''tuple'' = 0"
proof -
  have "\<not> type_code_exists ''tuple''" by code_simp
  with type_names_roundtrip [of 43 "''tuple''"] show ?thesis by (simp add: TC_EOD_def)
qed

text \<open>Index lookup in a sequence: the first attribute with that index wins.  Without one the
  documentation promises the element at that position; that holds if no element is an unsigned number
  equal to the index, for \<^verbatim>\<open>find\<close> returns such an element itself, wherever it stands.\<close>

theorem find_idx_precedence:
  "((\<forall>x \<in> set v. \<forall>n. x \<noteq> OU64 n \<and> (\<forall>m. x \<noteq> OU32 m)) \<longrightarrow>
     find_idx (OVector v) idx =
       (case List.find (\<lambda>x. \<exists>w. x = OAttr idx w) v of
          Some x \<Rightarrow> snd (the (cast_attr x))
        | None \<Rightarrow> if unat idx < length v then v ! unat idx else ONull)) \<and>
   find_idx (OVector [OU64 1, OU64 0]) 0 = OU64 0"
proof -
  have m: "match_idx idx x \<longleftrightarrow> (\<exists>w. x = OAttr idx w)" if "\<forall>n. x \<noteq> OU64 n \<and> (\<forall>m. x \<noteq> OU32 m)" for x
    using that by (cases x) (auto simp: match_idx_def)
  have e: "List.find (match_idx idx) v = List.find (\<lambda>x. \<exists>w. x = OAttr idx w) v"
    if "\<forall>x \<in> set v. \<forall>n. x \<noteq> OU64 n \<and> (\<forall>m. x \<noteq> OU32 m)"
    using that m by (intro find_cong) auto
  show ?thesis
  proof (intro conjI impI)
    assume "\<forall>x \<in> set v. \<forall>n. x \<noteq> OU64 n \<and> (\<forall>m. x \<noteq> OU32 m)"
    note e [OF this]
    moreover have "extract_value x = snd (the (cast_attr x))"
      if "List.find (\<lambda>x. \<exists>w. x = OAttr idx w) v = Some x" for x
      using that by (auto simp: find_Some_iff extract_value_def cast_attr_def)
    ultimately show "find_idx (OVector v) idx =
       (case List.find (\<lambda>x. \<exists>w. x = OAttr idx w) v of
          Some x \<Rightarrow> snd (the (cast_attr x))
        | None \<Rightarrow> if unat idx < length v then v ! unat idx else ONull)"
      by (simp add: find_idx_def find_idx_seq_def split: option.split)
  qed (simp add: find_idx_def find_idx_seq_def match_idx_def extract_value_def)
qed

theorem find_idx_precedence_witness:
  "find_idx (OVector [OAttr 2 ONull, OAttr 0 (OU8 9), OBool True]) 0 = OU8 9"
  using find_idx_precedence [of "[OAttr 2 ONull, OAttr 0 (OU8 9), OBool True]" 0]
  by (simp add: cast_attr_def)

text \<open>\<^verbatim>\<open>merge\<close>: when it succeeds in a build with assertions, looking up the path finds the value, the
  maps stay well formed, and every other key of the map is as before.\<close>

theorem merge_find_path:
  assumes "merge Debug pm ks v = Inr pm'" and "ks \<noteq> []" and "wf_map pm" and "wf_object v"
  shows "find_path (OParamMap pm') ks = v \<and> wf_map pm' \<and>
     (\<forall>k. k \<noteq> hd ks \<longrightarrow> map_find k pm' = map_find k pm)"
proof -
  have "find_path (OParamMap pm') ks = v"
    using assms(1-3)
  proof (induction ks arbitrary: pm pm')
    case (Cons k ks)
    show ?case
    proof (cases ks)
      case Nil
      with Cons.prems show ?thesis
        by (auto simp: find_name_ParamMap map_find_assign wf_map_sorted)
    next
      case (Cons k2 ks2)
      with Cons.prems(1) have "merge Debug pm (k # k2 # ks2) v = Inr pm'" by simp
      then show ?thesis
      proof (cases rule: merge_levelE)
        case (inner m m')
        then have "wf_map m" using Cons.prems(3) by (auto dest: wf_map_find)
        with inner Cons.IH [of m m'] Cons.prems(3) Cons show ?thesis
          by (simp add: find_name_ParamMap map_find_assign wf_map_sorted)
      qed simp
    qed
  qed simp
  then show ?thesis
    using wf_merge [OF assms(1,3,4)] merge_other_keys [OF assms(1)] assms(3) by (simp add: wf_map_sorted)
qed

theorem merge_find_path_witness:
  "find_path (OParamMap (map_assign [1] (OParamMap [([2], OU8 7)]) [])) [[1], [2]] = OU8 7"
  using merge_find_path [of "[]" "[[1], [2]]" "OU8 7" "[([1], OParamMap [([2], OU8 7)])]"]
  by (simp add: merge.simps)

text \<open>\<^verbatim>\<open>numeric_cast\<close> to an integral type: a number keeps its value exactly if it fits, and is the
  default otherwise; a truth value is not converted but becomes a limit of the type, \<open>True\<close> the lowest.\<close>

theorem numeric_cast_range:
  assumes "lo \<le> def" and "def \<le> hi"
  shows "lo \<le> numeric_cast ff fs lo hi (OI64 n) def \<and> numeric_cast ff fs lo hi (OI64 n) def \<le> hi \<and>
    (lo \<le> sint n \<and> sint n \<le> hi \<longrightarrow> numeric_cast ff fs lo hi (OI64 n) def = sint n) \<and>
    (\<not> (lo \<le> sint n \<and> sint n \<le> hi) \<longrightarrow> numeric_cast ff fs lo hi (OI64 n) def = def) \<and>
    numeric_cast ff fs lo hi (OBool True) def = lo"
  using assms by (auto simp: numeric_cast_def)

theorem numeric_cast_range_witness:
  "numeric_cast (\<lambda>_. 0) (\<lambda>_. 0) (- 128) 127 (OI64 300) 7 = 7"
  using numeric_cast_range [of "- 128" 7 127 "\<lambda>_. 0" "\<lambda>_. 0" 300] by simp

end
