(* ===== verification/Binary.thy ===== *)
theory Binary
  imports Object
begin

text \<open>
  The binary serializer: \<^verbatim>\<open>include/cyng/io/serializer/binary.hpp\<close>, \<^verbatim>\<open>src/io/src/serializer/binary.cpp\<close> and
  the dispatch on the type code in \<^verbatim>\<open>include/cyng/io/serialize.hpp\<close>.  A value is written as type, length
  and bytes; a container as its elements, their number and the instruction that builds it, a program
  for the VM that reads it.
\<close>

section \<open>Type, length, value\<close>

definition serialize_type_tag :: "endian \<Rightarrow> u16 \<Rightarrow> byte list" where
  "serialize_type_tag h tag = to_buffer h tag"

definition serialize_length :: "endian \<Rightarrow> u64 \<Rightarrow> byte list" where
  "serialize_length h sz =
     (if sz < 0x7E then to_buffer h (ucast (sz AND 0xFF) :: byte)
      else if sz < 0xFFFF then to_buffer h (0x7E :: byte) @ to_buffer h (ucast (sz AND 0xFFFF) :: u16)
      else to_buffer h (0x7F :: byte) @ to_buffer h sz)"

definition length_field_size :: "u64 \<Rightarrow> nat" where
  "length_field_size sz = (if sz < 0x7E then 1 else if sz < 0xFFFF then 1 + 2 else 1 + 8)"

text \<open>The bytes written for a value, and the size \<^verbatim>\<open>write\<close> returns for it.\<close>

definition tlv :: "endian \<Rightarrow> u16 \<Rightarrow> byte list \<Rightarrow> byte list" where
  "tlv h tag bs = serialize_type_tag h tag @ serialize_length h (word_of_nat (length bs)) @ bs"

definition tlv_size :: "byte list \<Rightarrow> nat" where
  "tlv_size bs = length bs + 2 + length_field_size (word_of_nat (length bs))"

section \<open>Values\<close>

text \<open>
  The types with a \<^verbatim>\<open>write\<close> that casts them to numbers or text.  \<^verbatim>\<open>os << s\<close> and \<^verbatim>\<open>os.write\<close> put the bytes of
  a string as they are.
\<close>

definition basic_value :: "endian \<Rightarrow> object \<Rightarrow> byte list option" where
  "basic_value h obj = (case obj of
      ONull \<Rightarrow> Some []
    | OEod \<Rightarrow> Some []
    | OBool v \<Rightarrow> Some (to_buffer h (if v then 1 else 0 :: byte))
    | OChar v \<Rightarrow> Some (to_buffer h v)
    | OFloat v \<Rightarrow> Some (to_buffer h v)
    | ODouble v \<Rightarrow> Some (to_buffer h v)
    | OFloat80 v \<Rightarrow> Some (to_buffer h v)
    | OU8 v \<Rightarrow> Some (to_buffer h v)
    | OU16 v \<Rightarrow> Some (to_buffer h v)
    | OU32 v \<Rightarrow> Some (to_buffer h v)
    | OU64 v \<Rightarrow> Some (to_buffer h v)
    | OI8 v \<Rightarrow> Some (to_buffer h v)
    | OI16 v \<Rightarrow> Some (to_buffer h v)
    | OI32 v \<Rightarrow> Some (to_buffer h v)
    | OI64 v \<Rightarrow> Some (to_buffer h v)
    | OOp v \<Rightarrow> Some (to_buffer h v)
    | OSeverity v \<Rightarrow> Some (to_buffer h v)
    | OString v \<Rightarrow> Some v
    | OPath v \<Rightarrow> Some v
    | OIpAddress v \<Rightarrow> Some v
    | OEndpoint t port address \<Rightarrow> Some (to_buffer h port @ address)
    | OEc v category \<Rightarrow> Some (to_buffer h v @ category)
    | OChrono t v \<Rightarrow> Some (to_buffer h v)
    | _ \<Rightarrow> None)"

text \<open>
  The classes of the library.  \<^verbatim>\<open>write_binary\<close> of an array writes the memory of the host; a process id
  is widened (\<^verbatim>\<open>pid_t\<close> is a signed 32-bit integer).
\<close>

definition code_value :: "endian \<Rightarrow> object \<Rightarrow> byte list option" where
  "code_value h obj = (case obj of
      OMac48 v \<Rightarrow> Some (get_octets v)
    | OMac64 v \<Rightarrow> Some (concat (map (mem_bytes h) (get_words v)))
    | OPid v \<Rightarrow> Some (to_buffer h (scast v :: u64))
    | OObis v \<Rightarrow> Some (obis_data v)
    | OObisPath v \<Rightarrow> Some (concat (map obis_data v))
    | OEdis v \<Rightarrow> Some (edis_data v)
    | OVersion v \<Rightarrow> Some (to_buffer h (version_full v))
    | ORevision v \<Rightarrow> Some (to_buffer h (revision_full v))
    | OBuffer v \<Rightarrow> Some v
    | ORaw v \<Rightarrow> Some (to_buffer h (raw_code v) @ raw_literal v)
    | OOctets t v \<Rightarrow> Some v
    | OColor8 c \<Rightarrow> Some (to_buffer h (red c) @ to_buffer h (green c) @ to_buffer h (blue c) @
        to_buffer h (opacity c))
    | OColor16 c \<Rightarrow> Some (to_buffer h (red c) @ to_buffer h (green c) @ to_buffer h (blue c) @
        to_buffer h (opacity c))
    | _ \<Rightarrow> None)"

definition scalar_value :: "endian \<Rightarrow> object \<Rightarrow> byte list option" where
  "scalar_value h obj = (case basic_value h obj of Some bs \<Rightarrow> Some bs | None \<Rightarrow> code_value h obj)"

definition serialize_scalar :: "endian \<Rightarrow> object \<Rightarrow> byte list" where
  "serialize_scalar h obj =
     (case scalar_value h obj of Some bs \<Rightarrow> tlv h (type_tag obj) bs | None \<Rightarrow> [])"

definition scalar_size :: "endian \<Rightarrow> object \<Rightarrow> nat" where
  "scalar_size h obj = (case scalar_value h obj of Some bs \<Rightarrow> tlv_size bs | None \<Rightarrow> 0)"

section \<open>Containers\<close>

text \<open>\<^verbatim>\<open>make_object(op::...)\<close> and \<^verbatim>\<open>make_object<std::size_t>(n)\<close>.\<close>

definition instruction :: "op \<Rightarrow> object" where
  "instruction c = OOp (op_code c)"

definition count :: "nat \<Rightarrow> object" where
  "count n = OU64 (word_of_nat n)"

fun serialize_binary :: "endian \<Rightarrow> object \<Rightarrow> byte list" where
  "serialize_binary h (OAttr k v) =
     serialize_binary h v @ serialize_scalar h (OU64 k) @ serialize_scalar h (instruction MAKE_ATTR)"
| "serialize_binary h (OParam k v) =
     serialize_binary h v @ serialize_scalar h (OString k) @ serialize_scalar h (instruction MAKE_PARAM)"
| "serialize_binary h (OProp k v) =
     serialize_binary h v @ serialize_scalar h (OObis k) @ serialize_scalar h (instruction MAKE_PROP)"
| "serialize_binary h (OAttrMap m) =
     concat (map (\<lambda>p. serialize_binary h (snd p) @ serialize_scalar h (OU64 (fst p)) @
                      serialize_scalar h (instruction MAKE_ATTR)) m) @
     serialize_scalar h (count (length m)) @ serialize_scalar h (instruction MAKE_ATTR_MAP)"
| "serialize_binary h (OParamMap m) =
     concat (map (\<lambda>p. serialize_binary h (snd p) @ serialize_scalar h (OString (fst p)) @
                      serialize_scalar h (instruction MAKE_PARAM)) m) @
     serialize_scalar h (count (length m)) @ serialize_scalar h (instruction MAKE_PARAM_MAP)"
| "serialize_binary h (OPropMap m) =
     concat (map (\<lambda>p. serialize_binary h (snd p) @ serialize_scalar h (OObis (fst p)) @
                      serialize_scalar h (instruction MAKE_PROP)) m) @
     serialize_scalar h (count (length m)) @ serialize_scalar h (instruction MAKE_PROP_MAP)"
| "serialize_binary h (OTuple v) =
     concat (map (serialize_binary h) v) @
     serialize_scalar h (count (length v)) @ serialize_scalar h (instruction MAKE_TUPLE)"
| "serialize_binary h (OVector v) =
     concat (map (serialize_binary h) v) @
     serialize_scalar h (count (length v)) @ serialize_scalar h (instruction MAKE_VECTOR)"
| "serialize_binary h (ODeque v) =
     concat (map (serialize_binary h) v) @
     serialize_scalar h (count (length v)) @ serialize_scalar h (instruction MAKE_DEQUE)"
| "serialize_binary h (OPrg v) =
     concat (map (\<lambda>buf. serialize_scalar h (OBuffer buf)) v) @
     serialize_scalar h (count (length v)) @ serialize_scalar h (instruction MAKE_PRG)"
| "serialize_binary h obj = serialize_scalar h obj"

text \<open>The size \<^verbatim>\<open>serialize_binary\<close> returns, summed up as the serializers do.\<close>

fun binary_size :: "endian \<Rightarrow> object \<Rightarrow> nat" where
  "binary_size h (OAttr k v) =
     binary_size h v + scalar_size h (OU64 k) + scalar_size h (instruction MAKE_ATTR)"
| "binary_size h (OParam k v) =
     binary_size h v + scalar_size h (OString k) + scalar_size h (instruction MAKE_PARAM)"
| "binary_size h (OProp k v) =
     binary_size h v + scalar_size h (OObis k) + scalar_size h (instruction MAKE_PROP)"
| "binary_size h (OAttrMap m) =
     sum_list (map (\<lambda>p. binary_size h (snd p) + scalar_size h (OU64 (fst p)) +
                        scalar_size h (instruction MAKE_ATTR)) m) +
     scalar_size h (count (length m)) + scalar_size h (instruction MAKE_ATTR_MAP)"
| "binary_size h (OParamMap m) =
     sum_list (map (\<lambda>p. binary_size h (snd p) + scalar_size h (OString (fst p)) +
                        scalar_size h (instruction MAKE_PARAM)) m) +
     scalar_size h (count (length m)) + scalar_size h (instruction MAKE_PARAM_MAP)"
| "binary_size h (OPropMap m) =
     sum_list (map (\<lambda>p. binary_size h (snd p) + scalar_size h (OObis (fst p)) +
                        scalar_size h (instruction MAKE_PROP)) m) +
     scalar_size h (count (length m)) + scalar_size h (instruction MAKE_PROP_MAP)"
| "binary_size h (OTuple v) = sum_list (map (binary_size h) v) +
     scalar_size h (count (length v)) + scalar_size h (instruction MAKE_TUPLE)"
| "binary_size h (OVector v) = sum_list (map (binary_size h) v) +
     scalar_size h (count (length v)) + scalar_size h (instruction MAKE_VECTOR)"
| "binary_size h (ODeque v) = sum_list (map (binary_size h) v) +
     scalar_size h (count (length v)) + scalar_size h (instruction MAKE_DEQUE)"
| "binary_size h (OPrg v) = sum_list (map (\<lambda>buf. scalar_size h (OBuffer buf)) v) +
     scalar_size h (count (length v)) + scalar_size h (instruction MAKE_PRG)"
| "binary_size h obj = scalar_size h obj"

section \<open>The program of an object\<close>

text \<open>
  The sequence of values an object is serialized to.  The bytes are those of the sequence, so what is
  read back is a matter of single values.
\<close>

fun program_of :: "object \<Rightarrow> object list" where
  "program_of (OAttr k v) = program_of v @ [OU64 k, instruction MAKE_ATTR]"
| "program_of (OParam k v) = program_of v @ [OString k, instruction MAKE_PARAM]"
| "program_of (OProp k v) = program_of v @ [OObis k, instruction MAKE_PROP]"
| "program_of (OAttrMap m) =
     concat (map (\<lambda>p. program_of (snd p) @ [OU64 (fst p), instruction MAKE_ATTR]) m) @
     [count (length m), instruction MAKE_ATTR_MAP]"
| "program_of (OParamMap m) =
     concat (map (\<lambda>p. program_of (snd p) @ [OString (fst p), instruction MAKE_PARAM]) m) @
     [count (length m), instruction MAKE_PARAM_MAP]"
| "program_of (OPropMap m) =
     concat (map (\<lambda>p. program_of (snd p) @ [OObis (fst p), instruction MAKE_PROP]) m) @
     [count (length m), instruction MAKE_PROP_MAP]"
| "program_of (OTuple v) =
     concat (map program_of v) @ [count (length v), instruction MAKE_TUPLE]"
| "program_of (OVector v) =
     concat (map program_of v) @ [count (length v), instruction MAKE_VECTOR]"
| "program_of (ODeque v) =
     concat (map program_of v) @ [count (length v), instruction MAKE_DEQUE]"
| "program_of (OPrg v) = map OBuffer v @ [count (length v), instruction MAKE_PRG]"
| "program_of obj = [obj]"

lemma concat_map_concat:
  "concat (map f (concat xss)) = concat (map (\<lambda>xs. concat (map f xs)) xss)"
  by (induction xss) simp_all

lemma serialize_program:
  "serialize_binary h obj = concat (map (serialize_scalar h) (program_of obj))"
  by (induction obj rule: program_of.induct)
    (simp_all add: concat_map_concat comp_def cong: map_cong)

lemma length_serialize_length: "length (serialize_length h n) = length_field_size n"
  by (simp add: serialize_length_def length_field_size_def)

lemma length_serialize_scalar: "length (serialize_scalar h obj) = scalar_size h obj"
  by (simp add: serialize_scalar_def scalar_size_def tlv_def tlv_size_def serialize_type_tag_def
      length_serialize_length split: option.split)

lemma binary_size_length: "binary_size h obj = length (serialize_binary h obj)"
  by (induction h obj rule: binary_size.induct)
    (simp_all add: length_serialize_scalar length_concat comp_def add.assoc cong: map_cong)

text \<open>C5. The size \<^verbatim>\<open>serialize_binary\<close> returns is the number of bytes it wrote.\<close>

theorem binary_size_correct: "binary_size h obj = length (serialize_binary h obj)"
  by (rule binary_size_length)

end
