(* ===== verification/Parser.thy ===== *)
theory Parser
  imports Binary
begin

text \<open>
  The binary parser: \<^verbatim>\<open>include/cyng/io/parser/parser.h\<close>, \<^verbatim>\<open>src/io/src/parser/parser.cpp\<close> and the
  \<^verbatim>\<open>make_...\<close> functions of \<^verbatim>\<open>include/cyng/obj/util.hpp\<close> and \<^verbatim>\<open>src/obj/src/util.cpp\<close> that rebuild values from
  buffers.  It reads byte by byte and calls back with each value that is complete.
\<close>

text \<open>
  What the code depends on: the host's byte order, the build mode, the size \<^verbatim>\<open>reserve\<close> accepts at most,
  and \<^verbatim>\<open>boost::asio::ip::make_address\<close> on texts, which throws (\<open>None\<close>) or gives an address (its text).
\<close>

record env =
  host :: endian
  mode_of :: build
  max_size :: u64
  make_address :: "byte list \<Rightarrow> byte list option"

section \<open>Values from buffers: util.hpp, util.cpp\<close>

definition at_or_throw :: "'a list \<Rightarrow> nat \<Rightarrow> 'a result" where
  "at_or_throw xs i = (if i < length xs then Inr (xs ! i) else Inl Exception)"

definition make_string_at :: "byte list \<Rightarrow> nat \<Rightarrow> byte list result" where
  "make_string_at buffer offset =
     rbind (defined_if (offset \<le> length buffer)) (\<lambda>_. Inr (drop offset buffer))"

definition make_mac48 :: "byte list \<Rightarrow> mac48" where
  "make_mac48 buffer = (if length buffer \<ge> 6 then mac48_of_list buffer else Mac48 0 0 0 0 0 0)"

definition make_mac64 :: "endian \<Rightarrow> byte list \<Rightarrow> mac64" where
  "make_mac64 h buffer = (if length buffer \<ge> 8 then mac64_of_list h buffer else Mac64 0 0 0 0)"

definition make_pid :: "endian \<Rightarrow> byte list \<Rightarrow> u32" where
  "make_pid h buffer = (if length buffer \<ge> 8 then ucast (to_numeric h buffer :: u64) else 0)"

definition make_obis_at :: "byte list \<Rightarrow> nat \<Rightarrow> obis result" where
  "make_obis_at buffer offset =
     (if length buffer + offset \<ge> 6
      then rbind (rmap (\<lambda>i. at_or_throw buffer (offset + i)) [0..<6]) (\<lambda>d. Inr (obis_of_data d))
      else Inr (Obis 0 0 0 0 0 0))"

definition make_obis_path :: "build \<Rightarrow> byte list \<Rightarrow> obis_path result" where
  "make_obis_path b buffer =
     rbind (boost_assert b (length buffer mod 6 = 0)) (\<lambda>_.
     rmap (\<lambda>idx. make_obis_at buffer (idx * 6)) [0..<length buffer div 6])"

definition make_edis :: "byte list \<Rightarrow> edis" where
  "make_edis buffer =
     (if length buffer \<ge> 3 then Edis (buffer ! 0) (buffer ! 1) (buffer ! 2) else Edis 0 0 0)"

definition make_color8 :: "byte list \<Rightarrow> byte color" where
  "make_color8 buffer =
     (if length buffer \<ge> 4 then Color (buffer ! 0) (buffer ! 1) (buffer ! 2) (buffer ! 3)
      else Color 0 0 0 0)"

text \<open>\<^verbatim>\<open>sizeof(16)\<close> is the size of an \<^verbatim>\<open>int\<close>, four bytes.\<close>

definition make_color16 :: "build \<Rightarrow> endian \<Rightarrow> byte list \<Rightarrow> u16 color result" where
  "make_color16 b h buffer =
     (if length buffer \<ge> 8 then
        rbind (to_numeric_at b h buffer 4) (\<lambda>g.
        rbind (to_numeric_at b h buffer (4 * 2)) (\<lambda>bl.
        rbind (to_numeric_at b h buffer (4 * 3)) (\<lambda>o4.
        Inr (Color (to_numeric h buffer) g bl o4))))
      else Inr (Color 0 0 0 0))"

definition make_octets :: "nat \<Rightarrow> byte list \<Rightarrow> byte list" where
  "make_octets n buffer = (if length buffer \<ge> n then take n buffer else replicate n 0)"

definition make_uuid :: "byte list \<Rightarrow> byte list" where
  "make_uuid buffer = (if length buffer = 16 then buffer else replicate 16 0)"

definition make_ec :: "endian \<Rightarrow> byte list \<Rightarrow> object result" where
  "make_ec h buffer =
     rbind (make_string_at buffer 4) (\<lambda>category.
     Inr (if category = str ''generic'' then OEc (to_numeric h buffer) (str ''generic'')
          else if category = str ''system'' then OEc (to_numeric h buffer) (str ''system'')
          else OEc 0 (str ''system'')))"

definition make_raw :: "endian \<Rightarrow> byte list \<Rightarrow> raw result" where
  "make_raw h buffer =
     rbind (make_string_at buffer 2) (\<lambda>lit. Inr (Raw lit (to_numeric h buffer)))"

definition make_ip_address :: "env \<Rightarrow> byte list \<Rightarrow> byte list result" where
  "make_ip_address e buffer =
     (case make_address e buffer of Some a \<Rightarrow> Inr a | None \<Rightarrow> Inl Exception)"

definition make_endpoint :: "env \<Rightarrow> endpoint \<Rightarrow> byte list \<Rightarrow> object result" where
  "make_endpoint e t buffer =
     (let port = to_numeric (host e) buffer in
      rbind (make_string_at buffer 2) (\<lambda>address.
      rbind (make_ip_address e address) (\<lambda>a. Inr (OEndpoint t port a))))"

definition make_op :: "build \<Rightarrow> endian \<Rightarrow> byte list \<Rightarrow> object result" where
  "make_op b h buffer =
     rbind (boost_assert b (length buffer = 2)) (\<lambda>_. Inr (OOp (to_numeric h buffer)))"

definition make_severity :: "build \<Rightarrow> endian \<Rightarrow> byte list \<Rightarrow> object result" where
  "make_severity b h buffer =
     rbind (boost_assert b (length buffer = 1)) (\<lambda>_. Inr (OSeverity (to_numeric h buffer)))"

section \<open>Deserialization\<close>

definition deserialize_numeric :: "env \<Rightarrow> ('a::len word \<Rightarrow> object) \<Rightarrow> byte list \<Rightarrow> object result" where
  "deserialize_numeric e mk buffer =
     rbind (boost_assert (mode_of e) (length buffer = LENGTH('a) div 8)) (\<lambda>_.
     Inr (mk (to_numeric (host e) buffer)))"

definition sized :: "env \<Rightarrow> nat \<Rightarrow> byte list \<Rightarrow> object \<Rightarrow> object result" where
  "sized e n buffer obj =
     rbind (boost_assert (mode_of e) (length buffer = n)) (\<lambda>_. Inr obj)"

text \<open>The switch of \<^verbatim>\<open>parser::deserialize\<close>, in two halves.\<close>

definition deserialize_basic :: "env \<Rightarrow> u16 \<Rightarrow> byte list \<Rightarrow> object result option" where
  "deserialize_basic e ty buffer =
     (let b = mode_of e; h = host e in
      if ty = 0 then Some (sized e 0 buffer ONull)
      else if ty = 1 then Some (rbind (boost_assert b (length buffer = 1)) (\<lambda>_.
             rbind (at_or_throw buffer 0) (\<lambda>c. Inr (OBool (c = 1)))))
      else if ty = 2 then Some (rbind (boost_assert b (length buffer = 1)) (\<lambda>_.
             rbind (at_or_throw buffer 0) (\<lambda>c. Inr (OChar c))))
      else if ty = 3 then Some (deserialize_numeric e OFloat buffer)
      else if ty = 4 then Some (deserialize_numeric e ODouble buffer)
      else if ty = 5 then Some (deserialize_numeric e OFloat80 buffer)
      else if ty = 6 then Some (deserialize_numeric e OU8 buffer)
      else if ty = 7 then Some (deserialize_numeric e OU16 buffer)
      else if ty = 8 then Some (deserialize_numeric e OU32 buffer)
      else if ty = 9 then Some (deserialize_numeric e OU64 buffer)
      else if ty = 10 then Some (deserialize_numeric e OI8 buffer)
      else if ty = 11 then Some (deserialize_numeric e OI16 buffer)
      else if ty = 12 then Some (deserialize_numeric e OI32 buffer)
      else if ty = 13 then Some (deserialize_numeric e OI64 buffer)
      else if ty = 14 then Some (Inr (OString buffer))
      else if ty = 15 then Some (Inr (OPath buffer))
      else if ty = 16 then Some (Inr (OChrono TimePoint (to_numeric h buffer)))
      else if ty = 17 then Some (Inr (OChrono NanoSecond (to_numeric h buffer)))
      else if ty = 18 then Some (Inr (OChrono MicroSecond (to_numeric h buffer)))
      else if ty = 19 then Some (Inr (OChrono MilliSecond (to_numeric h buffer)))
      else if ty = 20 then Some (Inr (OChrono Second (to_numeric h buffer)))
      else if ty = 21 then Some (Inr (OChrono Minute (to_numeric h buffer)))
      else if ty = 22 then Some (Inr (OChrono Hour (to_numeric h buffer)))
      else if ty = 23 then Some (Inr (OBuffer buffer))
      else if ty = 24 then Some (Inr (OVersion (Version (to_numeric h buffer))))
      else if ty = 25 then Some (Inr (ORevision (Revision (to_numeric h buffer))))
      else if ty = 26 then Some (make_op b h buffer)
      else if ty = 27 then Some (make_severity b h buffer)
      else None)"

definition deserialize_class :: "env \<Rightarrow> u16 \<Rightarrow> byte list \<Rightarrow> object result option" where
  "deserialize_class e ty buffer =
     (let b = mode_of e; h = host e in
      if ty = 28 then Some (sized e 6 buffer (OMac48 (make_mac48 buffer)))
      else if ty = 29 then Some (sized e 8 buffer (OMac64 (make_mac64 h buffer)))
      else if ty = 30 then Some (Inr (OPid (make_pid h buffer)))
      else if ty = 31 then Some (rbind (boost_assert b (length buffer = 6)) (\<lambda>_.
             rbind (make_obis_at buffer 0) (\<lambda>c. Inr (OObis c))))
      else if ty = 32 then Some (rbind (boost_assert b (length buffer mod 6 = 0)) (\<lambda>_.
             rbind (make_obis_path b buffer) (\<lambda>p. Inr (OObisPath p))))
      else if ty = 33 then Some (sized e 3 buffer (OEdis (make_edis buffer)))
      else if ty = 34 then Some (sized e 4 buffer (OColor8 (make_color8 buffer)))
      else if ty = 35 then Some (rbind (boost_assert b (length buffer = 8)) (\<lambda>_.
             rbind (make_color16 b h buffer) (\<lambda>c. Inr (OColor16 c))))
      else if ty = 36 then Some (sized e 16 buffer (OOctets Md5 (make_octets 16 buffer)))
      else if ty = 37 then Some (sized e 20 buffer (OOctets Sha1 (make_octets 20 buffer)))
      else if ty = 38 then Some (sized e 32 buffer (OOctets Sha256 (make_octets 32 buffer)))
      else if ty = 39 then Some (sized e 64 buffer (OOctets Sha512 (make_octets 64 buffer)))
      else if ty = 40 then Some (sized e 16 buffer (OOctets Aes128 (make_octets 16 buffer)))
      else if ty = 41 then Some (sized e 24 buffer (OOctets Aes192 (make_octets 24 buffer)))
      else if ty = 42 then Some (sized e 32 buffer (OOctets Aes256 (make_octets 32 buffer)))
      else if ty = 44 then Some (rbind (boost_assert b (length buffer > 2)) (\<lambda>_.
             rbind (make_raw h buffer) (\<lambda>r. Inr (ORaw r))))
      else if ty = 55 then Some (make_ec h buffer)
      else if ty = 56 then Some (Inr (OOctets Uuid (make_uuid buffer)))
      else if ty = 57 then Some (rbind (make_ip_address e buffer) (\<lambda>a. Inr (OIpAddress a)))
      else if ty = 58 then Some (make_endpoint e Tcp buffer)
      else if ty = 59 then Some (make_endpoint e Udp buffer)
      else if ty = 60 then Some (make_endpoint e Icmp buffer)
      else if ty = 61 then Some (sized e 0 buffer OEod)
      else None)"

text \<open>Containers and unknown codes: an assertion, or else the bytes as they are.\<close>

definition deserialize :: "env \<Rightarrow> u16 \<Rightarrow> byte list \<Rightarrow> object result" where
  "deserialize e ty buffer =
     (case deserialize_basic e ty buffer of
        Some r \<Rightarrow> r
      | None \<Rightarrow>
          (case deserialize_class e ty buffer of
             Some r \<Rightarrow> r
           | None \<Rightarrow> rbind (boost_assert (mode_of e) False) (\<lambda>_. Inr (OBuffer buffer))))"

section \<open>The state machine: parser.h, parser.cpp\<close>

datatype pstate = P_FAILURE | P_TYPE | P_LENGTH | P_VALUE

record parser =
  p_state :: pstate
  p_buffer :: "byte list"
  p_type :: u16
  p_length :: u64

definition parser_init :: parser where
  "parser_init = \<lparr>p_state = P_TYPE, p_buffer = [], p_type = 0, p_length = 0\<rparr>"

definition size_of_length_field :: "byte \<Rightarrow> nat" where
  "size_of_length_field c = (if c = 126 then 3 else if c = 127 then 9 else 1)"

definition put_type :: "env \<Rightarrow> parser \<Rightarrow> byte \<Rightarrow> object list \<times> parser result" where
  "put_type e s c =
     (let buf = p_buffer s @ [c] in
      if length buf = 2
      then ([], Inr (s\<lparr>p_state := P_LENGTH, p_buffer := [], p_type := to_numeric (host e) buf, p_length := 0\<rparr>))
      else ([], Inr (s\<lparr>p_buffer := buf\<rparr>)))"

text \<open>
  \<^verbatim>\<open>set_length\<close> reads the length field.  A one-byte field is a signed \<^verbatim>\<open>char\<close>, which is widened to 64 bits.
\<close>

definition read_length :: "env \<Rightarrow> byte list \<Rightarrow> nat \<Rightarrow> u64 result" where
  "read_length e buf n =
     (if n = 1 then rbind (at_or_throw buf 0) (\<lambda>c. Inr (scast c))
      else if n = 3 then
        rbind (to_numeric_at (mode_of e) (host e) buf 1 :: u16 result) (\<lambda>w. Inr (ucast w))
      else rbind (boost_assert (mode_of e) (n = 9)) (\<lambda>_.
        to_numeric_at (mode_of e) (host e) buf 1))"

definition set_length :: "env \<Rightarrow> parser \<Rightarrow> byte list \<Rightarrow> nat \<Rightarrow> parser result" where
  "set_length e s buf n =
     rbind (read_length e buf n) (\<lambda>len.
     rbind (throw_unless (len \<le> max_size e)) (\<lambda>_.
     Inr (s\<lparr>p_buffer := [], p_length := len\<rparr>)))"

definition put_length :: "env \<Rightarrow> parser \<Rightarrow> byte \<Rightarrow> object list \<times> parser result" where
  "put_length e s c =
     (let buf = p_buffer s @ [c]; n = size_of_length_field (hd buf) in
      if n = length buf then
        (case set_length e s buf n of
           Inl f \<Rightarrow> ([], Inl f)
         | Inr s' \<Rightarrow>
             if p_length s' = 0 then
               (case deserialize e (p_type s') (p_buffer s') of
                  Inl f \<Rightarrow> ([], Inl f)
                | Inr obj \<Rightarrow> ([obj], Inr (s'\<lparr>p_state := P_TYPE\<rparr>)))
             else ([], Inr (s'\<lparr>p_state := P_VALUE\<rparr>)))
      else ([], Inr (s\<lparr>p_buffer := buf\<rparr>)))"

definition put_value :: "env \<Rightarrow> parser \<Rightarrow> byte \<Rightarrow> object list \<times> parser result" where
  "put_value e s c =
     (let buf = p_buffer s @ [c]; len = p_length s - 1 in
      if len = 0 then
        (case deserialize e (p_type s) buf of
           Inl f \<Rightarrow> ([], Inl f)
         | Inr obj \<Rightarrow> ([obj], Inr (s\<lparr>p_state := P_TYPE, p_buffer := [], p_length := len\<rparr>)))
      else ([], Inr (s\<lparr>p_buffer := buf, p_length := len\<rparr>)))"

definition put :: "env \<Rightarrow> parser \<Rightarrow> byte \<Rightarrow> object list \<times> parser result" where
  "put e s c =
     (case p_state s of
        P_FAILURE \<Rightarrow> ([], rbind (boost_assert (mode_of e) False) (\<lambda>_. Inr s))
      | P_TYPE \<Rightarrow> put_type e s c
      | P_LENGTH \<Rightarrow> put_length e s c
      | P_VALUE \<Rightarrow> put_value e s c)"

fun read :: "env \<Rightarrow> parser \<Rightarrow> byte list \<Rightarrow> object list \<times> parser result" where
  "read e s [] = ([], Inr s)"
| "read e s (c # cs) = after (put e s c) (\<lambda>s'. read e s' cs)"

interpretation tlv: feeder "put e" "read e" for e
  by unfold_locales simp_all

section \<open>What a value looks like to the reader\<close>

text \<open>The values that survive the wire, and the two types that do not.\<close>

fun sendable :: "env \<Rightarrow> object \<Rightarrow> bool" where
  "sendable e (OMac64 v) \<longleftrightarrow> False"
| "sendable e (OColor16 v) \<longleftrightarrow> False"
| "sendable e (OOctets t v) \<longleftrightarrow> length v = octets_size t"
| "sendable e (ORaw v) \<longleftrightarrow> raw_literal v \<noteq> []"
| "sendable e (OEc v c) \<longleftrightarrow> c = str ''generic'' \<or> c = str ''system''"
| "sendable e (OIpAddress a) \<longleftrightarrow> make_address e a = Some a"
| "sendable e (OEndpoint t p a) \<longleftrightarrow> make_address e a = Some a"
| "sendable e _ \<longleftrightarrow> True"

lemma to_numeric_prefix:
  "length bs = LENGTH('a::len) div 8 \<Longrightarrow> to_numeric h (bs @ r) = (to_numeric h bs :: 'a word)"
  by (simp add: to_numeric_def to_numeric_be_def to_numeric_le_def)

lemma to_numeric_prefixes [simp]:
  "to_numeric h (be_bytes (w1 :: byte) @ r) = w1"
  "to_numeric h (be_bytes (w2 :: u16) @ r) = w2"
  "to_numeric h (be_bytes (w4 :: u32) @ r) = w4"
  "to_numeric h (be_bytes (w8 :: u64) @ r) = w8"
  by (simp_all add: to_numeric_prefix)

lemma be_bytes_byte [simp]: "be_bytes (w :: byte) = [w]"
  by (simp add: be_bytes_def le_bytes_def)

lemma to_numeric_byte [simp]: "to_numeric h [w] = (w :: byte)"
  using to_numeric_be_bytes(1) [of h w] by simp

lemma be_bytes_u16: "be_bytes (w :: u16) = [ucast (drop_bit 8 w), ucast w]"
  by (simp add: be_bytes_def le_bytes_def numeral_2_eq_2)

lemma scast_pid [simp]: "ucast (scast (v :: u32) :: u64) = v"
  by (rule bit_word_eqI) (auto simp: bit_simps)

lemma make_obis_at_run:
  "idx < length p \<Longrightarrow> make_obis_at (concat (map obis_data p)) (idx * 6) = Inr (p ! idx)"
proof -
  assume idx: "idx < length p"
  let ?d = "concat (map obis_data p)"
  have len: "length ?d = 6 * length p" by (rule obis_codec.length_run)
  have "rmap (\<lambda>i. at_or_throw ?d (idx * 6 + i)) [0..<6] = Inr (map (\<lambda>i. ?d ! (idx * 6 + i)) [0..<6])"
    using idx len by (intro rmap_ok) (simp add: at_or_throw_def)
  also have "map (\<lambda>i. ?d ! (idx * 6 + i)) [0..<6] = take 6 (drop (idx * 6) ?d)"
    using idx len by (intro nth_equalityI) simp_all
  also have "\<dots> = obis_data (p ! idx)" using idx by (rule obis_codec.run_chunk)
  finally show ?thesis using idx len by (simp add: make_obis_at_def)
qed

lemma make_obis_path_run: "make_obis_path b (concat (map obis_data p)) = Inr p"
proof -
  have len: "length (concat (map obis_data p)) = 6 * length p" by (rule obis_codec.length_run)
  have "rmap (\<lambda>idx. make_obis_at (concat (map obis_data p)) (idx * 6)) [0..<length p] =
      Inr (map (\<lambda>idx. p ! idx) [0..<length p])"
    by (intro rmap_ok) (simp add: make_obis_at_run)
  then show ?thesis by (simp add: make_obis_path_def len map_nth)
qed

lemma make_obis_at_0: "make_obis_at (obis_data c) 0 = Inr c"
  using make_obis_at_run [of 0 "[c]"] by simp

lemma make_octets_exact [simp]: "length v = n \<Longrightarrow> make_octets n v = v"
  by (simp add: make_octets_def)

lemma make_mac48_octets [simp]: "make_mac48 (get_octets m) = m"
  by (simp add: make_mac48_def)

lemma make_edis_data [simp]: "make_edis (edis_data v) = v"
  by (cases v) (simp add: make_edis_def edis_data_def)

lemma str_distinct [simp]: "str ''system'' \<noteq> str ''generic''"
  by simp

lemmas deserialize_simps =
  deserialize_def deserialize_basic_def deserialize_class_def Let_def sized_def
  deserialize_numeric_def at_or_throw_def make_op_def make_severity_def make_endpoint_def
  make_ip_address_def make_string_at_def make_ec_def make_raw_def make_pid_def make_color8_def
  make_obis_path_run make_obis_at_0 make_uuid_def

lemma deserialize_scalar:
  assumes "scalar_value (host e) obj = Some bs" and "sendable e obj"
  shows "deserialize e (type_tag obj) bs = Inr obj"
proof (cases obj)
  case (OOctets t v)
  with assms show ?thesis
    by (cases t) (auto simp: scalar_value_def basic_value_def code_value_def deserialize_simps)
next
  case (OChrono t v)
  with assms show ?thesis
    by (cases t) (auto simp: scalar_value_def basic_value_def code_value_def deserialize_simps)
next
  case (OEndpoint t p v)
  with assms show ?thesis
    by (cases t) (auto simp: scalar_value_def basic_value_def code_value_def deserialize_simps)
next
  case (OObisPath p)
  with assms obis_codec.length_run [of p] show ?thesis
    by (auto simp: scalar_value_def basic_value_def code_value_def deserialize_simps)
qed (use assms in \<open>auto simp: scalar_value_def basic_value_def code_value_def deserialize_simps\<close>)

text \<open>An EUI-64 arrives with the octets of each word exchanged; a 16-bit color never arrives.\<close>

fun swap_words :: "mac64 \<Rightarrow> mac64" where
  "swap_words (Mac64 a b c d) =
     Mac64 (swap_bytes16 a) (swap_bytes16 b) (swap_bytes16 c) (swap_bytes16 d)"

lemma join_octets:
  "push_bit 8 (ucast (ucast w :: byte) :: u16) OR (ucast (ucast (drop_bit 8 w) :: byte) AND 0xFF) =
   swap_bytes16 w"
proof -
  have m: "(0xFF :: u16) = mask 8" by (simp add: mask_eq_exp_minus_1)
  show ?thesis
    unfolding swap_bytes16_def m
    by (rule bit_word_eqI) (auto simp: bit_simps dest: bit_imp_le_length)
qed

lemma mem_bytes_u16:
  "mem_bytes h (w :: u16) =
     (case h of Little \<Rightarrow> [ucast w, ucast (drop_bit 8 w)] | Big \<Rightarrow> [ucast (drop_bit 8 w), ucast w])"
  by (cases h) (simp_all add: mem_bytes_def le_bytes_def numeral_2_eq_2)

lemma make_mac64_words:
  "make_mac64 h (concat (map (mem_bytes h) (get_words m))) = swap_words m"
proof (cases m)
  case (Mac64 a b c d)
  have at: "xs ! 0 = x0" "xs ! 1 = x1" "xs ! 2 = x2" "xs ! 3 = x3" "xs ! 4 = x4" "xs ! 5 = x5"
    "xs ! 6 = x6" "xs ! 7 = x7" if "xs = [x0, x1, x2, x3, x4, x5, x6, x7]"
    for xs :: "byte list" and x0 x1 x2 x3 x4 x5 x6 x7
    using that by simp_all
  show ?thesis
  proof (cases h)
    case Little
    have "concat (map (mem_bytes h) (get_words m)) =
      [ucast a, ucast (drop_bit 8 a), ucast b, ucast (drop_bit 8 b),
       ucast c, ucast (drop_bit 8 c), ucast d, ucast (drop_bit 8 d)]"
      by (simp add: Mac64 Little mem_bytes_u16)
    note at [OF this] this
    then show ?thesis
      by (simp only: make_mac64_def mac64_of_list_def mac64_of_octets_def Let_def Little
          endian.case join_octets Mac64 swap_words.simps) simp
  next
    case Big
    have "concat (map (mem_bytes h) (get_words m)) =
      [ucast (drop_bit 8 a), ucast a, ucast (drop_bit 8 b), ucast b,
       ucast (drop_bit 8 c), ucast c, ucast (drop_bit 8 d), ucast d]"
      by (simp add: Mac64 Big mem_bytes_u16)
    note at [OF this] this
    then show ?thesis
      by (simp only: make_mac64_def mac64_of_list_def mac64_of_octets_def Let_def Big
          endian.case Mac64 swap_words.simps) (simp flip: join_octets)
  qed
qed

lemma deserialize_mac64:
  assumes "scalar_value (host e) (OMac64 m) = Some bs"
  shows "deserialize e 29 bs = Inr (OMac64 (swap_words m))"
proof -
  have bs: "bs = concat (map (mem_bytes (host e)) (get_words m))"
    using assms by (simp add: scalar_value_def basic_value_def code_value_def)
  have "length bs = 8" unfolding bs by (cases m) simp
  then show ?thesis
    using make_mac64_words [of "host e" m] unfolding bs [symmetric]
    by (simp add: deserialize_simps)
qed

lemma offset_in_bounds_simps:
  "offset_in_bounds TYPE(16 word) 8 4" "\<not> offset_in_bounds TYPE(16 word) 8 8"
  by (simp_all add: offset_in_bounds_def)

lemma deserialize_color16:
  assumes "scalar_value (host e) (OColor16 c) = Some bs"
  shows "deserialize e 35 bs = Inl (case mode_of e of Debug \<Rightarrow> Assertion | Release \<Rightarrow> Undefined)"
proof -
  have "length bs = 8" using assms by (auto simp: scalar_value_def basic_value_def code_value_def)
  then show ?thesis
    by (cases "mode_of e"; cases "host e")
      (auto simp: deserialize_simps make_color16_def to_numeric_at_def to_numeric_be_at_def
        to_numeric_le_at_def offset_in_bounds_simps)
qed

section \<open>Reading one value\<close>

definition ready :: "parser \<Rightarrow> bool" where
  "ready s \<longleftrightarrow> p_state s = P_TYPE \<and> p_buffer s = []"

lemma ready_init: "ready parser_init"
  by (simp add: ready_def parser_init_def)

lemma read_type_tag:
  assumes "ready s"
  shows "read e s (serialize_type_tag (host e) tag @ r) =
    read e (s\<lparr>p_state := P_LENGTH, p_buffer := [], p_type := tag, p_length := 0\<rparr>) r"
proof -
  obtain b1 b2 where b: "be_bytes tag = [b1, b2]" by (simp add: be_bytes_u16)
  have t: "to_numeric (host e) [b1, b2] = tag" using to_numeric_be_bytes(2) [of "host e" tag] b by simp
  show ?thesis
    using assms by (simp add: serialize_type_tag_def b put_def put_type_def ready_def t Let_def)
qed

text \<open>The length field is read as a whole.\<close>

lemma read_length_field:
  assumes "p_state s = P_LENGTH" and "p_buffer s = pre" and "f \<noteq> []"
    and "size_of_length_field (hd (pre @ f)) = length (pre @ f)"
  shows "read e s (f @ r) =
    after (put_length e (s\<lparr>p_buffer := butlast (pre @ f)\<rparr>) (last f)) (\<lambda>s'. read e s' r)"
  using assms
proof (induction f arbitrary: s pre)
  case (Cons c f)
  show ?case
  proof (cases "f = []")
    case True
    have "s\<lparr>p_buffer := pre\<rparr> = s" using Cons.prems(2) by simp
    with True Cons.prems(1) show ?thesis by (simp add: put_def)
  next
    case False
    let ?s = "s\<lparr>p_buffer := pre @ [c]\<rparr>"
    from Cons.prems(4) False have "size_of_length_field (hd (pre @ [c])) \<noteq> length (pre @ [c])"
      by (cases pre; cases f) auto
    then have "put e s c = ([], Inr ?s)"
      using Cons.prems(1,2) by (auto simp: put_def put_length_def Let_def)
    moreover have "read e ?s (f @ r) =
      after (put_length e (?s\<lparr>p_buffer := butlast ((pre @ [c]) @ f)\<rparr>) (last f)) (\<lambda>s'. read e s' r)"
      using Cons.prems False by (intro Cons.IH) simp_all
    ultimately show ?thesis using False by simp
  qed
qed simp

lemma read_length_at_1:
  "length (be_bytes (w :: 'a::len word)) < 64 \<Longrightarrow> 8 * (LENGTH('a) div 8) = LENGTH('a) \<Longrightarrow>
   (to_numeric_at b h (c # be_bytes w) 1 :: 'a word result) = Inr w"
  by (subst to_numeric_at_exact) (simp_all add: be_bytes_def le_word_le_bytes)

lemma small_length:
  assumes "n < 0x7E"
  shows "ucast (n AND 0xFF :: u64) \<noteq> (126 :: byte) \<and> ucast (n AND 0xFF :: u64) \<noteq> (127 :: byte) \<and>
    scast (ucast (n AND 0xFF) :: byte) = (n :: u64)"
proof -
  have "list_all (\<lambda>k. let n = word_of_nat k :: u64 in
      ucast (n AND 0xFF :: u64) \<noteq> (126 :: byte) \<and> ucast (n AND 0xFF :: u64) \<noteq> (127 :: byte) \<and>
      scast (ucast (n AND 0xFF) :: byte) = (n :: u64)) [0..<126]"
    by code_simp
  moreover have "unat n < 126" using assms by (simp add: word_less_nat_alt)
  ultimately have "let n = word_of_nat (unat n) :: u64 in
      ucast (n AND 0xFF :: u64) \<noteq> (126 :: byte) \<and> ucast (n AND 0xFF :: u64) \<noteq> (127 :: byte) \<and>
      scast (ucast (n AND 0xFF) :: byte) = (n :: u64)"
    by (rule all_below)
  then show ?thesis by (simp add: Let_def)
qed

lemma medium_length:
  assumes "n < 0xFFFF"
  shows "ucast (ucast (n AND 0xFFFF :: u64) :: u16) = n"
proof -
  have "unat n < 65535" using assms by (simp add: word_less_nat_alt)
  then have "take_bit 16 n = n"
    by (simp add: word_unat_eq_iff unsigned_take_bit_eq take_bit_nat_eq_self_iff)
  then have n: "\<And>i. bit n i \<Longrightarrow> i < 16" by (metis bit_take_bit_iff)
  have m: "(0xFFFF :: u64) = mask 16" by (simp add: mask_eq_exp_minus_1)
  show ?thesis
    unfolding m by (rule bit_word_eqI) (auto simp: bit_simps dest: n)
qed

lemma serialize_length_props:
  fixes n :: u64 and e :: env
  shows "serialize_length (host e) n \<noteq> []"
    and "size_of_length_field (hd (serialize_length (host e) n)) = length (serialize_length (host e) n)"
    and "read_length e (serialize_length (host e) n) (length (serialize_length (host e) n)) = Inr n"
proof -
  have u: "to_numeric_at (mode_of e) (host e) (c # be_bytes w) (Suc 0) = Inr w" for c and w :: u16
    by (rule read_length_at_1 [simplified]) simp_all
  have v: "to_numeric_at (mode_of e) (host e) (c # be_bytes w) (Suc 0) = Inr w" for c and w :: u64
    by (rule read_length_at_1 [simplified]) simp_all
  show "serialize_length (host e) n \<noteq> []"
    and "size_of_length_field (hd (serialize_length (host e) n)) = length (serialize_length (host e) n)"
    using small_length [of n]
    by (auto simp: serialize_length_def size_of_length_field_def)
  show "read_length e (serialize_length (host e) n) (length (serialize_length (host e) n)) = Inr n"
    using small_length [of n] medium_length [of n]
    by (auto simp: serialize_length_def read_length_def at_or_throw_def u v)
qed

text \<open>What the reader does with a complete value: it calls back, or stops.\<close>

definition deliver :: "object result \<Rightarrow> parser \<Rightarrow> object list \<times> parser result" where
  "deliver r s = (case r of Inl f \<Rightarrow> ([], Inl f) | Inr obj \<Rightarrow> ([obj], Inr s))"

lemma deliver_simps [simp]:
  "deliver (Inl f) s = ([], Inl f)"
  "deliver (Inr obj) s = ([obj], Inr s)"
  by (simp_all add: deliver_def)

lemma read_length_ok:
  assumes "p_state s = P_LENGTH" and "p_buffer s = []" and "n \<le> max_size e"
  shows "read e s (serialize_length (host e) n @ r) =
    (if n = 0 then
       after (deliver (deserialize e (p_type s) []) (s\<lparr>p_buffer := [], p_length := 0, p_state := P_TYPE\<rparr>))
         (\<lambda>s'. read e s' r)
     else read e (s\<lparr>p_buffer := [], p_length := n, p_state := P_VALUE\<rparr>) r)"
proof -
  let ?f = "serialize_length (host e) n"
  note f = serialize_length_props [of e n]
  have "read e s (?f @ r) =
    after (put_length e (s\<lparr>p_buffer := butlast ?f\<rparr>) (last ?f)) (\<lambda>s'. read e s' r)"
    using read_length_field [of s "[]" ?f] assms f by simp
  then show ?thesis
    using f assms
    by (cases "deserialize e (p_type s) []") (simp_all add: put_length_def set_length_def Let_def)
qed

lemma read_value:
  assumes "p_state s = P_VALUE" and "p_length s = word_of_nat (length bs)" and "bs \<noteq> []"
    and "length bs < 2 ^ 64"
  shows "read e s (bs @ r) =
    after (deliver (deserialize e (p_type s) (p_buffer s @ bs))
        (s\<lparr>p_state := P_TYPE, p_buffer := [], p_length := 0\<rparr>))
      (\<lambda>s'. read e s' r)"
  using assms
proof (induction bs arbitrary: s)
  case (Cons c bs)
  have len: "p_length s - 1 = word_of_nat (length bs)" using Cons.prems(2) by simp
  show ?case
  proof (cases "bs = []")
    case True
    with len Cons.prems(1) show ?thesis
      by (cases "deserialize e (p_type s) (p_buffer s @ [c])")
        (simp_all add: put_def put_value_def Let_def)
  next
    case False
    with Cons.prems(4) have "word_of_nat (length bs) \<noteq> (0 :: u64)"
      by (simp add: word_of_nat_eq_0_iff nat_dvd_not_less)
    with len Cons.prems(1)
    have "put e s c = ([], Inr (s\<lparr>p_buffer := p_buffer s @ [c], p_length := word_of_nat (length bs)\<rparr>))"
      by (simp add: put_def put_value_def Let_def)
    with Cons.IH [of "s\<lparr>p_buffer := p_buffer s @ [c], p_length := word_of_nat (length bs)\<rparr>"]
      Cons.prems False
    show ?thesis by simp
  qed
qed simp

definition ready_state :: "u16 \<Rightarrow> parser" where
  "ready_state tag = \<lparr>p_state = P_TYPE, p_buffer = [], p_type = tag, p_length = 0\<rparr>"

lemma ready_ready_state [simp]: "ready (ready_state tag)"
  by (simp add: ready_def ready_state_def)

lemma read_tlv:
  assumes "ready s" and "length bs < 2 ^ 64" and "word_of_nat (length bs) \<le> max_size e"
  shows "read e s (tlv (host e) tag bs @ r) =
    after (deliver (deserialize e tag bs) (ready_state tag)) (\<lambda>s'. read e s' r)"
proof -
  let ?s = "s\<lparr>p_state := P_LENGTH, p_buffer := [], p_type := tag, p_length := 0\<rparr>"
  let ?n = "word_of_nat (length bs) :: u64"
  have z: "?n = 0 \<longleftrightarrow> bs = []"
    using assms(2) by (auto simp: word_of_nat_eq_0_iff dest: nat_dvd_not_less [rotated])
  have "read e s (tlv (host e) tag bs @ r) = read e ?s (serialize_length (host e) ?n @ bs @ r)"
    using read_type_tag [OF assms(1)] by (simp add: tlv_def)
  then show ?thesis
    using assms(2,3) z read_value [of "?s\<lparr>p_buffer := [], p_length := ?n, p_state := P_VALUE\<rparr>" bs e r]
    by (cases s; cases "bs = []") (simp_all add: read_length_ok ready_state_def)
qed

section \<open>Properties\<close>

text \<open>Every value of the object's program can be sent, and its length field is accepted.\<close>

definition fits :: "env \<Rightarrow> object \<Rightarrow> bool" where
  "fits e obj = list_all (\<lambda>x. sendable e x \<and>
     (case scalar_value (host e) x of
        Some bs \<Rightarrow> length bs < 2 ^ 64 \<and> word_of_nat (length bs) \<le> max_size e
      | None \<Rightarrow> False)) (program_of obj)"

lemma read_program:
  assumes "ready s"
    and "list_all (\<lambda>x. sendable e x \<and>
     (case scalar_value (host e) x of
        Some bs \<Rightarrow> length bs < 2 ^ 64 \<and> word_of_nat (length bs) \<le> max_size e
      | None \<Rightarrow> False)) prg"
  shows "\<exists>s'. ready s' \<and>
    read e s (concat (map (serialize_scalar (host e)) prg) @ r) = emit prg (read e s' r)"
  using assms
proof (induction prg arbitrary: s)
  case (Cons x prg)
  from Cons.prems(2) obtain bs where bs: "scalar_value (host e) x = Some bs" "sendable e x"
    "length bs < 2 ^ 64" "word_of_nat (length bs) \<le> max_size e"
    by (auto split: option.splits)
  let ?s = "ready_state (type_tag x)"
  obtain s' where s': "ready s'"
    "read e ?s (concat (map (serialize_scalar (host e)) prg) @ r) = emit prg (read e s' r)"
    using Cons.IH [of ?s] Cons.prems(2) by auto
  moreover have "read e s (concat (map (serialize_scalar (host e)) (x # prg)) @ r) =
      emit [x] (read e ?s (concat (map (serialize_scalar (host e)) prg) @ r))"
    using read_tlv [OF Cons.prems(1) bs(3,4), of "type_tag x"] deserialize_scalar [OF bs(1,2)]
    by (simp add: serialize_scalar_def bs(1))
  ultimately show ?case by (intro exI [of _ s']) simp
qed (auto intro: exI [of _ s])

text \<open>C2. Reading back: a parser between two values that is fed the serialization of an object that can be sent
  calls back with exactly the values of the object's program, in order, and is again between two values, whatever
  bytes follow.  An object can be sent (\<open>fits\<close>) if it holds no 64-bit MAC, no 16-bit color, no empty raw value, digests,
  keys and UUIDs of their size, error codes of the generic and the system category, only IP addresses that the
  parser of addresses reads as they are, and no value longer than the parser accepts.\<close>

theorem read_serialized:
  assumes "ready s" and "fits e obj"
  shows "\<exists>s'. ready s' \<and> read e s (serialize_binary (host e) obj @ r) = emit (program_of obj) (read e s' r)"
  using read_program [OF assms(1) assms(2) [unfolded fits_def]]
  by (simp add: serialize_program)

definition sample_env :: env where
  "sample_env = \<lparr>host = Little, mode_of = Debug, max_size = 0xFFFF,
     make_address = (\<lambda>a. if a = str ''::1'' then Some a else None)\<rparr>"

theorem read_serialized_witness:
  "\<exists>s'. ready s' \<and>
     read sample_env parser_init
       (serialize_binary Little (OTuple [OBool True, OParam (str ''ip'') (OIpAddress (str ''::1''))]) @ []) =
     emit [OBool True, OIpAddress (str ''::1''), OString (str ''ip''), OOp 0x109, OU64 2, OOp 0x10E]
       (read sample_env s' [])"
proof -
  have "fits sample_env (OTuple [OBool True, OParam (str ''ip'') (OIpAddress (str ''::1''))])"
    by (simp add: fits_def sample_env_def scalar_value_def basic_value_def code_value_def
        instruction_def count_def)
  from read_serialized [OF ready_init this, of "[]"] show ?thesis
    by (simp add: sample_env_def instruction_def count_def)
qed

text \<open>Two types do not survive: an EUI-64 address arrives with the octets of each word exchanged, on
  either host, and a 16-bit color makes the reader fail, by an assertion or by reading past its buffer.\<close>

theorem mac64_color16_lost:
  assumes "ready s" and "max_size e \<ge> 8"
  shows "read e s (serialize_binary (host e) (OMac64 m)) = ([OMac64 (swap_words m)], Inr (ready_state 29)) \<and>
    read e s (serialize_binary (host e) (OColor16 c)) =
      ([], Inl (case mode_of e of Debug \<Rightarrow> Assertion | Release \<Rightarrow> Undefined))"
proof -
  obtain bs where m: "scalar_value (host e) (OMac64 m) = Some bs" and lm: "length bs = 8"
    by (cases m) (simp add: scalar_value_def basic_value_def code_value_def)
  obtain cs where c: "scalar_value (host e) (OColor16 c) = Some cs" and lc: "length cs = 8"
    by (simp add: scalar_value_def basic_value_def code_value_def)
  show ?thesis
    using read_tlv [OF assms(1), of bs e 29 "[]"] read_tlv [OF assms(1), of cs e 35 "[]"] assms(2)
      deserialize_mac64 [OF m] deserialize_color16 [OF c]
    by (simp add: serialize_scalar_def m c lm lc)
qed

theorem mac64_color16_lost_witness:
  "read sample_env parser_init (serialize_binary Little (OMac64 (Mac64 0x0102 3 4 5))) =
     ([OMac64 (Mac64 0x0201 0x300 0x400 0x500)], Inr (ready_state 29))"
  using mac64_color16_lost [OF ready_init, of sample_env "Mac64 0x0102 3 4 5"]
  by (simp add: sample_env_def swap_bytes16_def)

text \<open>What the parser keeps: no failure state, a buffer shorter than the field it collects, bytes to come.\<close>

definition wf_parser :: "parser \<Rightarrow> bool" where
  "wf_parser s \<longleftrightarrow>
     (case p_state s of
        P_FAILURE \<Rightarrow> False
      | P_TYPE \<Rightarrow> length (p_buffer s) < 2
      | P_LENGTH \<Rightarrow> p_buffer s \<noteq> [] \<longrightarrow> length (p_buffer s) < size_of_length_field (hd (p_buffer s))
      | P_VALUE \<Rightarrow> p_length s \<noteq> 0)"

lemma wf_parser_put:
  assumes "wf_parser s" and "put e s c = (os, Inr s')"
  shows "wf_parser s'"
proof (cases "p_state s")
  case P_FAILURE
  with assms show ?thesis by (simp add: wf_parser_def)
next
  case P_TYPE
  with assms show ?thesis by (auto simp: wf_parser_def put_def put_type_def Let_def less_2_cases_iff split: if_splits)
next
  case P_LENGTH
  show ?thesis
  proof (cases "size_of_length_field (hd (p_buffer s @ [c])) = length (p_buffer s @ [c])")
    case True
    with assms P_LENGTH show ?thesis
      by (auto simp: wf_parser_def put_def put_length_def set_length_def Let_def rbind_eq_Inr
          split: sum.splits if_splits)
  next
    case False
    with assms P_LENGTH show ?thesis
      by (cases "p_buffer s")
        (auto simp: wf_parser_def put_def put_length_def Let_def size_of_length_field_def
          less_2_cases_iff split: if_splits)
  qed
next
  case P_VALUE
  with assms show ?thesis
    by (auto simp: wf_parser_def put_def put_value_def Let_def split: sum.splits if_splits)
qed

text \<open>C6. The parser's invariant: fed any bytes from a state where it holds, for as long as no exception is thrown and
  no assertion fails, the parser never enters its failure state, its buffer stays shorter than the field it is
  collecting, and the number of value bytes to come is not zero.\<close>

theorem read_wf_parser:
  assumes "wf_parser s" and "read e s cs = (os, Inr s')"
  shows "wf_parser s' \<and> p_state s' \<noteq> P_FAILURE"
  using tlv.read_invariant [of wf_parser e, OF wf_parser_put assms]
  by (auto simp: wf_parser_def)

theorem read_wf_parser_witness:
  "\<exists>s. read sample_env parser_init [0, 9, 8, 1, 2] = ([], Inr s) \<and> p_buffer s = [1, 2] \<and> wf_parser s \<and> p_state s \<noteq> P_FAILURE"
proof -
  have "read sample_env parser_init [0, 9, 8, 1, 2] =
      ([], Inr \<lparr>p_state = P_VALUE, p_buffer = [1, 2], p_type = 9, p_length = 6\<rparr>)"
    by (simp add: put_def put_type_def put_length_def put_value_def set_length_def read_length_def size_of_length_field_def
        parser_init_def sample_env_def Let_def to_numeric_def to_numeric_le_def mem_fill_def mem_word_def at_or_throw_def throw_unless_def rbind_def)
  moreover have "wf_parser parser_init" by (simp add: wf_parser_def parser_init_def)
  ultimately show ?thesis using read_wf_parser [of parser_init sample_env "[0, 9, 8, 1, 2]"] by simp
qed

text \<open>A one-byte length field of 0x80 or more: it is read as a signed character, the length becomes
  larger than any buffer, and the reader throws.\<close>

theorem negative_length_throws:
  assumes "p_state s = P_LENGTH" and "p_buffer s = []" and "c \<ge> 0x80"
    and "max_size e < 0xFFFFFFFFFFFFFF80"
  shows "put e s c = ([], Inl Exception)"
proof -
  have "scast c \<ge> (0xFFFFFFFFFFFFFF80 :: u64)" if "c \<ge> 0x80" for c :: byte
  proof -
    have "list_all (\<lambda>k. (word_of_nat k :: byte) \<ge> 0x80 \<longrightarrow>
        (scast (word_of_nat k :: byte) :: u64) \<ge> 0xFFFFFFFFFFFFFF80) [0..<256]"
      by code_simp
    then have "(word_of_nat (unat c) :: byte) \<ge> 0x80 \<longrightarrow>
        (scast (word_of_nat (unat c) :: byte) :: u64) \<ge> 0xFFFFFFFFFFFFFF80"
      by (rule all_below) simp
    with that show ?thesis by simp
  qed
  with assms have "\<not> scast c \<le> max_size e" by (meson not_le less_le_trans)
  moreover have "size_of_length_field c = 1" using assms(3) by (auto simp: size_of_length_field_def)
  ultimately show ?thesis
    using assms by (simp add: put_def put_length_def set_length_def read_length_def at_or_throw_def Let_def)
qed

theorem negative_length_throws_witness:
  "put sample_env \<lparr>p_state = P_LENGTH, p_buffer = [], p_type = 14, p_length = 0\<rparr> 0x80 = ([], Inl Exception)"
  by (rule negative_length_throws) (simp_all add: sample_env_def)
end
