(* ===== verification/Vm.thy ===== *)
theory Vm
  imports Object
begin

text \<open>
  The virtual machine of \<^verbatim>\<open>include/cyng/vm/\<close> and \<^verbatim>\<open>src/vm/src/\<close>: memory, stack, context, the executor and the
  slots through which a proxy drives it.
\<close>

section \<open>Memory: memory.h, memory.cpp\<close>

record memory =
  mem :: "object list"
  pc :: nat

definition memory_init :: "object list \<Rightarrow> memory" where
  "memory_init deq = \<lparr>mem = deq, pc = 0\<rparr>"

definition has_more :: "memory \<Rightarrow> bool" where
  "has_more m \<longleftrightarrow> pc m < length (mem m)"

definition step :: "build \<Rightarrow> memory \<Rightarrow> (bool \<times> memory) result" where
  "step b m =
     rbind (boost_assert b (has_more m)) (\<lambda>_.
     Inr (if has_more m then (True, m\<lparr>pc := pc m + 1\<rparr>) else (False, m)))"

definition ja :: "build \<Rightarrow> nat \<Rightarrow> memory \<Rightarrow> memory result" where
  "ja b pos m = rbind (boost_assert b (pos < length (mem m))) (\<lambda>_. Inr (m\<lparr>pc := pos\<rparr>))"

definition jrf :: "build \<Rightarrow> nat \<Rightarrow> memory \<Rightarrow> memory result" where
  "jrf b n m =
     (let m' = m\<lparr>pc := (pc m + n) mod 2 ^ 64\<rparr> in
      rbind (boost_assert b (has_more m')) (\<lambda>_. Inr m'))"

definition jrb :: "build \<Rightarrow> nat \<Rightarrow> memory \<Rightarrow> memory result" where
  "jrb b n m =
     rbind (boost_assert b (n < pc m)) (\<lambda>_. Inr (if n < pc m then m\<lparr>pc := pc m - n\<rparr> else m))"

definition fetch :: "build \<Rightarrow> memory \<Rightarrow> object result" where
  "fetch b m =
     rbind (boost_assert b (has_more m)) (\<lambda>_.
     rbind (defined_if (has_more m)) (\<lambda>_. Inr (mem m ! pc m)))"

definition op_count :: "memory \<Rightarrow> u64" where
  "op_count m = word_of_nat (length (mem m)) - word_of_nat (pc m)"

section \<open>Stack: stack.h, stack.cpp\<close>

text \<open>The top of the stack is the last element.\<close>

record stack =
  items :: "object list"
  bp :: u64

definition stack_init :: stack where
  "stack_init = \<lparr>items = [], bp = 0\<rparr>"

definition push :: "object \<Rightarrow> stack \<Rightarrow> stack" where
  "push obj s = s\<lparr>items := items s @ [obj]\<rparr>"

definition pop :: "build \<Rightarrow> stack \<Rightarrow> stack result" where
  "pop b s =
     rbind (boost_assert b (items s \<noteq> [])) (\<lambda>_.
     rbind (defined_if (items s \<noteq> [])) (\<lambda>_. Inr (s\<lparr>items := butlast (items s)\<rparr>)))"

definition top :: "build \<Rightarrow> stack \<Rightarrow> object result" where
  "top b s =
     rbind (boost_assert b (items s \<noteq> [])) (\<lambda>_.
     rbind (defined_if (items s \<noteq> [])) (\<lambda>_. Inr (last (items s))))"

definition remove :: "build \<Rightarrow> stack \<Rightarrow> (object \<times> stack) result" where
  "remove b s =
     rbind (defined_if (items s \<noteq> [])) (\<lambda>_.
     rbind (pop b s) (\<lambda>s'. Inr (last (items s), s')))"

definition top_value :: "build \<Rightarrow> (object \<Rightarrow> 'a option) \<Rightarrow> 'a \<Rightarrow> stack \<Rightarrow> 'a result" where
  "top_value b cast def s =
     rbind (top b s) (\<lambda>obj.
     rbind (boost_assert b (cast obj \<noteq> None)) (\<lambda>_. Inr (value_cast cast obj def)))"

definition pop_value :: "build \<Rightarrow> (object \<Rightarrow> 'a option) \<Rightarrow> 'a \<Rightarrow> stack \<Rightarrow> ('a \<times> stack) result" where
  "pop_value b cast def s =
     rbind (top_value b cast def s) (\<lambda>v. rbind (pop b s) (\<lambda>s'. Inr (v, s')))"

text \<open>The loops \<^verbatim>\<open>while (size-- != 0)\<close> that pop values or objects; the first popped comes first.\<close>

fun pop_values :: "build \<Rightarrow> (object \<Rightarrow> 'a option) \<Rightarrow> 'a \<Rightarrow> nat \<Rightarrow> stack \<Rightarrow> ('a list \<times> stack) result" where
  "pop_values b cast def 0 s = Inr ([], s)"
| "pop_values b cast def (Suc n) s =
     rbind (pop_value b cast def s) (\<lambda>(v, s').
     rbind (pop_values b cast def n s') (\<lambda>(vs, s''). Inr (v # vs, s'')))"

fun pop_objects :: "build \<Rightarrow> nat \<Rightarrow> stack \<Rightarrow> (object list \<times> stack) result" where
  "pop_objects b 0 s = Inr ([], s)"
| "pop_objects b (Suc n) s =
     rbind (top b s) (\<lambda>obj.
     rbind (pop b s) (\<lambda>s'.
     rbind (pop_objects b n s') (\<lambda>(objs, s''). Inr (obj # objs, s''))))"

definition esba :: "stack \<Rightarrow> stack" where
  "esba s = push (OU64 (bp s)) (s\<lparr>bp := word_of_nat (length (items s))\<rparr>)"

definition saved_bp :: "build \<Rightarrow> stack \<Rightarrow> u64 result" where
  "saved_bp b s =
     rbind (boost_assert b (unat (bp s) < length (items s))) (\<lambda>_.
     rbind (throw_unless (unat (bp s) < length (items s))) (\<lambda>_.
     Inr (value_cast cast_u64 (items s ! unat (bp s)) 0)))"

definition reba :: "build \<Rightarrow> stack \<Rightarrow> stack result" where
  "reba b s =
     (let old = bp s in
      rbind (saved_bp b s) (\<lambda>new.
      rbind (boost_assert b (old < new)) (\<lambda>_.
      rbind (boost_assert b (length (items s) > unat new)) (\<lambda>_.
      Inr (s\<lparr>items := take (unat old) (items s), bp := new\<rparr>)))))"

definition pull :: "build \<Rightarrow> stack \<Rightarrow> stack result" where
  "pull b s =
     (let old = bp s in
      rbind (saved_bp b s) (\<lambda>new.
      rbind (boost_assert b (length (items s) > unat old)) (\<lambda>_.
      Inr (s\<lparr>items := take (unat old) (items s) @ drop (Suc (unat old)) (items s), bp := new\<rparr>))))"

definition make_attr :: "build \<Rightarrow> stack \<Rightarrow> stack result" where
  "make_attr b s =
     rbind (boost_assert b (length (items s) > 1)) (\<lambda>_.
     rbind (pop_value b cast_u64 0 s) (\<lambda>(idx, s1).
     rbind (remove b s1) (\<lambda>(obj, s2). Inr (push (OAttr idx obj) s2))))"

definition make_param :: "build \<Rightarrow> stack \<Rightarrow> stack result" where
  "make_param b s =
     rbind (boost_assert b (length (items s) > 1)) (\<lambda>_.
     rbind (pop_value b cast_string [] s) (\<lambda>(key, s1).
     rbind (remove b s1) (\<lambda>(obj, s2). Inr (push (OParam key obj) s2))))"

definition make_prop :: "build \<Rightarrow> stack \<Rightarrow> stack result" where
  "make_prop b s =
     rbind (boost_assert b (length (items s) > 1)) (\<lambda>_.
     rbind (pop_value b cast_obis (Obis 0 0 0 0 0 0) s) (\<lambda>(key, s1).
     rbind (remove b s1) (\<lambda>(obj, s2). Inr (push (OProp key obj) s2))))"

text \<open>\<^verbatim>\<open>map.insert(...)\<close> in a loop: the first entry for a key stays.\<close>

definition insert_all :: "('k::linorder \<times> object) list \<Rightarrow> ('k \<times> object) list" where
  "insert_all ps = fold (\<lambda>(k, v). map_emplace k v) ps []"

definition pop_count :: "build \<Rightarrow> stack \<Rightarrow> (nat \<times> stack) result" where
  "pop_count b s =
     rbind (top_value b cast_u64 0 s) (\<lambda>size.
     rbind (boost_assert b (unat size < length (items s))) (\<lambda>_.
     rbind (pop b s) (\<lambda>s'. Inr (unat size, s'))))"

definition make_attr_map :: "build \<Rightarrow> stack \<Rightarrow> stack result" where
  "make_attr_map b s =
     rbind (boost_assert b (length (items s) > 1)) (\<lambda>_.
     rbind (pop_count b s) (\<lambda>(n, s1).
     rbind (pop_values b cast_attr (0, ONull) n s1) (\<lambda>(ps, s2).
     Inr (push (OAttrMap (insert_all ps)) s2))))"

definition make_param_map :: "build \<Rightarrow> stack \<Rightarrow> stack result" where
  "make_param_map b s =
     rbind (boost_assert b (length (items s) > 0)) (\<lambda>_.
     rbind (pop_count b s) (\<lambda>(n, s1).
     rbind (pop_values b cast_param ([], ONull) n s1) (\<lambda>(ps, s2).
     Inr (push (OParamMap (insert_all ps)) s2))))"

definition make_prop_map :: "build \<Rightarrow> stack \<Rightarrow> stack result" where
  "make_prop_map b s =
     rbind (boost_assert b (length (items s) > 0)) (\<lambda>_.
     rbind (pop_count b s) (\<lambda>(n, s1).
     rbind (pop_values b cast_prop (Obis 0 0 0 0 0 0, ONull) n s1) (\<lambda>(ps, s2).
     Inr (push (OPropMap (insert_all ps)) s2))))"

definition make_tuple :: "build \<Rightarrow> stack \<Rightarrow> stack result" where
  "make_tuple b s =
     rbind (boost_assert b (items s \<noteq> [])) (\<lambda>_.
     rbind (pop_count b s) (\<lambda>(n, s1).
     rbind (pop_objects b n s1) (\<lambda>(objs, s2). Inr (push (OTuple objs) s2))))"

text \<open>\<^verbatim>\<open>vec.reserve(size)\<close> throws if the vector cannot be so large.\<close>

definition make_vector :: "build \<Rightarrow> nat \<Rightarrow> stack \<Rightarrow> stack result" where
  "make_vector b max_vec s =
     rbind (boost_assert b (items s \<noteq> [])) (\<lambda>_.
     rbind (pop_count b s) (\<lambda>(n, s1).
     rbind (throw_unless (n \<le> max_vec)) (\<lambda>_.
     rbind (pop_objects b n s1) (\<lambda>(objs, s2). Inr (push (OVector objs) s2)))))"

definition make_deque :: "build \<Rightarrow> stack \<Rightarrow> stack result" where
  "make_deque b s =
     rbind (boost_assert b (items s \<noteq> [])) (\<lambda>_.
     rbind (pop_count b s) (\<lambda>(n, s1).
     rbind (pop_objects b n s1) (\<lambda>(objs, s2). Inr (push (ODeque objs) s2))))"

definition make_prg :: "build \<Rightarrow> stack \<Rightarrow> stack result" where
  "make_prg b s =
     rbind (boost_assert b (items s \<noteq> [])) (\<lambda>_.
     rbind (pop_count b s) (\<lambda>(n, s1).
     rbind (pop_values b cast_buffer [] n s1) (\<lambda>(bufs, s2). Inr (push (OPrg bufs) s2))))"

definition frm :: "build \<Rightarrow> stack \<Rightarrow> stack result" where
  "frm b s =
     rbind (boost_assert b (length (items s) > unat (bp s))) (\<lambda>_.
     Inr (push (OU64 (word_of_nat (length (items s)) - bp s - 1)) s))"

definition disassemble :: "build \<Rightarrow> object list \<Rightarrow> stack \<Rightarrow> stack result" where
  "disassemble b objs s =
     rbind (pop b s) (\<lambda>s'.
     Inr (push (OU64 (word_of_nat (length objs))) (s'\<lparr>items := items s' @ objs\<rparr>)))"

definition split_top :: "build \<Rightarrow> stack \<Rightarrow> stack result" where
  "split_top b s =
     rbind (top b s) (\<lambda>obj.
       case obj of
         OTuple v \<Rightarrow> disassemble b v s
       | OVector v \<Rightarrow> disassemble b v s
       | ODeque v \<Rightarrow> disassemble b v s
       | _ \<Rightarrow> rbind (boost_assert b False) (\<lambda>_. Inr s))"

text \<open>
  The operand of \<^verbatim>\<open>ASSERT_TYPE\<close> is a \<^verbatim>\<open>type_code\<close>, which is not a type of \<^verbatim>\<open>tag.hpp\<close>: no object of the model
  hosts one.
\<close>

definition assert_type :: "build \<Rightarrow> stack \<Rightarrow> stack result" where
  "assert_type b s =
     rbind (boost_assert b (length (items s) > 1)) (\<lambda>_.
     rbind (pop_value b (\<lambda>_. None) (0 :: u16) s) (\<lambda>(tag, s').
     rbind (defined_if (b = Debug \<longrightarrow> items s' \<noteq> [])) (\<lambda>_.
     rbind (boost_assert b (type_tag (last (items s')) = tag)) (\<lambda>_. Inr s'))))"

definition assert_value :: "build \<Rightarrow> (object \<Rightarrow> u64) \<Rightarrow> stack \<Rightarrow> stack result" where
  "assert_value b hash s =
     rbind (boost_assert b (length (items s) > 1)) (\<lambda>_.
     rbind (remove b s) (\<lambda>(obj, s').
     rbind (boost_assert b (hash obj = hash (last (items s')))) (\<lambda>_. Inr s')))"

definition swap_top :: "build \<Rightarrow> stack \<Rightarrow> stack result" where
  "swap_top b s =
     rbind (boost_assert b (length (items s) > 1)) (\<lambda>_.
     rbind (defined_if (length (items s) > 1)) (\<lambda>_.
     (let xs = butlast (butlast (items s)) in
      Inr (s\<lparr>items := xs @ [last (items s), last (butlast (items s))]\<rparr>))))"

definition cast_tuple :: "object \<Rightarrow> object list option" where
  "cast_tuple obj = (case obj of OTuple v \<Rightarrow> Some v | _ \<Rightarrow> None)"

definition cast_deque :: "object \<Rightarrow> object list option" where
  "cast_deque obj = (case obj of ODeque v \<Rightarrow> Some v | _ \<Rightarrow> None)"

definition cast_uuid :: "object \<Rightarrow> byte list option" where
  "cast_uuid obj = (case obj of OOctets Uuid v \<Rightarrow> Some v | _ \<Rightarrow> None)"

definition invoke :: "build \<Rightarrow> stack \<Rightarrow> ((byte list \<times> object list) \<times> stack) result" where
  "invoke b s =
     rbind (boost_assert b (length (items s) > 1)) (\<lambda>_.
     rbind (pop_value b cast_string [] s) (\<lambda>(name, s1).
     rbind (make_tuple b s1) (\<lambda>s2.
     rbind (pop_value b cast_tuple [] s2) (\<lambda>(tpl, s3). Inr ((name, rev tpl), s3)))))"

definition nil_uuid :: "byte list" where
  "nil_uuid = replicate 16 0"

definition forward_tag :: "build \<Rightarrow> stack \<Rightarrow> (byte list \<times> stack) result" where
  "forward_tag b s =
     rbind (top_value b cast_uuid nil_uuid s) (\<lambda>tag.
     rbind (boost_assert b (tag \<noteq> nil_uuid)) (\<lambda>_.
     rbind (pop b s) (\<lambda>s'. Inr (tag, s'))))"

definition invoke_r :: "build \<Rightarrow> stack \<Rightarrow> ((u64 \<times> object list) \<times> stack) result" where
  "invoke_r b s =
     rbind (boost_assert b (length (items s) > 1)) (\<lambda>_.
     rbind (top_value b cast_u64 0 s) (\<lambda>idx.
     rbind (boost_assert b (idx \<noteq> - 1)) (\<lambda>_.
     rbind (pop b s) (\<lambda>s1.
     rbind (make_tuple b s1) (\<lambda>s2.
     rbind (top_value b cast_tuple [] s2) (\<lambda>tpl.
     rbind (pop b s2) (\<lambda>s3. Inr ((idx, rev tpl), s3))))))))"

section \<open>The executor: context.cpp, vm.h, vm.cpp\<close>

text \<open>
  What the machine gets from outside: the hash of objects, clock and ids, its channel (the UUID it is
  named by, and the table of slot names), and the external functions, which come after the five
  built-in slots.  A function gets the argument tuple and gives a value or, if it is void, none.
\<close>

record venv =
  v_build :: build
  v_max_vec :: nat
  v_hash :: "object \<Rightarrow> u64"
  v_now :: u64
  v_pid :: u32
  v_tid :: u64
  v_channel :: "byte list option"
  v_lookup :: "byte list \<Rightarrow> u64"
  v_functions :: "(object list \<Rightarrow> object option result) list"

record vm =
  code :: memory
  stk :: stack

text \<open>Messages to channels: its own, another VM's (looked up by the mesh), and a new slot name.\<close>

datatype event =
    Dispatch "byte list" "object list"
  | Forward "byte list" "byte list" "object list"
  | SetChannelName "byte list" u64

definition load :: "object \<Rightarrow> vm \<Rightarrow> vm" where
  "load obj v = v\<lparr>code := (code v)\<lparr>mem := mem (code v) @ [obj]\<rparr>\<rparr>"

definition load_deque :: "object list \<Rightarrow> vm \<Rightarrow> vm" where
  "load_deque deq v = v\<lparr>code := (code v)\<lparr>mem := mem (code v) @ deq\<rparr>\<rparr>"

definition get_channel_tag :: "venv \<Rightarrow> byte list" where
  "get_channel_tag e = (case v_channel e of Some tag \<Rightarrow> tag | None \<Rightarrow> nil_uuid)"

definition resolve :: "venv \<Rightarrow> stack \<Rightarrow> stack result" where
  "resolve e s =
     rbind (pop_value (v_build e) cast_string [] s) (\<lambda>(name, s').
     Inr (if v_channel e = None then s' else push (OU64 (v_lookup e name)) s'))"

text \<open>The op codes that concern the stack alone; \<open>None\<close> for the others.\<close>

definition stack_op :: "venv \<Rightarrow> op \<Rightarrow> stack \<Rightarrow> stack result option" where
  "stack_op e c s =
     (let b = v_build e in
      case c of
        NOOP \<Rightarrow> Some (Inr s)
      | TIDY \<Rightarrow> Some (Inr s)
      | NOW \<Rightarrow> Some (Inr (push (OChrono TimePoint (v_now e)) s))
      | PID \<Rightarrow> Some (Inr (push (OPid (v_pid e)) s))
      | TID \<Rightarrow> Some (Inr (push (OU64 (v_tid e)) s))
      | IDENT \<Rightarrow> Some (Inr (push (OOctets Uuid (get_channel_tag e)) s))
      | RESOLVE \<Rightarrow> Some (resolve e s)
      | MAKE_ATTR \<Rightarrow> Some (make_attr b s)
      | MAKE_PARAM \<Rightarrow> Some (make_param b s)
      | MAKE_PROP \<Rightarrow> Some (make_prop b s)
      | MAKE_ATTR_MAP \<Rightarrow> Some (make_attr_map b s)
      | MAKE_PARAM_MAP \<Rightarrow> Some (make_param_map b s)
      | MAKE_PROP_MAP \<Rightarrow> Some (make_prop_map b s)
      | MAKE_TUPLE \<Rightarrow> Some (make_tuple b s)
      | MAKE_VECTOR \<Rightarrow> Some (make_vector b (v_max_vec e) s)
      | MAKE_DEQUE \<Rightarrow> Some (make_deque b s)
      | MAKE_PRG \<Rightarrow> Some (make_prg b s)
      | SPLIT \<Rightarrow> Some (split_top b s)
      | ASSERT_TYPE \<Rightarrow> Some (assert_type b s)
      | ASSERT_VALUE \<Rightarrow> Some (assert_value b (v_hash e) s)
      | ESBA \<Rightarrow> Some (Inr (esba s))
      | REBA \<Rightarrow> Some (reba b s)
      | PULL \<Rightarrow> Some (pull b s)
      | FRM \<Rightarrow> Some (frm b s)
      | HALT \<Rightarrow> Some (Inr s)
      | _ \<Rightarrow> None)"

text \<open>Outcome of an execution: the messages sent and the new state; \<open>None\<close> if the fuel ran out.\<close>

type_synonym outcome = "(event list \<times> vm result) option"

definition stay :: "vm \<Rightarrow> stack result \<Rightarrow> outcome" where
  "stay v r = Some ([], rbind r (\<lambda>s. Inr (v\<lparr>stk := s\<rparr>)))"

definition exec_invoke :: "venv \<Rightarrow> vm \<Rightarrow> outcome" where
  "exec_invoke e v =
     (case invoke (v_build e) (stk v) of
        Inl f \<Rightarrow> Some ([], Inl f)
      | Inr ((slot, msg), s) \<Rightarrow>
          Some (if v_channel e = None then [] else [Dispatch slot msg], Inr (v\<lparr>stk := s\<rparr>)))"

definition exec_forward :: "venv \<Rightarrow> vm \<Rightarrow> outcome" where
  "exec_forward e v =
     (case rbind (forward_tag (v_build e) (stk v)) (\<lambda>(tag, s).
           rbind (invoke (v_build e) s) (\<lambda>(m, s'). Inr (tag, m, s'))) of
        Inl f \<Rightarrow> Some ([], Inl f)
      | Inr (tag, (slot, msg), s) \<Rightarrow>
          Some (if get_channel_tag e = tag
                then (if v_channel e = None then [] else [Dispatch slot msg])
                else [Forward tag slot msg], Inr (v\<lparr>stk := s\<rparr>)))"

text \<open>
  \<^verbatim>\<open>function_call\<close> converts the argument tuple with \<^verbatim>\<open>tuple_cast\<close>: a wrong number of arguments is asserted,
  or else gives default arguments.
\<close>

definition args1 :: "build \<Rightarrow> (object \<Rightarrow> 'a option) \<Rightarrow> 'a \<Rightarrow> object list \<Rightarrow> 'a result" where
  "args1 b cast def tpl =
     rbind (boost_assert b (length tpl = 1)) (\<lambda>_.
     Inr (if length tpl = 1 then value_cast cast (tpl ! 0) def else def))"

definition args2 :: "build \<Rightarrow> (object \<Rightarrow> 'a option) \<Rightarrow> 'a \<Rightarrow> (object \<Rightarrow> 'b option) \<Rightarrow> 'b \<Rightarrow> object list \<Rightarrow>
    ('a \<times> 'b) result" where
  "args2 b cast1 def1 cast2 def2 tpl =
     rbind (boost_assert b (length tpl = 2)) (\<lambda>_.
     Inr (if length tpl = 2 then (value_cast cast1 (tpl ! 0) def1, value_cast cast2 (tpl ! 1) def2)
          else (def1, def2)))"

text \<open>
  The slots of the channel: 0 loads an object, 1 a deque, 2 runs, 3 names an external function, 4 stops;
  the external functions follow.
\<close>

definition offset :: nat where "offset = 5"

definition set_channel_name :: "venv \<Rightarrow> byte list \<Rightarrow> u64 \<Rightarrow> event list" where
  "set_channel_name e name idx =
     (if v_channel e = None then [] else [SetChannelName name (word_of_nat offset + idx)])"

definition builtin_slot :: "(vm \<Rightarrow> outcome) \<Rightarrow> venv \<Rightarrow> nat \<Rightarrow> object list \<Rightarrow> vm \<Rightarrow> outcome" where
  "builtin_slot rerun e slot msg v =
     (let b = v_build e in
      if slot = 0 then Some ([], rbind (args1 b Some ONull msg) (\<lambda>obj. Inr (load obj v)))
      else if slot = 1 then Some ([], rbind (args1 b cast_deque [] msg) (\<lambda>deq. Inr (load_deque deq v)))
      else if slot = 2 then
        (case boost_assert b (msg = []) of Inl f \<Rightarrow> Some ([], Inl f) | Inr _ \<Rightarrow> rerun v)
      else if slot = 3 then
        (case args2 b cast_string [] cast_u64 0 msg of
           Inl f \<Rightarrow> Some ([], Inl f)
         | Inr (name, idx) \<Rightarrow> Some (set_channel_name e name idx, Inr v))
      else Some ([], rbind (boost_assert b (length msg = 1)) (\<lambda>_. Inr v)))"

text \<open>
  \<^verbatim>\<open>invoke_r_helper\<close> counts the slots down to 0, where it does not compare any more: an unknown slot is
  slot 0.  A void function pushes nothing, but slot 0 pushes a null object.
\<close>

definition exec_invoke_r :: "(vm \<Rightarrow> outcome) \<Rightarrow> venv \<Rightarrow> vm \<Rightarrow> outcome" where
  "exec_invoke_r rerun e v =
     (case invoke_r (v_build e) (stk v) of
        Inl f \<Rightarrow> Some ([], Inl f)
      | Inr ((idx, msg), s) \<Rightarrow>
          (let v' = v\<lparr>stk := s\<rparr>; slot = unat idx in
           if offset \<le> slot \<and> slot < offset + length (v_functions e) then
             Some ([], rbind ((v_functions e ! (slot - offset)) msg) (\<lambda>r.
               Inr (case r of Some obj \<Rightarrow> v'\<lparr>stk := push obj s\<rparr> | None \<Rightarrow> v')))
           else if 0 < slot \<and> slot < offset then builtin_slot rerun e slot msg v'
           else Some ([], rbind (args1 (v_build e) Some ONull msg) (\<lambda>obj.
                  Inr ((load obj v')\<lparr>stk := push ONull s\<rparr>)))))"

definition exec_op :: "(vm \<Rightarrow> outcome) \<Rightarrow> venv \<Rightarrow> u16 \<Rightarrow> vm \<Rightarrow> outcome" where
  "exec_op rerun e w v =
     (case op_of_code w of
        None \<Rightarrow> Some ([], rbind (boost_assert (v_build e) False) (\<lambda>_. Inr v))
      | Some c \<Rightarrow>
          (case stack_op e c (stk v) of
             Some r \<Rightarrow> stay v r
           | None \<Rightarrow>
               (case c of
                  INVOKE \<Rightarrow> exec_invoke e v
                | INVOKE_R \<Rightarrow> exec_invoke_r rerun e v
                | FORWARD \<Rightarrow> exec_forward e v
                | _ \<Rightarrow> Some ([], rbind (boost_assert (v_build e) False) (\<lambda>_. Inr v)))))"

definition exec :: "(vm \<Rightarrow> outcome) \<Rightarrow> venv \<Rightarrow> object \<Rightarrow> vm \<Rightarrow> outcome" where
  "exec rerun e obj v =
     (case obj of OOp w \<Rightarrow> exec_op rerun e w v | _ \<Rightarrow> Some ([], Inr (v\<lparr>stk := push obj (stk v)\<rparr>)))"

definition next_instruction :: "venv \<Rightarrow> vm \<Rightarrow> vm result" where
  "next_instruction e v = rbind (step (v_build e) (code v)) (\<lambda>(_, m). Inr (v\<lparr>code := m\<rparr>))"

text \<open>\<^verbatim>\<open>run\<close>, with fuel: a slot of its own can run it again inside.\<close>

fun run :: "nat \<Rightarrow> venv \<Rightarrow> vm \<Rightarrow> outcome" where
  "run 0 e v = None"
| "run (Suc n) e v =
     (if has_more (code v) then
        (case exec (run n e) e (mem (code v) ! pc (code v)) v of
           None \<Rightarrow> None
         | Some (evs, Inl f) \<Rightarrow> Some (evs, Inl f)
         | Some (evs, Inr v') \<Rightarrow>
             (case next_instruction e v' of
                Inl f \<Rightarrow> Some (evs, Inl f)
              | Inr v'' \<Rightarrow> map_option (emit evs) (run n e v'')))
      else Some ([], Inr v))"

text \<open>A message that arrives at the VM's channel, and the messages the proxy sends to load a program.\<close>

definition receive :: "nat \<Rightarrow> venv \<Rightarrow> nat \<Rightarrow> object list \<Rightarrow> vm \<Rightarrow> outcome" where
  "receive fuel e slot msg v = builtin_slot (run fuel e) e slot msg v"

definition proxy_load :: "object \<Rightarrow> (nat \<times> object list) list" where
  "proxy_load obj = (0, [obj]) # (case obj of OOp w \<Rightarrow> [(2, [])] | _ \<Rightarrow> [])"

definition proxy_load_deque :: "object list \<Rightarrow> (nat \<times> object list) list" where
  "proxy_load_deque deq = [(1, [ODeque deq])]"

fun receive_all :: "nat \<Rightarrow> venv \<Rightarrow> (nat \<times> object list) list \<Rightarrow> vm \<Rightarrow> outcome" where
  "receive_all fuel e [] v = Some ([], Inr v)"
| "receive_all fuel e ((slot, msg) # ms) v =
     (case receive fuel e slot msg v of
        None \<Rightarrow> None
      | Some (evs, Inl f) \<Rightarrow> Some (evs, Inl f)
      | Some (evs, Inr v') \<Rightarrow> map_option (emit evs) (receive_all fuel e ms v'))"

end
