(* ===== verification/Program.thy ===== *)
theory Program
  imports Vm Binary
begin

text \<open>
  The virtual machine at work on programs: what the constructors build, that the programs the binary serializer
  writes rebuild their object, that running ends, the stack frames, calls of functions through the slots, and the
  messages by which a proxy loads a program.
\<close>

section \<open>Stack lemmas\<close>

primrec push_all :: "object list \<Rightarrow> stack \<Rightarrow> stack" where
  "push_all [] s = s"
| "push_all (x # xs) s = push_all xs (push x s)"

lemma push_all_append: "push_all (xs @ ys) s = push_all ys (push_all xs s)"
  by (induction xs arbitrary: s) simp_all

lemma items_push [simp]: "items (push x s) = items s @ [x]" "items (push_all ys s) = items s @ ys"
  by (simp add: push_def, induction ys arbitrary: s) (simp_all add: push_def)

lemma bp_push [simp]: "bp (push x s) = bp s" "bp (push_all ys s) = bp s"
  by (simp add: push_def, induction ys arbitrary: s) (simp_all add: push_def)

lemma pop_push [simp]: "pop b (push x s) = Inr s"
  by (simp add: pop_def push_def)

lemma top_push [simp]: "top b (push x s) = Inr x"
  by (simp add: top_def)

lemma remove_push [simp]: "remove b (push x s) = Inr (x, s)"
  by (simp add: remove_def)

lemma top_value_push: "cast x = Some v \<Longrightarrow> top_value b cast def (push x s) = Inr v"
  by (simp add: top_value_def value_cast_def)

lemma pop_value_push: "cast x = Some v \<Longrightarrow> pop_value b cast def (push x s) = Inr (v, s)"
  by (simp add: pop_value_def top_value_push)

lemma pop_objects_push_all:
  "pop_objects b (length ys) (push_all ys s) = Inr (rev ys, s)"
proof (induction ys arbitrary: s rule: rev_induct)
  case (snoc y ys)
  then show ?case by (simp add: push_all_append)
qed simp

lemma pop_values_push_all:
  "\<forall>y \<in> set ys. cast y \<noteq> None \<Longrightarrow>
   pop_values b cast def (length ys) (push_all ys s) = Inr (rev (map (the \<circ> cast) ys), s)"
proof (induction ys arbitrary: s rule: rev_induct)
  case (snoc y ys)
  then obtain v where "cast y = Some v" by auto
  then show ?case using snoc by (simp add: push_all_append pop_value_push comp_def)
qed simp

lemma pop_count_push:
  "n < length (items s) + 1 \<Longrightarrow> n < 2 ^ 64 \<Longrightarrow> pop_count b (push (OU64 (word_of_nat n)) s) = Inr (n, s)"
  by (simp add: pop_count_def top_value_push cast_u64_def unat_of_nat)

section \<open>What the constructors build\<close>

lemma make_pairs_push:
  "make_attr b (push (OU64 k) (push x s)) = Inr (push (OAttr k x) s)"
  "make_param b (push (OString n) (push x s)) = Inr (push (OParam n x) s)"
  "make_prop b (push (OObis c) (push x s)) = Inr (push (OProp c x) s)"
  by (simp_all add: make_attr_def make_param_def make_prop_def pop_value_push
      cast_u64_def cast_string_def cast_obis_def)

lemma make_seq_push:
  assumes "n = length ys" "n < 2 ^ 64"
  shows "make_tuple b (push (OU64 (word_of_nat n)) (push_all ys s)) = Inr (push (OTuple (rev ys)) s)"
    and "make_deque b (push (OU64 (word_of_nat n)) (push_all ys s)) = Inr (push (ODeque (rev ys)) s)"
    and "n \<le> max_vec \<Longrightarrow>
      make_vector b max_vec (push (OU64 (word_of_nat n)) (push_all ys s)) = Inr (push (OVector (rev ys)) s)"
    and "\<forall>y \<in> set ys. cast_buffer y \<noteq> None \<Longrightarrow>
      make_prg b (push (OU64 (word_of_nat n)) (push_all ys s)) =
        Inr (push (OPrg (rev (map (the \<circ> cast_buffer) ys))) s)"
  using assms
  by (simp_all add: make_tuple_def make_deque_def make_vector_def make_prg_def
      pop_count_push pop_objects_push_all pop_values_push_all)

lemma insert_all_rev: "sorted_keys m \<Longrightarrow> insert_all (rev m) = m"
  using emplace_all_rev [of m] by (simp add: insert_all_def std.emplace_all_def)

lemma make_map_push:
  assumes "n < 2 ^ 64" "n = length am" "sorted_keys am" "am \<noteq> []"
  shows "make_attr_map b (push (OU64 (word_of_nat n)) (push_all (map (\<lambda>p. OAttr (fst p) (snd p)) am) s)) =
      Inr (push (OAttrMap am) s)"
proof -
  let ?ys = "map (\<lambda>p. OAttr (fst p) (snd p)) am"
  have "pop_values b cast_attr (0, ONull) (length ?ys) (push_all ?ys s) = Inr (rev am, s)"
    by (subst pop_values_push_all) (auto simp: cast_attr_def comp_def)
  with assms show ?thesis
    by (simp add: make_attr_map_def pop_count_push insert_all_rev)
qed

lemma make_param_map_push:
  assumes "n < 2 ^ 64" "n = length pm" "sorted_keys pm"
  shows "make_param_map b (push (OU64 (word_of_nat n)) (push_all (map (\<lambda>p. OParam (fst p) (snd p)) pm) s)) =
      Inr (push (OParamMap pm) s)"
proof -
  let ?ys = "map (\<lambda>p. OParam (fst p) (snd p)) pm"
  have "pop_values b cast_param ([], ONull) (length ?ys) (push_all ?ys s) = Inr (rev pm, s)"
    by (subst pop_values_push_all) (auto simp: cast_param_def comp_def)
  with assms show ?thesis
    by (simp add: make_param_map_def pop_count_push insert_all_rev)
qed

lemma make_prop_map_push:
  assumes "n < 2 ^ 64" "n = length om" "sorted_keys om"
  shows "make_prop_map b (push (OU64 (word_of_nat n)) (push_all (map (\<lambda>p. OProp (fst p) (snd p)) om) s)) =
      Inr (push (OPropMap om) s)"
proof -
  let ?ys = "map (\<lambda>p. OProp (fst p) (snd p)) om"
  have "pop_values b cast_prop (Obis 0 0 0 0 0 0, ONull) (length ?ys) (push_all ?ys s) = Inr (rev om, s)"
    by (subst pop_values_push_all) (auto simp: cast_prop_def comp_def)
  with assms show ?thesis
    by (simp add: make_prop_map_def pop_count_push insert_all_rev)
qed

section \<open>Programs of values and constructors\<close>

text \<open>The part of the machine that works on the stack alone, over a list of instructions.\<close>

definition exec_stack :: "venv \<Rightarrow> object \<Rightarrow> stack \<Rightarrow> stack result option" where
  "exec_stack e x s =
     (case x of
        OOp w \<Rightarrow> (case op_of_code w of Some c \<Rightarrow> stack_op e c s | None \<Rightarrow> None)
      | _ \<Rightarrow> Some (Inr (push x s)))"

lemma exec_stack_instruction [simp]: "exec_stack e (instruction c) s = stack_op e c s"
  by (simp add: exec_stack_def instruction_def)

lemma exec_stack_values [simp]:
  "exec_stack e (OU64 w) s = Some (Inr (push (OU64 w) s))"
  "exec_stack e (OString n) s = Some (Inr (push (OString n) s))"
  "exec_stack e (OObis c) s = Some (Inr (push (OObis c) s))"
  "exec_stack e (OBuffer v) s = Some (Inr (push (OBuffer v) s))"
  by (simp_all add: exec_stack_def)

fun eval :: "venv \<Rightarrow> object list \<Rightarrow> stack \<Rightarrow> stack option" where
  "eval e [] s = Some s"
| "eval e (x # xs) s = (case exec_stack e x s of Some (Inr s') \<Rightarrow> eval e xs s' | _ \<Rightarrow> None)"

text \<open>
  An object is loadable if it holds no op codes (they would be executed) and its containers are
  no larger than their counts and vectors can say.  (An empty attribute map is not: see below.)
\<close>

fun loadable :: "nat \<Rightarrow> object \<Rightarrow> bool" where
  "loadable n (OOp w) \<longleftrightarrow> False"
| "loadable n (OTuple v) \<longleftrightarrow> length v < 2 ^ 64 \<and> (\<forall>x \<in> set v. loadable n x)"
| "loadable n (OVector v) \<longleftrightarrow> length v \<le> n \<and> length v < 2 ^ 64 \<and> (\<forall>x \<in> set v. loadable n x)"
| "loadable n (ODeque v) \<longleftrightarrow> length v < 2 ^ 64 \<and> (\<forall>x \<in> set v. loadable n x)"
| "loadable n (OAttrMap m) \<longleftrightarrow> m \<noteq> [] \<and> length m < 2 ^ 64 \<and> (\<forall>p \<in> set m. loadable n (snd p))"
| "loadable n (OParamMap m) \<longleftrightarrow> length m < 2 ^ 64 \<and> (\<forall>p \<in> set m. loadable n (snd p))"
| "loadable n (OPropMap m) \<longleftrightarrow> length m < 2 ^ 64 \<and> (\<forall>p \<in> set m. loadable n (snd p))"
| "loadable n (OAttr k v) \<longleftrightarrow> loadable n v"
| "loadable n (OParam k v) \<longleftrightarrow> loadable n v"
| "loadable n (OProp k v) \<longleftrightarrow> loadable n v"
| "loadable n (OPrg v) \<longleftrightarrow> length v < 2 ^ 64"
| "loadable n _ \<longleftrightarrow> True"

text \<open>
  What comes out of the machine: every sequence is back to front, since the constructors take the
  elements from the top of the stack; maps keep their entries.
\<close>

fun mirror :: "object \<Rightarrow> object" where
  "mirror (OTuple v) = OTuple (rev (map mirror v))"
| "mirror (OVector v) = OVector (rev (map mirror v))"
| "mirror (ODeque v) = ODeque (rev (map mirror v))"
| "mirror (OAttrMap m) = OAttrMap (map (\<lambda>p. (fst p, mirror (snd p))) m)"
| "mirror (OParamMap m) = OParamMap (map (\<lambda>p. (fst p, mirror (snd p))) m)"
| "mirror (OPropMap m) = OPropMap (map (\<lambda>p. (fst p, mirror (snd p))) m)"
| "mirror (OAttr k v) = OAttr k (mirror v)"
| "mirror (OParam k v) = OParam k (mirror v)"
| "mirror (OProp k v) = OProp k (mirror v)"
| "mirror (OPrg v) = OPrg (rev v)"
| "mirror obj = obj"

lemma mirror_mirror: "mirror (mirror obj) = obj"
  by (induction obj rule: mirror.induct) (simp_all add: rev_map comp_def cong: map_cong)

lemma loadable_mirror: "loadable n obj \<Longrightarrow> loadable n (mirror obj)"
  by (induction obj rule: mirror.induct) auto

lemma sorted_keys_map: "sorted_keys (map (\<lambda>p. (fst p, f (snd p))) m) = sorted_keys m"
  by (simp add: sorted_keys_def comp_def)

lemma wf_object_mirror: "wf_object obj \<Longrightarrow> wf_object (mirror obj)"
  by (induction obj rule: mirror.induct) (auto simp: wf_map_def sorted_keys_map)

lemma list_all_concat: "list_all P (concat xss) \<longleftrightarrow> (\<forall>xs \<in> set xss. list_all P xs)"
  by (induction xss) auto

lemma program_of_mirror:
  "list_all P (program_of (mirror obj)) = list_all P (program_of obj)" "length (program_of (mirror obj)) = length (program_of obj)"
  by (induction obj rule: mirror.induct)
    (simp_all add: list_all_concat length_concat rev_map [symmetric] comp_def sum_list_rev ball_Un cong: map_cong)

lemma eval_concat:
  assumes "\<And>x ys s. x \<in> set v \<Longrightarrow> eval e (f x @ ys) s = eval e ys (push (g x) s)"
  shows "eval e (concat (map f v) @ xs) s = eval e xs (push_all (map g v) s)"
  using assms by (induction v arbitrary: s) simp_all

lemma eval_buffers: "eval e (map OBuffer v @ xs) s = eval e xs (push_all (map OBuffer v) s)"
  by (induction v arbitrary: s) (simp_all add: exec_stack_def)

lemma eval_pair:
  assumes "\<And>xs s. eval e (program_of v @ xs) s = eval e xs (push v' s)"
  shows "eval e ((program_of v @ [OU64 k, instruction MAKE_ATTR]) @ xs) s = eval e xs (push (OAttr k v') s)"
    and "eval e ((program_of v @ [OString n, instruction MAKE_PARAM]) @ xs) s = eval e xs (push (OParam n v') s)"
    and "eval e ((program_of v @ [OObis c, instruction MAKE_PROP]) @ xs) s = eval e xs (push (OProp c v') s)"
  using assms by (simp_all add: stack_op_def make_pairs_push)

lemma eval_program_of:
  "loadable (v_max_vec e) obj \<Longrightarrow> wf_object obj \<Longrightarrow>
   eval e (program_of obj @ xs) s = eval e xs (push (mirror obj) s)"
proof (induction obj arbitrary: xs s rule: program_of.induct)
  case (1 k v)
  then show ?case by (simp add: stack_op_def make_pairs_push)
next
  case (2 k v)
  then show ?case by (simp add: stack_op_def make_pairs_push)
next
  case (3 k v)
  then show ?case by (simp add: stack_op_def make_pairs_push)
next
  case (4 m)
  let ?m = "map (\<lambda>p. (fst p, mirror (snd p))) m"
  have "eval e (concat (map (\<lambda>p. program_of (snd p) @ [OU64 (fst p), instruction MAKE_ATTR]) m) @ ys) s =
      eval e ys (push_all (map (\<lambda>p. OAttr (fst p) (mirror (snd p))) m) s)" for ys
    using 4 by (intro eval_concat eval_pair(1)) (auto simp: wf_map_def)
  moreover have "make_attr_map (v_build e) (push (OU64 (word_of_nat (length ?m)))
      (push_all (map (\<lambda>p. OAttr (fst p) (snd p)) ?m) s)) = Inr (push (OAttrMap ?m) s)"
    using 4(2,3) by (intro make_map_push) (auto simp: wf_map_def sorted_keys_map)
  ultimately show ?case by (simp add: count_def stack_op_def comp_def)
next
  case (5 m)
  let ?m = "map (\<lambda>p. (fst p, mirror (snd p))) m"
  have "eval e (concat (map (\<lambda>p. program_of (snd p) @ [OString (fst p), instruction MAKE_PARAM]) m) @ ys) s =
      eval e ys (push_all (map (\<lambda>p. OParam (fst p) (mirror (snd p))) m) s)" for ys
    using 5 by (intro eval_concat eval_pair(2)) (auto simp: wf_map_def)
  moreover have "make_param_map (v_build e) (push (OU64 (word_of_nat (length ?m)))
      (push_all (map (\<lambda>p. OParam (fst p) (snd p)) ?m) s)) = Inr (push (OParamMap ?m) s)"
    using 5(2,3) by (intro make_param_map_push) (auto simp: wf_map_def sorted_keys_map)
  ultimately show ?case by (simp add: count_def stack_op_def comp_def)
next
  case (6 m)
  let ?m = "map (\<lambda>p. (fst p, mirror (snd p))) m"
  have "eval e (concat (map (\<lambda>p. program_of (snd p) @ [OObis (fst p), instruction MAKE_PROP]) m) @ ys) s =
      eval e ys (push_all (map (\<lambda>p. OProp (fst p) (mirror (snd p))) m) s)" for ys
    using 6 by (intro eval_concat eval_pair(3)) (auto simp: wf_map_def)
  moreover have "make_prop_map (v_build e) (push (OU64 (word_of_nat (length ?m)))
      (push_all (map (\<lambda>p. OProp (fst p) (snd p)) ?m) s)) = Inr (push (OPropMap ?m) s)"
    using 6(2,3) by (intro make_prop_map_push) (auto simp: wf_map_def sorted_keys_map)
  ultimately show ?case by (simp add: count_def stack_op_def comp_def)
next
  case (7 v)
  then have "eval e (concat (map program_of v) @ ys) s = eval e ys (push_all (map mirror v) s)" for ys
    by (intro eval_concat) simp_all
  with 7 show ?case by (simp add: count_def stack_op_def make_seq_push)
next
  case (8 v)
  then have "eval e (concat (map program_of v) @ ys) s = eval e ys (push_all (map mirror v) s)" for ys
    by (intro eval_concat) simp_all
  with 8 show ?case by (simp add: count_def stack_op_def make_seq_push)
next
  case (9 v)
  then have "eval e (concat (map program_of v) @ ys) s = eval e ys (push_all (map mirror v) s)" for ys
    by (intro eval_concat) simp_all
  with 9 show ?case by (simp add: count_def stack_op_def make_seq_push)
next
  case (10 v)
  then show ?case
    by (simp add: eval_buffers count_def stack_op_def make_seq_push cast_buffer_def comp_def)
qed (simp_all add: exec_stack_def)


section \<open>Running\<close>

definition at_pc :: "object list \<Rightarrow> nat \<Rightarrow> stack \<Rightarrow> vm" where
  "at_pc m p s = \<lparr>code = \<lparr>mem = m, pc = p\<rparr>, stk = s\<rparr>"

lemma at_pc_simps [simp]:
  "mem (code (at_pc m p s)) = m" "pc (code (at_pc m p s)) = p" "stk (at_pc m p s) = s"
  "has_more (code (at_pc m p s)) \<longleftrightarrow> p < length m"
  "(at_pc m p s)\<lparr>stk := s'\<rparr> = at_pc m p s'"
  "at_pc m p s = at_pc m' p' s' \<longleftrightarrow> m = m' \<and> p = p' \<and> s = s'"
  "load obj (at_pc m p s) = at_pc (m @ [obj]) p s"
  "load_deque deq (at_pc m p s) = at_pc (m @ deq) p s"
  by (auto simp: at_pc_def has_more_def load_def load_deque_def)

lemma vm_cases: obtains m p s where "v = at_pc m p s"
  by (cases v; cases "code v") (auto simp: at_pc_def)

lemma exec_exec_stack:
  assumes "exec_stack e x s = Some r"
  shows "exec rerun e x (at_pc m p s) = stay (at_pc m p s) r"
  using assms
  by (cases x) (auto simp: exec_def exec_op_def exec_stack_def stay_def at_pc_def split: option.splits)

lemma stay_ok [simp]: "stay (at_pc m p s) (Inr s') = Some ([], Inr (at_pc m p s'))"
  by (simp add: stay_def at_pc_def)

lemma next_instruction_ok [simp]:
  "p < length m \<Longrightarrow> next_instruction e (at_pc m p s) = Inr (at_pc m (Suc p) s)"
  by (simp add: next_instruction_def step_def has_more_def at_pc_def)

lemma map_option_emit_Nil [simp]: "map_option (emit []) r = r"
  by (cases r) auto

lemma run_eval:
  "eval e xs s = Some s' \<Longrightarrow> pre @ xs @ post = m \<Longrightarrow>
   run (length xs + n) e (at_pc m (length pre) s) = run n e (at_pc m (length pre + length xs) s')"
proof (induction xs arbitrary: pre s)
  case (Cons x xs)
  from Cons.prems(1) obtain s1 where s1: "exec_stack e x s = Some (Inr s1)" "eval e xs s1 = Some s'"
    by (auto split: option.splits sum.splits)
  have at: "m ! length pre = x" "length pre < length m" using Cons.prems(2) by auto
  have "run (length (x # xs) + n) e (at_pc m (length pre) s) =
      run (length xs + n) e (at_pc m (length (pre @ [x])) s1)"
    using exec_exec_stack [OF s1(1)] at by simp
  also have "\<dots> = run n e (at_pc m (length (pre @ [x]) + length xs) s')"
    using s1(2) Cons.prems(2) by (intro Cons.IH) simp_all
  finally show ?case by simp
qed simp

lemma run_done [simp]: "length m \<le> p \<Longrightarrow> run (Suc n) e (at_pc m p s) = Some ([], Inr (at_pc m p s))"
  by simp

lemma run_program_of:
  assumes "loadable (v_max_vec e) obj" and "wf_object obj"
  shows "run (Suc (length (program_of obj))) e (at_pc (pre @ program_of obj) (length pre) s) =
    Some ([], Inr (at_pc (pre @ program_of obj) (length (pre @ program_of obj)) (push (mirror obj) s)))"
  using run_eval [of e "program_of obj" s "push (mirror obj) s" pre "[]" _ 1]
    eval_program_of [OF assms, of "[]"]
  by simp

text \<open>Programs without \<^verbatim>\<open>INVOKE_R\<close> cannot run the machine again; their length is fuel enough.\<close>

definition reentrant :: "object \<Rightarrow> bool" where
  "reentrant x \<longleftrightarrow> x = instruction INVOKE_R"

lemma op_of_code_Some: "op_of_code w = Some c \<Longrightarrow> w = op_code c"
  unfolding op_of_code_def by (auto dest!: map_of_SomeD)

lemma exec_not_reentrant:
  assumes "\<not> reentrant x"
  shows "\<exists>evs r. exec rerun e x (at_pc m p s) = Some (evs, r) \<and>
    (\<forall>v'. r = Inr v' \<longrightarrow> (\<exists>s'. v' = at_pc m p s'))"
proof (cases x)
  case (OOp w)
  show ?thesis
  proof (cases "op_of_code w")
    case None
    with OOp show ?thesis by (cases "v_build e") (auto simp: exec_def exec_op_def)
  next
    case (Some c)
    then have c: "c \<noteq> INVOKE_R" using assms OOp by (auto simp: reentrant_def instruction_def dest: op_of_code_Some)
    show ?thesis
    proof (cases "stack_op e c s")
      case None
      with c Some OOp show ?thesis
        by (cases c; cases "v_build e")
          (auto simp: exec_def exec_op_def exec_invoke_def exec_forward_def split: sum.split prod.split)
    next
      case (Some r)
      with \<open>op_of_code w = Some c\<close> OOp show ?thesis
        by (cases r) (auto simp: exec_def exec_op_def stay_def)
    qed
  qed
qed (simp_all add: exec_def)

lemma run_terminates:
  assumes "\<forall>x \<in> set (drop p m). \<not> reentrant x" and "length m - p < n"
  shows "run n e (at_pc m p s) \<noteq> None"
  using assms
proof (induction n arbitrary: p s)
  case (Suc n)
  show ?case
  proof (cases "p < length m")
    case True
    then have "m ! p \<in> set (drop p m)" by (simp add: Cons_nth_drop_Suc [symmetric])
    with Suc.prems(1) have "\<not> reentrant (m ! p)" by blast
    from exec_not_reentrant [OF this, of "run n e" e m p s] obtain evs r where
      r: "exec (run n e) e (m ! p) (at_pc m p s) = Some (evs, r)"
        "\<forall>v'. r = Inr v' \<longrightarrow> (\<exists>s'. v' = at_pc m p s')" by blast
    have "\<forall>x \<in> set (drop (Suc p) m). \<not> reentrant x"
      using Suc.prems(1) by (meson le_SucI order_refl set_drop_subset_set_drop subsetD)
    then have "run n e (at_pc m (Suc p) s') \<noteq> None" for s'
      using Suc.prems(2) True by (intro Suc.IH) simp_all
    then have "map_option (emit evs) (run n e (at_pc m (Suc p) s')) \<noteq> None" for s'
      by (simp only: option.map_disc_iff simp_thms)
    with r True show ?thesis by (cases r) (simp, fastforce)
  qed simp
qed simp

section \<open>Frames\<close>

lemma esba_simps [simp]:
  "bp (esba s) = word_of_nat (length (items s))"
  "items (esba s) = items s @ [OU64 (bp s)]"
  by (simp_all add: esba_def push_def)

section \<open>Properties\<close>

text \<open>C3. The machine and the serializer: a machine that has run everything it has loaded, is given the program
  of a well-formed object and runs, ends with one more value on its stack, the object with every
  sequence back to front; nothing else changes, and it sends no message.  The object must hold no op codes as values
  (they would be executed) and no empty attribute map (its constructor asserts), and its containers no more elements
  than a 64-bit count and, vectors, the largest vector can have (\<open>loadable\<close>).\<close>

theorem run_serialized_program:
  assumes "loadable (v_max_vec e) obj" and "wf_object obj" and "pc (code v) = length (mem (code v))"
    and "length (program_of obj) < n"
  shows "run n e (load_deque (program_of obj) v) =
    Some ([], Inr \<lparr>code = \<lparr>mem = mem (code v) @ program_of obj,
                            pc = length (mem (code v) @ program_of obj)\<rparr>,
                   stk = push (mirror obj) (stk v)\<rparr>)"
proof -
  obtain m p s where v: "v = at_pc m p s" by (rule vm_cases)
  obtain k where n: "n = length (program_of obj) + Suc k"
    using assms(4) by (metis add_Suc_right less_imp_Suc_add)
  from assms(3) v have p: "p = length m" by simp
  have "run n e (at_pc (m @ program_of obj) (length m) s) =
      run (Suc k) e (at_pc (m @ program_of obj) (length m + length (program_of obj)) (push (mirror obj) s))"
    unfolding n using eval_program_of [OF assms(1,2), of "[]"]
    by (intro run_eval [where post = "[]"]) simp_all
  also have "\<dots> = Some ([], Inr (at_pc (m @ program_of obj) (length (m @ program_of obj)) (push (mirror obj) s)))"
    by simp
  finally have "run n e (load_deque (program_of obj) v) = \<dots>" by (simp only: v p at_pc_simps)
  then show ?thesis by (simp only: v at_pc_simps) (simp only: at_pc_def)
qed

definition sample_venv :: venv where
  "sample_venv = \<lparr>v_build = Debug, v_max_vec = 100, v_hash = (\<lambda>_. 0), v_now = 0, v_pid = 1, v_tid = 1,
     v_channel = None, v_lookup = (\<lambda>_. 0), v_functions = []\<rparr>"

definition vm_init :: vm where
  "vm_init = \<lparr>code = memory_init [], stk = stack_init\<rparr>"

theorem run_serialized_program_witness:
  "run 11 sample_venv (load_deque (program_of (OTuple [OU8 1, OVector [OU8 2, OU8 3], OAttr 4 ONull])) vm_init) =
     Some ([], Inr \<lparr>code = \<lparr>mem = program_of (OTuple [OU8 1, OVector [OU8 2, OU8 3], OAttr 4 ONull]), pc = 10\<rparr>,
       stk = push (OTuple [OAttr 4 ONull, OVector [OU8 3, OU8 2], OU8 1]) stack_init\<rparr>)"
  using run_serialized_program [of sample_venv "OTuple [OU8 1, OVector [OU8 2, OU8 3], OAttr 4 ONull]" vm_init 11]
  by (simp add: sample_venv_def vm_init_def memory_init_def instruction_def count_def)

text \<open>An empty attribute map cannot be built on an empty stack in a build with assertions:
  \<^verbatim>\<open>make_attr_map\<close> asks for two values where its count is the only one, unlike the other two maps.\<close>

theorem empty_attr_map:
  "make_attr_map Debug (push (OU64 0) stack_init) = Inl Assertion \<and>
   make_attr_map Release (push (OU64 0) stack_init) = Inr (push (OAttrMap []) stack_init) \<and>
   make_param_map Debug (push (OU64 0) stack_init) = Inr (push (OParamMap []) stack_init) \<and>
   make_prop_map Debug (push (OU64 0) stack_init) = Inr (push (OPropMap []) stack_init)"
  using make_param_map_push [of 0 "[]" Debug stack_init] make_prop_map_push [of 0 "[]" Debug stack_init]
    pop_count_push [of 0 stack_init Release]
  by (simp add: make_attr_map_def insert_all_def) (simp add: stack_init_def)

text \<open>C12. Running ends: as long as no \<^verbatim>\<open>INVOKE_R\<close> is among the instructions to come, one unit of fuel per
  instruction and one more are enough, whatever the instructions do to the stack.\<close>

theorem run_total:
  assumes "\<forall>x \<in> set (drop (pc (code v)) (mem (code v))). \<not> reentrant x"
    and "length (mem (code v)) - pc (code v) < n"
  shows "\<exists>evs r. run n e v = Some (evs, r)"
proof -
  obtain m p s where v: "v = at_pc m p s" by (rule vm_cases)
  show ?thesis using run_terminates [of p m n e s] assms by (auto simp: v)
qed

theorem run_total_witness:
  "\<exists>evs r. run 3 sample_venv (load_deque [instruction NOW, instruction SPLIT] vm_init) = Some (evs, r)"
  by (rule run_total)
    (simp_all add: reentrant_def instruction_def vm_init_def memory_init_def load_deque_def)



section \<open>Loading by messages\<close>

definition is_op :: "object \<Rightarrow> bool" where
  "is_op x \<longleftrightarrow> (case x of OOp _ \<Rightarrow> True | _ \<Rightarrow> False)"

lemma eval_append:
  "eval e (xs @ ys) s = (case eval e xs s of Some s' \<Rightarrow> eval e ys s' | None \<Rightarrow> None)"
  by (induction xs arbitrary: s) (auto split: option.splits sum.splits)

lemma receive_load:
  "receive fuel e 0 [x] (at_pc m p s) = Some ([], Inr (at_pc (m @ [x]) p s))"
  by (cases "v_build e") (simp_all add: receive_def builtin_slot_def args1_def value_cast_def)

lemma receive_run: "receive fuel e 2 [] v = run fuel e v"
  by (cases "v_build e") (simp_all add: receive_def builtin_slot_def)

lemma receive_all_append:
  "receive_all fuel e (as @ bs) v =
     (case receive_all fuel e as v of
        Some (evs, Inr v') \<Rightarrow> map_option (emit evs) (receive_all fuel e bs v')
      | r \<Rightarrow> r)"
  by (induction as arbitrary: v)
    (auto simp: emit_def option.map_comp comp_def map_option_case
      split: prod.splits option.splits sum.splits)

lemma run_list:
  assumes "eval e xs s = Some s'" and "length xs < n"
  shows "run n e (at_pc (pre @ xs) (length pre) s) = Some ([], Inr (at_pc (pre @ xs) (length (pre @ xs)) s'))"
proof -
  obtain k where n: "n = length xs + Suc k" using assms(2) by (metis add_Suc_right less_imp_Suc_add)
  show ?thesis using run_eval [OF assms(1), of pre "[]" _ "Suc k"] by (simp add: n)
qed

text \<open>
  What waits in memory between two messages are values; the next op code runs them.
\<close>

lemma receive_proxy_load:
  assumes "eval e (pend @ xs) s = Some s'" and "length pend + length xs < n"
    and "xs = [] \<longrightarrow> pend = []" and "xs \<noteq> [] \<longrightarrow> is_op (last xs)"
  shows "receive_all n e (concat (map proxy_load xs)) (at_pc (pre @ pend) (length pre) s) =
     Some ([], Inr (at_pc (pre @ pend @ xs) (length (pre @ pend @ xs)) s'))"
  using assms
proof (induction xs arbitrary: pre pend s)
  case (Cons x xs)
  show ?case
  proof (cases "is_op x")
    case True
    from Cons.prems(1) obtain s1 where s1: "eval e (pend @ [x]) s = Some s1" "eval e xs s1 = Some s'"
      by (simp add: eval_append split: option.splits sum.splits)
    have "run n e (at_pc (pre @ pend @ [x]) (length pre) s) =
        Some ([], Inr (at_pc (pre @ pend @ [x]) (length (pre @ pend @ [x])) s1))"
      using run_list [OF s1(1), of n pre] Cons.prems(2) by simp
    moreover have "receive_all n e (concat (map proxy_load xs))
        (at_pc ((pre @ pend @ [x]) @ []) (length (pre @ pend @ [x])) s1) =
      Some ([], Inr (at_pc ((pre @ pend @ [x]) @ [] @ xs) (length ((pre @ pend @ [x]) @ [] @ xs)) s'))"
      using Cons.prems(2,4) s1(2) by (intro Cons.IH) (simp_all split: if_splits)
    moreover have "proxy_load x = [(0, [x]), (2, [])]"
      using True by (simp add: is_op_def proxy_load_def split: object.splits)
    ultimately show ?thesis by (simp add: receive_load receive_run)
  next
    case False
    then have "proxy_load x = [(0, [x])]" and "xs \<noteq> []"
      using Cons.prems(4) by (auto simp: is_op_def proxy_load_def split: object.splits)
    then show ?thesis
      using Cons.IH [of "pend @ [x]" s pre] Cons.prems by (simp add: receive_load)
  qed
qed simp

lemma program_of_nonempty [simp]: "program_of obj \<noteq> []"
  by (cases obj) simp_all

section \<open>Calls\<close>

lemma invoke_r_push:
  assumes "n = length args" "n < 2 ^ 64" "idx \<noteq> - 1"
  shows "invoke_r b (push (OU64 idx) (push (OU64 (word_of_nat n)) (push_all args s))) = Inr ((idx, args), s)"
  using assms
  by (simp add: invoke_r_def top_value_push cast_u64_def make_seq_push cast_tuple_def)

lemma invoke_push:
  assumes "n = length args" "n < 2 ^ 64"
  shows "invoke b (push (OString name) (push (OU64 (word_of_nat n)) (push_all args s))) = Inr ((name, args), s)"
  using assms
  by (simp add: invoke_def pop_value_push cast_string_def make_seq_push cast_tuple_def)

section \<open>Properties of calls and loading\<close>

text \<open>C4. Loading by messages: when a proxy sends the program of a well-formed object that ends in an op code one
  instruction at a time, with a run message after each op code, to a machine that has run everything it has
  loaded, the machine ends in the same state as if it had been given the whole program and run once.  The object must
  hold no op codes as values and no empty attribute map, and its containers no more elements than a 64-bit count
  and, vectors, the largest vector can have (\<open>loadable\<close>).\<close>

theorem proxy_load_program:
  assumes "loadable (v_max_vec e) obj" and "wf_object obj" and "is_op (last (program_of obj))"
    and "pc (code v) = length (mem (code v))" and "length (program_of obj) < n"
  shows "receive_all n e (concat (map proxy_load (program_of obj))) v = run n e (load_deque (program_of obj) v)"
proof -
  obtain m p s where v: "v = at_pc m p s" by (rule vm_cases)
  with assms(4) have v: "v = at_pc m (length m) s" by simp
  have ev: "eval e (program_of obj) s = Some (push (mirror obj) s)"
    using eval_program_of [OF assms(1,2), of "[]"] by simp
  have "receive_all n e (concat (map proxy_load (program_of obj))) (at_pc (m @ []) (length m) s) =
      Some ([], Inr (at_pc (m @ [] @ program_of obj) (length (m @ [] @ program_of obj)) (push (mirror obj) s)))"
    using ev assms by (intro receive_proxy_load) simp_all
  then show ?thesis using run_list [OF ev assms(5), of m] by (simp add: v)
qed

theorem proxy_load_program_witness:
  "receive_all 9 sample_venv (concat (map proxy_load (program_of (OTuple [OU8 1, OAttr 4 ONull])))) vm_init =
   run 9 sample_venv (load_deque (program_of (OTuple [OU8 1, OAttr 4 ONull])) vm_init)"
  using proxy_load_program [of sample_venv "OTuple [OU8 1, OAttr 4 ONull]" vm_init 9]
  by (simp add: sample_venv_def vm_init_def memory_init_def instruction_def count_def is_op_def)



text \<open>An unknown slot is not an error: the call executes slot 0, so it appends its first argument to the
  program and pushes a null object.\<close>

theorem call_unknown_slot:
  assumes "5 + length (v_functions e) \<le> unat idx" and "idx \<noteq> - 1"
  shows "exec rerun e (instruction INVOKE_R) (v\<lparr>stk := push (OU64 idx) (push (OU64 1) (push x s))\<rparr>) =
    Some ([], Inr ((load x v)\<lparr>stk := push ONull s\<rparr>))"
proof -
  have "op_of_code (op_code INVOKE_R) = Some INVOKE_R" by code_simp
  then show ?thesis using assms invoke_r_push [of 1 "[x]" idx "v_build e" s]
    by (cases "v_build e")
      (simp_all add: exec_def exec_op_def instruction_def stack_op_def exec_invoke_r_def offset_def args1_def
        value_cast_def load_def)
qed

theorem call_unknown_slot_witness:
  "exec (\<lambda>_. None) sample_venv (instruction INVOKE_R)
      (vm_init\<lparr>stk := push (OU64 77) (push (OU64 1) (push (OU8 3) stack_init))\<rparr>) =
    Some ([], Inr ((load (OU8 3) vm_init)\<lparr>stk := push ONull stack_init\<rparr>))"
  by (rule call_unknown_slot) (simp_all add: sample_venv_def)

text \<open>\<^verbatim>\<open>SPLIT\<close> and \<^verbatim>\<open>MAKE_TUPLE\<close> do not cancel: taking a sequence apart and building it again reverses it,
  and doing so twice restores it.\<close>

theorem split_make:
  assumes "length v < 2 ^ 64"
  shows "rbind (split_top b (push (OTuple v) s)) (make_tuple b) = Inr (push (OTuple (rev v)) s) \<and>
    rbind (split_top b (push (ODeque v) s)) (make_deque b) = Inr (push (ODeque (rev v)) s)"
proof -
  have "disassemble b v (push x s) = Inr (push (OU64 (word_of_nat (length v))) (push_all v s))" for x
  proof -
    have "push_all v s = s\<lparr>items := items s @ v\<rparr>"
      by (induction v arbitrary: s) (simp_all add: push_def)
    then show ?thesis by (simp add: disassemble_def)
  qed
  with assms show ?thesis
    by (simp_all add: split_top_def make_seq_push)
qed

theorem split_make_witness:
  "rbind (split_top Debug (push (OTuple [OU8 1, OU8 2]) stack_init)) (make_tuple Debug) =
     Inr (push (OTuple [OU8 2, OU8 1]) stack_init)"
  using split_make [of "[OU8 1, OU8 2]" Debug stack_init] by simp

end
