(* ===== verification/Utf8.thy ===== *)
theory Utf8
  imports Prelude
begin

unbundle bit_operations_syntax

text \<open>
  The UTF-8 converters of \<^verbatim>\<open>include/cyng/io/parser/utf-8.hpp\<close> and \<^verbatim>\<open>src/io/src/parser/utf-8.cpp\<close>: the
  decoder that is fed byte by byte, the encoder, and the ranges of code points over bytes of
  \<^verbatim>\<open>stream.hpp\<close>.
\<close>

section \<open>Sizes\<close>

definition is_bom :: "byte \<Rightarrow> byte \<Rightarrow> byte \<Rightarrow> bool" where
  "is_bom c1 c2 c3 \<longleftrightarrow> 0xEF = c1 \<and> 0xBB = c2 \<and> 0xBF = c3"

definition utf8_byte_count :: "byte \<Rightarrow> nat" where
  "utf8_byte_count c =
     (if c AND 0xF0 = 0 then 0
      else if c AND 0xF0 = 0xC0 then 2
      else if c AND 0xF0 = 0xE0 then 3
      else if c AND 0xF0 = 0xF0 then 4
      else 1)"

definition utf8_char_size :: "u32 \<Rightarrow> nat" where
  "utf8_char_size c =
     (if c < 0x80 then 1
      else if c < 0x800 then 2
      else if c < 0x10000 then 3
      else if c < 0x200000 then 4
      else if c < 0x4000000 then 5
      else if c \<le> 0x7FFFFFFF then 6
      else 0)"

definition utf8_prefix :: "nat \<Rightarrow> byte" where
  "utf8_prefix n = (if n = 2 then 0xC0 else if n = 3 then 0xE0 else if n = 4 then 0xF0 else 0)"

section \<open>The decoder: u8_to_u32, sanitizer\<close>

record u8_to_u32 =
  chars :: "byte list"
  pos :: nat
  glyph_size :: nat
  cp_value :: u32

definition u8_to_u32_init :: u8_to_u32 where
  "u8_to_u32_init = \<lparr>chars = [0, 0, 0, 0], pos = 0, glyph_size = 0, cp_value = 0\<rparr>"

definition masks :: "u32 list" where
  "masks = [0x7F, 0x7FF, 0xFFFF, 0x1FFFFF]"

text \<open>The loop over the bytes of the glyph after the first.\<close>

definition build_glyph :: "byte list \<Rightarrow> nat \<Rightarrow> u32" where
  "build_glyph cs n =
     (let v = foldl (\<lambda>v b. push_bit 6 v + (ucast b AND 0x3F)) (ucast (cs ! 0)) (take (n - 1) (drop 1 cs))
      in v AND masks ! (n - 1))"

text \<open>
  \<^verbatim>\<open>put\<close> gives the value and whether it is a complete code point.  A byte that only continues a glyph is
  returned as a signed \<^verbatim>\<open>char\<close>.
\<close>

definition put_u8 :: "u8_to_u32 \<Rightarrow> byte \<Rightarrow> (u32 \<times> bool) \<times> u8_to_u32" where
  "put_u8 s c =
     (if c > 0x7F \<or> glyph_size s \<noteq> 0 then
        (let s1 = (if glyph_size s = 0 then s\<lparr>pos := 0, glyph_size := utf8_byte_count c\<rparr> else s);
             s2 = s1\<lparr>chars := (chars s1)[pos s1 := c], pos := pos s1 + 1\<rparr> in
         if pos s2 = glyph_size s2 then
           (let v = build_glyph (chars s2) (glyph_size s2) in
            ((v, True), s2\<lparr>cp_value := v, glyph_size := 0\<rparr>))
         else ((scast c, False), s2))
      else ((ucast c, True), s\<lparr>cp_value := ucast c\<rparr>))"

text \<open>The sanitizer calls back with every complete code point.\<close>

definition sanitizer_put :: "u8_to_u32 \<Rightarrow> byte \<Rightarrow> u32 list \<times> u8_to_u32 result" where
  "sanitizer_put s c =
     (case put_u8 s c of ((v, done), s') \<Rightarrow> (if done then [v] else [], Inr s'))"

fun sanitize :: "u8_to_u32 \<Rightarrow> byte list \<Rightarrow> u32 list \<times> u8_to_u32 result" where
  "sanitize s [] = ([], Inr s)"
| "sanitize s (c # cs) = after (sanitizer_put s c) (\<lambda>s'. sanitize s' cs)"

interpretation utf8: feeder sanitizer_put sanitize
  by unfold_locales simp_all

section \<open>The encoder: u32_to_u8\<close>

text \<open>The loop runs down from the last of the four bytes to the second.\<close>

definition put_u32 :: "build \<Rightarrow> u32 \<Rightarrow> (byte list \<times> nat) result" where
  "put_u32 b c =
     (let n = utf8_char_size c;
          fill = (\<lambda>p (c, cs). if p \<le> n then (drop_bit 6 c, (ucast (c AND 0x3F) OR 0x80) # cs)
                               else (c, 0 # cs));
          (c', cs) = fill 2 (fill 3 (fill 4 (c, [])))
      in rbind (boost_assert b (n < 5)) (\<lambda>_. Inr ((ucast c' OR utf8_prefix n) # cs, n)))"

text \<open>
  The bytes the iterator \<^verbatim>\<open>u32_to_u8_iterator\<close> walks through for one code point.  Without assertions it
  never gets past a value with no size in 1 to 4: its index 4 means that nothing is extracted yet.
\<close>

definition encode_u32 :: "build \<Rightarrow> u32 \<Rightarrow> byte list result" where
  "encode_u32 b c =
     rbind (put_u32 b c) (\<lambda>(cs, n). rbind (defined_if (1 \<le> n \<and> n \<le> 4)) (\<lambda>_. Inr (take n cs)))"

fun encode_all :: "build \<Rightarrow> u32 list \<Rightarrow> byte list result" where
  "encode_all b [] = Inr []"
| "encode_all b (c # cs) =
     rbind (encode_u32 b c) (\<lambda>xs. rbind (encode_all b cs) (\<lambda>ys. Inr (xs @ ys)))"

section \<open>Ranges: u8_to_u32_iterator, get_utf8_range\<close>

text \<open>
  \<^verbatim>\<open>dereference\<close> feeds a fresh decoder until a code point is complete; there is no test for the end of the
  input.  It gives the code point and what follows the last byte read.
\<close>

fun deref_from :: "u8_to_u32 \<Rightarrow> byte list \<Rightarrow> (u32 \<times> byte list) result" where
  "deref_from s [] = Inl Undefined"
| "deref_from s (c # cs) =
     (case put_u8 s c of ((v, done), s') \<Rightarrow> if done then Inr (v, cs) else deref_from s' cs)"

definition dereference :: "build \<Rightarrow> byte list \<Rightarrow> (u32 \<times> byte list) result" where
  "dereference b cs =
     rbind (defined_if (cs \<noteq> [])) (\<lambda>_.
     rbind (boost_assert b (hd cs AND 0xC0 \<noteq> 0x80)) (\<lambda>_. deref_from u8_to_u32_init cs))"

lemma deref_from_length: "deref_from s cs = Inr (v, r) \<Longrightarrow> length r < length cs"
  by (induction s cs rule: deref_from.induct) (auto split: prod.splits if_splits intro: less_SucI)

text \<open>A loop over the range: dereference, then increment, until the end is reached.\<close>

function iterate :: "build \<Rightarrow> byte list \<Rightarrow> u32 list result" where
  "iterate b cs =
     (if cs = [] then Inr []
      else (case dereference b cs of
              Inl f \<Rightarrow> Inl f
            | Inr (v, r) \<Rightarrow> rbind (iterate b r) (\<lambda>vs. Inr (v # vs))))"
  by pat_completeness auto
termination
  by (relation "measure (length \<circ> snd)")
    (auto simp: dereference_def rbind_def boost_assert_def defined_if_def deref_from_length split: sum.splits if_splits)

declare iterate.simps [simp del]

text \<open>
  \<^verbatim>\<open>get_utf8_range\<close> skips a byte order mark.  A wrong mark is not an error: the range starts with the
  first byte that does not fit.
\<close>

definition utf8_range :: "build \<Rightarrow> byte list \<Rightarrow> byte list result" where
  "utf8_range b cs =
     rbind (boost_assert b (cs \<noteq> [])) (\<lambda>_.
     rbind (defined_if (cs \<noteq> [])) (\<lambda>_.
     if hd cs = 0xEF then
       rbind (defined_if (length cs > 1)) (\<lambda>_.
       if cs ! 1 = 0xBB then
         rbind (defined_if (length cs > 2)) (\<lambda>_.
         Inr (if cs ! 2 = 0xBF then drop 3 cs else drop 2 cs))
       else Inr (drop 1 cs))
     else if hd cs = 0xFE \<or> hd cs = 0xFF then rbind (boost_assert b False) (\<lambda>_. Inr [])
     else Inr cs))"

section \<open>Bits\<close>

lemma mask_consts:
  "(0x3F :: u32) = mask 6" "(0x7F :: u32) = mask 7" "(0x7FF :: u32) = mask 11" "(0xFFFF :: u32) = mask 16"
  "(0x1FFFFF :: u32) = mask 21"
  by (simp_all add: mask_eq_exp_minus_1)

lemma prefix_consts:
  "(0x80 :: byte) = push_bit 7 (mask 1)" "(0xC0 :: byte) = push_bit 6 (mask 2)"
  "(0xE0 :: byte) = push_bit 5 (mask 3)" "(0xF0 :: byte) = push_bit 4 (mask 4)"
  by (simp_all add: mask_eq_exp_minus_1 push_bit_eq_mult)

lemma unat_low: "unat (w AND 0x3F :: u32) = unat w mod 64" "unat (w AND 0x7F :: u32) = unat w mod 128"
  "unat (w AND 0x7FF :: u32) = unat w mod 2048" "unat (w AND 0xFFFF :: u32) = unat w mod 65536"
  "unat (w AND 0x1FFFFF :: u32) = unat w mod 2097152"
  unfolding mask_consts by (simp_all flip: take_bit_eq_mask add: take_bit_eq_mod unat_mod)

lemma unat_shift: "unat (drop_bit k (c :: u32)) = unat c div 2 ^ k"
  using unsigned_less [of c, where 'a = nat]
  by (simp only: unsigned_drop_bit_eq) (simp add: drop_bit_eq_div take_bit_eq_mod)

lemma unat_byte: "unat (ucast (c :: u32) :: byte) = unat c mod 256"
  by (simp add: unsigned_ucast_eq take_bit_eq_mod)

lemma byte_bound: "unat (b :: byte) < 256"
  using unsigned_less [of b, where 'a = nat] by simp

lemma unat_widen [simp]: "unat (ucast (b :: byte) :: u32) = unat b"
  using byte_bound [of b] by (simp add: unsigned_ucast_eq take_bit_eq_mod)

text \<open>Setting the prefix of a byte that has room for it is adding it.\<close>

lemma or_prefix:
  assumes "unat (x :: byte) < 2 ^ k"
  shows "x OR push_bit k q = x + push_bit k q"
proof -
  have "take_bit k x = x"
    by (rule unsigned_word_eqI [where 'a = nat]) (use assms in \<open>simp only: unsigned_take_bit_eq, simp add: take_bit_eq_mod\<close>)
  then have "x AND push_bit k q = take_bit k x AND push_bit k q" by simp
  also have "\<dots> = 0" by (rule bit_word_eqI) (auto simp: bit_simps)
  finally show ?thesis by (simp add: disjunctive_add_eq_or)
qed

lemma unat_prefix:
  "unat x < 64 \<Longrightarrow> unat (x OR 0x80 :: byte) = unat x + 128"
  "unat x < 64 \<Longrightarrow> unat (x OR 0xC0 :: byte) = unat x + 192"
  "unat x < 32 \<Longrightarrow> unat (x OR 0xE0 :: byte) = unat x + 224"
  "unat x < 16 \<Longrightarrow> unat (x OR 0xF0 :: byte) = unat x + 240"
proof -
  have "(0x80 :: byte) = push_bit 6 2" "(0xC0 :: byte) = push_bit 6 3" "(0xE0 :: byte) = push_bit 5 7"
    "(0xF0 :: byte) = push_bit 4 15" by simp_all
  then show "unat x < 64 \<Longrightarrow> unat (x OR 0x80 :: byte) = unat x + 128"
    "unat x < 64 \<Longrightarrow> unat (x OR 0xC0 :: byte) = unat x + 192"
    "unat x < 32 \<Longrightarrow> unat (x OR 0xE0 :: byte) = unat x + 224"
    "unat x < 16 \<Longrightarrow> unat (x OR 0xF0 :: byte) = unat x + 240"
    using or_prefix [of x 6 2] or_prefix [of x 6 3] or_prefix [of x 5 7] or_prefix [of x 4 15]
    by (simp_all add: unat_word_ariths)
qed

lemma utf8_byte_count_unat:
  "utf8_byte_count c =
     (let k = unat c div 16 in if k = 0 then 0 else if k = 12 then 2 else if k = 14 then 3 else if k = 15 then 4 else 1)"
proof -
  have eq: "c AND 0xF0 = push_bit 4 (drop_bit 4 c)"
    by (rule bit_word_eqI) (auto simp: bit_simps prefix_consts)
  have "unat (c AND 0xF0) = 16 * (unat c div 16)"
    using byte_bound [of c] div_mult_mod_eq [of "unat c" 16]
    by (simp only: eq unsigned_push_bit_eq unsigned_drop_bit_eq)
      (simp add: drop_bit_eq_div push_bit_eq_mult take_bit_eq_mod mult.commute)
  have "c AND 0xF0 = p \<longleftrightarrow> 16 * (unat c div 16) = unat p" for p
    using \<open>unat (c AND 0xF0) = 16 * (unat c div 16)\<close> by (metis unsigned_word_eqI)
  then show ?thesis by (simp add: utf8_byte_count_def Let_def)
qed

text \<open>The next six bits of a value.\<close>

definition next_six :: "u32 \<Rightarrow> byte \<Rightarrow> u32" where
  "next_six v b = push_bit 6 v + (ucast b AND 0x3F)"

lemma unat_next_six: "unat v < 2 ^ 26 \<Longrightarrow> unat (next_six v b) = 64 * unat v + unat b mod 64"
proof -
  assume v: "unat v < 2 ^ 26"
  have "64 * unat v + unat b mod 64 < 2 ^ 32" using v mod_less_divisor [of 64 "unat b"] by simp
  with v show ?thesis
    by (simp add: next_six_def unat_word_ariths unat_low unsigned_push_bit_eq push_bit_eq_mult take_bit_eq_mod mult.commute)
qed

section \<open>Encoding\<close>

lemma utf8_char_size_simps:
  "c < 0x80 \<Longrightarrow> utf8_char_size c = 1"
  "0x80 \<le> c \<Longrightarrow> c < 0x800 \<Longrightarrow> utf8_char_size c = 2"
  "0x800 \<le> c \<Longrightarrow> c < 0x10000 \<Longrightarrow> utf8_char_size c = 3"
  "0x10000 \<le> c \<Longrightarrow> c < 0x200000 \<Longrightarrow> utf8_char_size c = 4"
  by (simp_all add: utf8_char_size_def word_less_nat_alt word_le_nat_alt)

lemma utf8_bytes:
  "c < 0x80 \<Longrightarrow> encode_u32 b c = Inr [ucast c]"
  "0x80 \<le> c \<Longrightarrow> c < 0x800 \<Longrightarrow>
     encode_u32 b c = Inr [ucast (drop_bit 6 c) OR 0xC0, ucast (c AND 0x3F) OR 0x80]"
  "0x800 \<le> c \<Longrightarrow> c < 0x10000 \<Longrightarrow>
     encode_u32 b c = Inr [ucast (drop_bit 12 c) OR 0xE0, ucast (drop_bit 6 c AND 0x3F) OR 0x80,
       ucast (c AND 0x3F) OR 0x80]"
  "0x10000 \<le> c \<Longrightarrow> c < 0x200000 \<Longrightarrow>
     encode_u32 b c = Inr [ucast (drop_bit 18 c) OR 0xF0, ucast (drop_bit 12 c AND 0x3F) OR 0x80,
       ucast (drop_bit 6 c AND 0x3F) OR 0x80, ucast (c AND 0x3F) OR 0x80]"
  by (simp_all only: encode_u32_def put_u32_def utf8_char_size_simps Let_def)
    (simp_all add: utf8_prefix_def numeral_eq_Suc)

section \<open>Decoding\<close>

definition idle :: "u8_to_u32 \<Rightarrow> bool" where
  "idle s \<longleftrightarrow> glyph_size s = 0 \<and> length (chars s) = 4"

lemma sanitize_ascii:
  "idle s \<Longrightarrow> \<not> 0x7F < x \<Longrightarrow> \<exists>s'. idle s' \<and> sanitize s (x # r) = emit [ucast x] (sanitize s' r)"
  by (rule exI [of _ "s\<lparr>cp_value := ucast x\<rparr>"]) (simp add: idle_def sanitizer_put_def put_u8_def)

lemma sanitize_single:
  "idle s \<Longrightarrow> 0x7F < x \<Longrightarrow> utf8_byte_count x = 1 \<Longrightarrow>
   \<exists>s'. idle s' \<and> sanitize s (x # r) = emit [ucast x AND 0x7F] (sanitize s' r)"
  by (rule exI [of _ "s\<lparr>chars := (chars s)[0 := x], pos := 1, cp_value := ucast x AND 0x7F, glyph_size := 0\<rparr>"])
    (cases "chars s"; simp add: idle_def sanitizer_put_def put_u8_def build_glyph_def masks_def Let_def)

lemma length_4: "length xs = 4 \<longleftrightarrow> (\<exists>a b c d. xs = [a, b, c, d])"
  by (auto simp: numeral_eq_Suc length_Suc_conv)

lemma sanitize_glyph:
  assumes "idle s" and "x > 0x7F"
  shows "utf8_byte_count x = 2 \<Longrightarrow>
      \<exists>s'. idle s' \<and> sanitize s (x # y1 # r) = emit [next_six (ucast x) y1 AND 0x7FF] (sanitize s' r)"
    and "utf8_byte_count x = 3 \<Longrightarrow>
      \<exists>s'. idle s' \<and> sanitize s (x # y1 # y2 # r) =
        emit [next_six (next_six (ucast x) y1) y2 AND 0xFFFF] (sanitize s' r)"
    and "utf8_byte_count x = 4 \<Longrightarrow>
      \<exists>s'. idle s' \<and> sanitize s (x # y1 # y2 # y3 # r) =
        emit [next_six (next_six (next_six (ucast x) y1) y2) y3 AND 0x1FFFFF] (sanitize s' r)"
proof -
  obtain a b c d where s: "chars s = [a, b, c, d]" "glyph_size s = 0"
    using assms(1) by (auto simp: idle_def length_4)
  note defs = sanitizer_put_def put_u8_def build_glyph_def Let_def idle_def masks_def next_six_def
  show "utf8_byte_count x = 2 \<Longrightarrow>
      \<exists>s'. idle s' \<and> sanitize s (x # y1 # r) = emit [next_six (ucast x) y1 AND 0x7FF] (sanitize s' r)"
    using assms(2) s by (intro exI [of _ "s\<lparr>chars := [x, y1, c, d], pos := Suc (Suc 0),
      cp_value := next_six (ucast x) y1 AND 0x7FF, glyph_size := 0\<rparr>"]) (simp add: defs)
  show "utf8_byte_count x = 3 \<Longrightarrow>
      \<exists>s'. idle s' \<and> sanitize s (x # y1 # y2 # r) =
        emit [next_six (next_six (ucast x) y1) y2 AND 0xFFFF] (sanitize s' r)"
    using assms(2) s by (intro exI [of _ "s\<lparr>chars := [x, y1, y2, d], pos := Suc (Suc (Suc 0)),
      cp_value := next_six (next_six (ucast x) y1) y2 AND 0xFFFF, glyph_size := 0\<rparr>"])
      (simp add: defs eval_nat_numeral)
  show "utf8_byte_count x = 4 \<Longrightarrow>
      \<exists>s'. idle s' \<and> sanitize s (x # y1 # y2 # y3 # r) =
        emit [next_six (next_six (next_six (ucast x) y1) y2) y3 AND 0x1FFFFF] (sanitize s' r)"
    using assms(2) s by (intro exI [of _ "s\<lparr>chars := [x, y1, y2, y3], pos := Suc (Suc (Suc (Suc 0))),
      cp_value := next_six (next_six (next_six (ucast x) y1) y2) y3 AND 0x1FFFFF, glyph_size := 0\<rparr>"])
      (simp add: defs eval_nat_numeral)
qed

section \<open>Round trip\<close>

lemma gt_7F: "(0x7F :: byte) < x \<longleftrightarrow> 127 < unat x"
  by (simp add: word_less_nat_alt)

lemma word_eq_unat: "v = c \<longleftrightarrow> unat v = unat (c :: u32)"
  by (auto intro: unsigned_word_eqI)

lemma groups:
  fixes c :: u32
  shows "unat c < 0x1000 \<Longrightarrow> unat (ucast (drop_bit 6 c) OR 0xC0 :: byte) = unat c div 64 + 192"
    and "unat c < 0x10000 \<Longrightarrow> unat (ucast (drop_bit 12 c) OR 0xE0 :: byte) = unat c div 4096 + 224"
    and "unat c < 0x200000 \<Longrightarrow> unat (ucast (drop_bit 18 c) OR 0xF0 :: byte) = unat c div 262144 + 240"
    and "unat (ucast (c AND 0x3F) OR 0x80 :: byte) = unat c mod 64 + 128"
    and "unat (ucast (drop_bit k c AND 0x3F) OR 0x80 :: byte) = unat c div 2 ^ k mod 64 + 128"
proof -
  have b: "unat (ucast (drop_bit k c) :: byte) = unat c div 2 ^ k mod 256" for k
    by (simp add: unat_byte unat_shift)
  have m: "unat (ucast (w AND 0x3F) :: byte) = unat w mod 64" for w :: u32
    using mod_less_divisor [of 64 "unat w"] by (simp add: unat_byte unat_low)
  show "unat c < 0x1000 \<Longrightarrow> unat (ucast (drop_bit 6 c) OR 0xC0 :: byte) = unat c div 64 + 192"
    by (subst unat_prefix) (simp_all add: b)
  show "unat c < 0x10000 \<Longrightarrow> unat (ucast (drop_bit 12 c) OR 0xE0 :: byte) = unat c div 4096 + 224"
    by (subst unat_prefix) (simp_all add: b)
  show "unat c < 0x200000 \<Longrightarrow> unat (ucast (drop_bit 18 c) OR 0xF0 :: byte) = unat c div 262144 + 240"
    by (subst unat_prefix) (simp_all add: b)
  show "unat (ucast (c AND 0x3F) OR 0x80 :: byte) = unat c mod 64 + 128"
    by (subst unat_prefix) (simp_all add: m)
  show "unat (ucast (drop_bit k c AND 0x3F) OR 0x80 :: byte) = unat c div 2 ^ k mod 64 + 128"
    by (subst unat_prefix) (simp_all add: m unat_shift)
qed

text \<open>The groups put together again; the bits of the prefixes fall out.\<close>

lemma six_groups:
  "n < 2048 \<Longrightarrow> (64 * (n div 64 + 192) + (n mod 64 + 128) mod 64) mod 2048 = (n :: nat)"
  "n < 65536 \<Longrightarrow> (64 * (64 * (n div 4096 + 224) + (n div 2 ^ 6 mod 64 + 128) mod 64) +
      (n mod 64 + 128) mod 64) mod 65536 = n"
  "n < 2097152 \<Longrightarrow> (64 * (64 * (64 * (n div 262144 + 240) + (n div 2 ^ 12 mod 64 + 128) mod 64) +
      (n div 2 ^ 6 mod 64 + 128) mod 64) + (n mod 64 + 128) mod 64) mod 2097152 = n"
proof -
  have m: "(k mod 64 + 128) mod 64 = k mod 64" for k :: nat using mod_mult_self1 [of "k mod 64" 2 64] by simp
  have d: "64 * (k div 64) + k mod 64 = k" for k :: nat by simp
  have n12: "n div 2 ^ 12 = n div 64 div 64" "n div 4096 = n div 64 div 64" "n div 2 ^ 6 = n div 64"
    "n div 262144 = n div 64 div 64 div 64"
    by (simp_all add: div_mult2_eq [symmetric])
  show "n < 2048 \<Longrightarrow> (64 * (n div 64 + 192) + (n mod 64 + 128) mod 64) mod 2048 = n"
  proof -
    have "64 * (n div 64 + 192) + n mod 64 = n + 6 * 2048" using d [of n] by simp
    then show "n < 2048 \<Longrightarrow> ?thesis" by (metis m mod_less mod_mult_self1)
  qed
  show "n < 65536 \<Longrightarrow> (64 * (64 * (n div 4096 + 224) + (n div 2 ^ 6 mod 64 + 128) mod 64) +
      (n mod 64 + 128) mod 64) mod 65536 = n"
  proof -
    have "64 * (64 * (n div 64 div 64 + 224) + n div 64 mod 64) + n mod 64 = n + 14 * 65536"
      using d [of n] d [of "n div 64"] by simp
    then show "n < 65536 \<Longrightarrow> ?thesis" by (simp only: m n12 mod_mult_self1 mod_less)
  qed
  show "n < 2097152 \<Longrightarrow> (64 * (64 * (64 * (n div 262144 + 240) + (n div 2 ^ 12 mod 64 + 128) mod 64) +
      (n div 2 ^ 6 mod 64 + 128) mod 64) + (n mod 64 + 128) mod 64) mod 2097152 = n"
  proof -
    have "64 * (64 * (64 * (n div 64 div 64 div 64 + 240) + n div 64 div 64 mod 64) + n div 64 mod 64) + n mod 64 =
        n + 30 * 2097152"
      using d [of n] d [of "n div 64"] d [of "n div 64 div 64"] by simp
    then show "n < 2097152 \<Longrightarrow> ?thesis" by (simp only: m n12 mod_mult_self1 mod_less)
  qed
qed

lemma six_bound: "a < 8 \<Longrightarrow> b < 64 \<Longrightarrow> c < 64 \<Longrightarrow> 64 * (64 * (a + 240) + b) + c < (2 :: nat) ^ 26"
  by simp

lemma lead_div:
  "q < 16 \<Longrightarrow> (q + 192) div 16 = (12 :: nat)" "q < 16 \<Longrightarrow> (q + 224) div 16 = (14 :: nat)"
  "q < 16 \<Longrightarrow> (q + 240) div 16 = (15 :: nat)" "16 \<le> q \<Longrightarrow> q < 32 \<Longrightarrow> (q + 192) div 16 = (13 :: nat)"
  using div_mult_self1 [of 16 q 12] div_mult_self1 [of 16 q 14] div_mult_self1 [of 16 q 15] div_nat_eqI [of 1 16 q]
  by simp_all

lemma lead_byte: "0x7F < c \<Longrightarrow> utf8_byte_count c \<noteq> 0"
  using div_le_mono [of 128 "unat c" 16] by (simp add: utf8_byte_count_unat gt_7F Let_def)

lemma counts:
  "unat x div 16 = 12 \<Longrightarrow> utf8_byte_count x = 2" "unat x div 16 = 14 \<Longrightarrow> utf8_byte_count x = 3"
  "unat x div 16 = 15 \<Longrightarrow> utf8_byte_count x = 4" "unat x div 16 = 13 \<Longrightarrow> utf8_byte_count x = 1"
  by (simp_all add: utf8_byte_count_unat)

lemma decode_encode:
  assumes "idle s" and "c < 0x200000" and "\<not> (0x400 \<le> c \<and> c < 0x800)" and "encode_u32 b c = Inr xs"
  shows "\<exists>s'. idle s' \<and> sanitize s (xs @ r) = emit [c] (sanitize s' r)"
proof -
  let ?n = "unat c"
  have n: "?n < 0x200000" "\<not> (0x400 \<le> ?n \<and> ?n < 0x800)"
    using assms(2,3) by (simp_all add: word_less_nat_alt word_le_nat_alt)
  consider "c < 0x80" | "0x80 \<le> c" "c < 0x800" | "0x800 \<le> c" "c < 0x10000" | "0x10000 \<le> c" "c < 0x200000"
    using assms(2) by fastforce
  then show ?thesis
  proof cases
    case 1
    then have "unat (ucast c :: byte) = ?n" by (simp add: unat_byte word_less_nat_alt)
    then have "\<not> 0x7F < (ucast c :: byte)" "ucast (ucast c :: byte) = c"
      using 1 by (simp_all add: word_less_nat_alt word_eq_unat)
    with sanitize_ascii [OF assms(1) this(1), of r] utf8_bytes(1) [OF 1, of b] assms(4) show ?thesis by simp
  next
    case 2
    let ?x = "ucast (drop_bit 6 c) OR 0xC0 :: byte" and ?y = "ucast (c AND 0x3F) OR 0x80 :: byte"
    have r: "0x80 \<le> ?n" "?n < 0x400" using 2 n by (simp_all add: word_less_nat_alt word_le_nat_alt)
    then have x: "unat ?x = ?n div 64 + 192" by (simp add: groups)
    have "unat ?x div 16 = 12" unfolding x using r by (intro lead_div) simp
    then have "utf8_byte_count ?x = 2" by (rule counts)
    moreover have "0x7F < ?x" by (simp add: x gt_7F)
    moreover have "unat (next_six (ucast ?x) ?y) = 64 * (?n div 64 + 192) + (?n mod 64 + 128) mod 64"
      using r by (subst unat_next_six) (simp_all only: unat_widen x groups unat_shift, simp)
    then have "next_six (ucast ?x) ?y AND 0x7FF = c"
      using r six_groups(1) [of ?n] by (simp only: word_eq_unat unat_low)
    ultimately show ?thesis
      using sanitize_glyph(1) [OF assms(1), of ?x ?y r] utf8_bytes(2) [OF 2, of b] assms(4) by simp
  next
    case 3
    let ?x = "ucast (drop_bit 12 c) OR 0xE0 :: byte" and ?y = "ucast (drop_bit 6 c AND 0x3F) OR 0x80 :: byte"
      and ?z = "ucast (c AND 0x3F) OR 0x80 :: byte"
    have r: "?n < 0x10000" using 3 by (simp add: word_less_nat_alt)
    then have x: "unat ?x = ?n div 4096 + 224" by (simp add: groups)
    have "unat ?x div 16 = 14" unfolding x using r by (intro lead_div) simp
    then have "utf8_byte_count ?x = 3" by (rule counts)
    moreover have "0x7F < ?x" by (simp add: x gt_7F)
    moreover have "unat (next_six (ucast ?x) ?y) = 64 * (?n div 4096 + 224) + (?n div 2 ^ 6 mod 64 + 128) mod 64"
      using r by (subst unat_next_six) (simp_all only: unat_widen x groups unat_shift, simp)
    then have "unat (next_six (next_six (ucast ?x) ?y) ?z) =
        64 * (64 * (?n div 4096 + 224) + (?n div 2 ^ 6 mod 64 + 128) mod 64) + (?n mod 64 + 128) mod 64"
      using r by (subst unat_next_six) (simp_all only: groups unat_shift, simp)
    then have "next_six (next_six (ucast ?x) ?y) ?z AND 0xFFFF = c"
      using r six_groups(2) [of ?n] by (simp only: word_eq_unat unat_low)
    ultimately show ?thesis
      using sanitize_glyph(2) [OF assms(1), of ?x ?y ?z r] utf8_bytes(3) [OF 3, of b] assms(4) by simp
  next
    case 4
    let ?x = "ucast (drop_bit 18 c) OR 0xF0 :: byte" and ?y = "ucast (drop_bit 12 c AND 0x3F) OR 0x80 :: byte"
      and ?z = "ucast (drop_bit 6 c AND 0x3F) OR 0x80 :: byte" and ?u = "ucast (c AND 0x3F) OR 0x80 :: byte"
    have r: "?n < 0x200000" using n by simp
    then have d8: "?n div 262144 < 8" by simp
    then have x: "unat ?x = ?n div 262144 + 240" by (simp add: groups)
    have "unat ?x div 16 = 15" unfolding x using r by (intro lead_div) simp
    then have "utf8_byte_count ?x = 4" by (rule counts)
    moreover have "0x7F < ?x" by (simp add: x gt_7F)
    moreover have v1: "unat (next_six (ucast ?x) ?y) = 64 * (?n div 262144 + 240) + (?n div 2 ^ 12 mod 64 + 128) mod 64"
      using r by (subst unat_next_six) (simp_all only: unat_widen x groups unat_shift, simp)
    then have v2: "unat (next_six (next_six (ucast ?x) ?y) ?z) =
        64 * (64 * (?n div 262144 + 240) + (?n div 2 ^ 12 mod 64 + 128) mod 64) + (?n div 2 ^ 6 mod 64 + 128) mod 64"
      using r by (subst unat_next_six) (simp_all only: groups unat_shift, simp)
    have "unat (next_six (next_six (ucast ?x) ?y) ?z) < 2 ^ 26"
      unfolding v2 by (intro six_bound d8) simp_all
    then have "unat (next_six (next_six (next_six (ucast ?x) ?y) ?z) ?u) =
        64 * (64 * (64 * (?n div 262144 + 240) + (?n div 2 ^ 12 mod 64 + 128) mod 64) +
          (?n div 2 ^ 6 mod 64 + 128) mod 64) + (?n mod 64 + 128) mod 64"
      by (subst unat_next_six) (simp_all only: v2 groups)
    then have "next_six (next_six (next_six (ucast ?x) ?y) ?z) ?u AND 0x1FFFFF = c"
      using r six_groups(3) [of ?n] by (simp only: word_eq_unat unat_low)
    ultimately show ?thesis
      using sanitize_glyph(3) [OF assms(1), of ?x ?y ?z ?u r] utf8_bytes(4) [OF 4, of b] assms(4) by simp
  qed
qed

lemma idle_init: "idle u8_to_u32_init"
  by (simp add: idle_def u8_to_u32_init_def)

lemma encode_total: "c < 0x200000 \<Longrightarrow> \<exists>xs. encode_u32 b c = Inr xs"
  by (cases "c < 0x80"; cases "c < 0x800"; cases "c < 0x10000") (auto simp: utf8_bytes not_less)

lemma sanitize_encoded:
  assumes "idle s" and "\<forall>c \<in> set cs. c < 0x200000 \<and> \<not> (0x400 \<le> c \<and> c < 0x800)"
  shows "\<exists>bs s'. encode_all b cs = Inr bs \<and> idle s' \<and> sanitize s (bs @ r) = emit cs (sanitize s' r)"
  using assms
proof (induction cs arbitrary: s)
  case (Cons c cs)
  from Cons.prems obtain xs where xs: "encode_u32 b c = Inr xs" using encode_total by fastforce
  from Cons.IH obtain bs where bs: "encode_all b cs = Inr bs" using Cons.prems by fastforce
  from decode_encode [OF Cons.prems(1) _ _ xs, of "bs @ r"] Cons.prems(2) obtain s1 where
    s1: "idle s1" "sanitize s (xs @ bs @ r) = emit [c] (sanitize s1 (bs @ r))" by auto
  from Cons.IH [OF s1(1)] Cons.prems(2) bs obtain s2 where
    "idle s2" "sanitize s1 (bs @ r) = emit cs (sanitize s2 r)" by auto
  with xs bs s1 show ?case by auto
qed auto

section \<open>Invariant of the decoder\<close>

definition wf_u8 :: "u8_to_u32 \<Rightarrow> bool" where
  "wf_u8 s \<longleftrightarrow> length (chars s) = 4 \<and> glyph_size s \<le> 4 \<and> (glyph_size s \<noteq> 0 \<longrightarrow> 0 < pos s \<and> pos s < glyph_size s)"

lemma wf_u8_put:
  assumes "wf_u8 s"
  shows "\<exists>vs s'. sanitizer_put s c = (vs, Inr s') \<and> wf_u8 s' \<and> length vs \<le> 1"
proof -
  have "utf8_byte_count c \<le> 4" by (simp add: utf8_byte_count_def)
  moreover have "0x7F < c \<Longrightarrow> utf8_byte_count c \<noteq> 0" by (rule lead_byte)
  ultimately show ?thesis
    using assms
    by (auto simp: sanitizer_put_def put_u8_def wf_u8_def Let_def intro: Suc_lessI split: prod.splits)
qed

section \<open>Ranges and the sanitizer\<close>

text \<open>States that differ only in left-overs of finished glyphs decode alike.\<close>

definition same_glyph :: "u8_to_u32 \<Rightarrow> u8_to_u32 \<Rightarrow> bool" where
  "same_glyph s t \<longleftrightarrow> wf_u8 s \<and> wf_u8 t \<and> glyph_size s = glyph_size t \<and>
     (glyph_size s \<noteq> 0 \<longrightarrow> pos s = pos t \<and> take (pos s) (chars s) = take (pos t) (chars t))"

lemma build_glyph_take:
  assumes "0 < n" and "n \<le> length cs" and "take n cs = take n ds" and "length ds = length cs"
  shows "build_glyph cs n = build_glyph ds n"
proof -
  have "cs ! 0 = ds ! 0" using assms by (metis nth_take)
  moreover have "take (n - 1) (drop 1 cs) = take (n - 1) (drop 1 ds)"
    using assms(1,3) by (metis One_nat_def Suc_pred drop_take plus_1_eq_Suc diff_Suc_1)
  ultimately show ?thesis by (simp add: build_glyph_def)
qed

lemma take_update_snoc: "p < length cs \<Longrightarrow> take (Suc p) (cs[p := c]) = take p cs @ [c]"
  by (simp add: take_Suc_conv_app_nth)

lemma put_same_glyph:
  assumes "same_glyph s t"
  shows "\<exists>r s' t'. put_u8 s c = (r, s') \<and> put_u8 t c = (r, t') \<and> same_glyph s' t'"
proof -
  have wf: "wf_u8 (snd (put_u8 s c))" "wf_u8 (snd (put_u8 t c))"
    using wf_u8_put [of s c] wf_u8_put [of t c] assms
    by (auto simp: same_glyph_def sanitizer_put_def split: prod.splits)
  define p where "p = (if glyph_size s = 0 then 0 else pos s)"
  define n where "n = (if glyph_size s = 0 then utf8_byte_count c else glyph_size s)"
  have p4: "p < 4" and len: "length (chars s) = 4" "length (chars t) = 4"
    using assms by (auto simp: p_def same_glyph_def wf_u8_def)
  have tk: "take p (chars s) = take p (chars t)"
    using assms by (auto simp: p_def same_glyph_def)
  have up: "take (Suc p) ((chars s)[p := c]) = take (Suc p) ((chars t)[p := c])"
    using p4 len tk by (simp add: take_update_snoc)
  have g: "Suc p = n \<Longrightarrow> build_glyph ((chars s)[p := c]) n = build_glyph ((chars t)[p := c]) n"
    using p4 len up by (intro build_glyph_take) auto
  show ?thesis
  proof (cases "c > 0x7F \<or> glyph_size s \<noteq> 0")
    case True
    then have t: "c > 0x7F \<or> glyph_size t \<noteq> 0" using assms by (simp add: same_glyph_def)
    have gt: "glyph_size t = glyph_size s" "glyph_size s \<noteq> 0 \<Longrightarrow> pos t = pos s"
      using assms by (auto simp: same_glyph_def)
    show ?thesis
      using True t wf up g gt
      by (cases "Suc p = n"; cases "glyph_size s = 0")
        (auto simp: put_u8_def Let_def same_glyph_def p_def n_def)
  next
    case False
    then show ?thesis using assms wf by (auto simp: put_u8_def same_glyph_def)
  qed
qed

lemma sanitize_same_glyph:
  assumes "same_glyph s t"
  shows "\<exists>os s' t'. sanitize s bs = (os, Inr s') \<and> sanitize t bs = (os, Inr t') \<and> same_glyph s' t'"
  using assms
proof (induction bs arbitrary: s t)
  case (Cons c cs)
  from put_same_glyph [OF Cons.prems, of c] obtain v d s1 t1 where
    "put_u8 s c = ((v, d), s1)" "put_u8 t c = ((v, d), t1)" "same_glyph s1 t1" by auto
  moreover from Cons.IH [OF this(3)] obtain os s' t' where
    "sanitize s1 cs = (os, Inr s')" "sanitize t1 cs = (os, Inr t')" "same_glyph s' t'" by blast
  ultimately show ?case by (cases d) (simp_all add: sanitizer_put_def)
qed simp

lemma same_glyph_idle: "idle s \<Longrightarrow> idle t \<Longrightarrow> same_glyph s t"
  by (simp add: idle_def same_glyph_def wf_u8_def)

lemma put_u8_done:
  assumes "wf_u8 s" and "put_u8 s c = ((v, d), s')"
  shows "if d then idle s' else glyph_size s' \<noteq> 0"
proof -
  have "0x7F < c \<Longrightarrow> utf8_byte_count c \<noteq> 0" by (rule lead_byte)
  with assms show ?thesis
    by (auto simp: put_u8_def Let_def idle_def wf_u8_def split: if_splits)
qed

lemma deref_sanitize:
  assumes "wf_u8 s"
  shows "case deref_from s bs of
      Inr (v, r) \<Rightarrow> (\<exists>s'. idle s' \<and> sanitize s bs = emit [v] (sanitize s' r))
    | Inl f \<Rightarrow> f = Undefined \<and> (\<exists>s'. sanitize s bs = ([], Inr s') \<and> (bs \<noteq> [] \<longrightarrow> glyph_size s' \<noteq> 0))"
  using assms
proof (induction bs arbitrary: s)
  case (Cons c cs)
  obtain v d s1 where p: "put_u8 s c = ((v, d), s1)" by (metis prod.exhaust)
  have wf: "wf_u8 s1" using wf_u8_put [OF Cons.prems, of c] p by (simp add: sanitizer_put_def)
  show ?case
  proof (cases d)
    case True
    with put_u8_done [OF Cons.prems p] p show ?thesis by (auto simp: sanitizer_put_def)
  next
    case False
    with put_u8_done [OF Cons.prems p] have "glyph_size s1 \<noteq> 0" by simp
    with Cons.IH [OF wf] p False show ?thesis
      by (cases cs) (auto simp: sanitizer_put_def split: sum.splits)
  qed
qed simp

lemma iterate_builds: "iterate Debug cs = Inl Assertion \<or> iterate Debug cs = iterate Release cs"
proof (induction "length cs" arbitrary: cs rule: less_induct)
  case less
  show ?case
  proof (cases "dereference Debug cs")
    case (Inl f)
    then show ?thesis
      by (subst (1 2 3) iterate.simps)
        (auto simp: dereference_def defined_if_def boost_assert_def rbind_def split: if_splits sum.splits)
  next
    case (Inr p)
    then obtain v r where p: "dereference Debug cs = Inr (v, r)" "dereference Release cs = Inr (v, r)"
      by (cases p) (auto simp: dereference_def defined_if_def boost_assert_def rbind_def split: if_splits)
    then have "length r < length cs"
      by (auto simp: dereference_def defined_if_def boost_assert_def rbind_def deref_from_length split: if_splits)
    with less have "iterate Debug r = Inl Assertion \<or> iterate Debug r = iterate Release r" by blast
    then show ?thesis using p by (subst (1 2 3) iterate.simps) auto
  qed
qed

lemma iterate_sanitize:
  "iterate Release bs =
     (case sanitize u8_to_u32_init bs of
        (os, Inr s') \<Rightarrow> if glyph_size s' = 0 then Inr os else Inl Undefined
      | (_, Inl f) \<Rightarrow> Inl f)"
proof (induction "length bs" arbitrary: bs rule: less_induct)
  case less
  show ?case
  proof (cases "bs = []")
    case True
    then show ?thesis by (subst iterate.simps) (simp add: u8_to_u32_init_def)
  next
    case False
    have wf: "wf_u8 u8_to_u32_init" by (simp add: wf_u8_def u8_to_u32_init_def)
    show ?thesis
    proof (cases "deref_from u8_to_u32_init bs")
      case (Inl f)
      with deref_sanitize [OF wf, of bs] False show ?thesis
        by (subst iterate.simps) (auto simp: dereference_def)
    next
      case (Inr vr)
      then obtain v r where d: "deref_from u8_to_u32_init bs = Inr (v, r)" by (cases vr) auto
      with deref_sanitize [OF wf, of bs] obtain s1 where
        s1: "idle s1" "sanitize u8_to_u32_init bs = emit [v] (sanitize s1 r)" by auto
      from sanitize_same_glyph [OF same_glyph_idle [OF s1(1) idle_init], of r] obtain os s2 t2 where
        "sanitize s1 r = (os, Inr s2)" "sanitize u8_to_u32_init r = (os, Inr t2)" "same_glyph s2 t2" by blast
      moreover have "length r < length bs" using d by (rule deref_from_length)
      ultimately show ?thesis using less [of r] s1 d False
        by (subst iterate.simps) (auto simp: dereference_def same_glyph_def)
    qed
  qed
qed

text \<open>Bytes a glyph still waits for: they get fewer until it is complete.\<close>

definition missing :: "u8_to_u32 \<Rightarrow> nat" where
  "missing s = (if glyph_size s = 0 then 4 else glyph_size s - pos s)"

lemma missing_decreases:
  assumes "wf_u8 s" and "sanitizer_put s c = ([], Inr s')"
  shows "missing s' < missing s \<and> wf_u8 s' \<and> 0 < missing s"
proof -
  have "utf8_byte_count c \<le> 4" by (simp add: utf8_byte_count_def)
  moreover have "0x7F < c \<Longrightarrow> utf8_byte_count c \<noteq> 0" by (rule lead_byte)
  moreover have "wf_u8 s'" using wf_u8_put [OF assms(1), of c] assms(2) by auto
  ultimately show ?thesis using assms
    by (auto simp: sanitizer_put_def put_u8_def wf_u8_def missing_def Let_def split: prod.splits if_splits)
qed

lemma sanitize_emits:
  "wf_u8 s \<Longrightarrow> missing s \<le> length bs \<Longrightarrow> fst (sanitize s bs) \<noteq> []"
proof (induction bs arbitrary: s)
  case Nil
  then show ?case by (auto simp: missing_def wf_u8_def split: if_splits)
next
  case (Cons c cs)
  from wf_u8_put [OF Cons.prems(1), of c] obtain vs s' where p: "sanitizer_put s c = (vs, Inr s')" by blast
  show ?case
  proof (cases vs)
    case Nil
    with missing_decreases [OF Cons.prems(1)] p have "missing s' < missing s" "wf_u8 s'" by auto
    then have "fst (sanitize s' cs) \<noteq> []" using Cons.prems(2) by (intro Cons.IH) simp_all
    with p show ?thesis by (simp add: emit_def)
  qed (use p in \<open>simp add: emit_def\<close>)
qed

section \<open>Properties\<close>

text \<open>C16. UTF-8 round trip: what the encoder writes for code points, the decoder gives back, one by one and whatever
  follows, except for those from U+0400 to U+07FF.\<close>

theorem utf8_roundtrip:
  assumes "\<forall>c \<in> set cs. c < 0x200000 \<and> \<not> (0x400 \<le> c \<and> c < 0x800)"
  shows "\<exists>bs s'. encode_all b cs = Inr bs \<and> idle s' \<and> sanitize u8_to_u32_init (bs @ r) = emit cs (sanitize s' r)"
  using sanitize_encoded [OF idle_init assms] .

theorem utf8_roundtrip_witness:
  "\<exists>bs s'. encode_all Debug [0x41, 0xE4, 0x20AC, 0x1F600] = Inr bs \<and> idle s' \<and>
     sanitize u8_to_u32_init (bs @ []) = emit [0x41, 0xE4, 0x20AC, 0x1F600] (sanitize s' [])"
  by (rule utf8_roundtrip) simp

text \<open>The code points from U+0400 to U+07FF (Cyrillic, Hebrew, Arabic and others) are lost: their lead bytes
  0xD0 to 0xDF are taken for complete characters, so each of the two bytes gives a code point of its own.\<close>

theorem utf8_lost:
  assumes "0x400 \<le> c" and "c < 0x800"
  shows "\<exists>x y s'. encode_u32 b c = Inr [x, y] \<and>
    sanitize u8_to_u32_init [x, y] = ([ucast x AND 0x7F, ucast y AND 0x7F], Inr s')"
proof -
  let ?x = "ucast (drop_bit 6 c) OR 0xC0 :: byte" and ?y = "ucast (c AND 0x3F) OR 0x80 :: byte"
  have n: "0x400 \<le> unat c" "unat c < 0x800" using assms by (simp_all add: word_less_nat_alt word_le_nat_alt)
  then have x: "unat ?x = unat c div 64 + 192" by (simp add: groups)
  have "16 \<le> unat c div 64" "unat c div 64 < 32" using n by simp_all
  then have "utf8_byte_count ?x = 1" "0x7F < ?x" by (simp_all add: counts lead_div x gt_7F)
  from sanitize_single [OF idle_init this(2,1), of "[?y]"] obtain s1 where
    s1: "idle s1" "sanitize u8_to_u32_init [?x, ?y] = emit [ucast ?x AND 0x7F] (sanitize s1 [?y])" by blast
  have y: "unat ?y = unat c mod 64 + 128" by (rule groups)
  then have "unat ?y div 16 \<noteq> 0" "unat ?y div 16 < 12" by simp_all
  then have "utf8_byte_count ?y = 1" by (simp add: utf8_byte_count_unat Let_def)
  moreover have "0x7F < ?y" by (simp add: gt_7F y)
  ultimately obtain s2 where "sanitize s1 [?y] = emit [ucast ?y AND 0x7F] (sanitize s2 [])"
    using sanitize_single [OF s1(1), of ?y "[]"] by blast
  moreover have "0x80 \<le> c" using assms(1) by (rule order_trans [rotated]) simp
  ultimately show ?thesis using s1 assms(2) by (simp add: utf8_bytes)
qed

theorem utf8_lost_witness:
  "\<exists>x y s'. encode_u32 Debug 0x410 = Inr [x, y] \<and>
    sanitize u8_to_u32_init [x, y] = ([ucast x AND 0x7F, ucast y AND 0x7F], Inr s')"
  by (rule utf8_lost) simp_all

text \<open>C17. Walking a range of bytes with the iterators of a build without assertions gives what the sanitizer calls back
  with for the same bytes; if the last glyph is not complete, the iterator reads past the end.  A build with
  assertions gives the same, or one of its assertions fails; it does for every range that starts with a continuation
  byte, which the sanitizer passes on.\<close>

theorem utf8_range_sanitizer:
  "iterate Release bs =
     (case sanitize u8_to_u32_init bs of
        (os, Inr s') \<Rightarrow> if glyph_size s' = 0 then Inr os else Inl Undefined
      | (_, Inl f) \<Rightarrow> Inl f) \<and>
   (iterate Debug bs = Inl Assertion \<or> iterate Debug bs = iterate Release bs) \<and>
   (c AND 0xC0 = 0x80 \<longrightarrow> iterate Debug (c # bs) = Inl Assertion)"
proof (intro conjI impI)
  show "iterate Debug (c # bs) = Inl Assertion" if "c AND 0xC0 = 0x80"
    using that by (subst iterate.simps) (simp add: dereference_def)
qed (rule iterate_sanitize iterate_builds)+

theorem utf8_range_sanitizer_witness:
  "iterate Debug [0x80, 0x41] = Inl Assertion"
  using utf8_range_sanitizer [of "[0x41]" "0x80"] by simp

text \<open>The decoder never gets stuck, whatever the bytes: it never fails, it stays in its four bytes, and any
  four bytes make it call back.\<close>

theorem utf8_live:
  assumes "wf_u8 s"
  shows "\<exists>os s'. sanitize s bs = (os, Inr s') \<and> wf_u8 s' \<and> (4 \<le> length bs \<longrightarrow> os \<noteq> [])"
proof -
  have "\<And>s c. wf_u8 s \<Longrightarrow> \<exists>os s'. sanitizer_put s c = (os, Inr s') \<and> wf_u8 s'"
    using wf_u8_put by blast
  from utf8.read_total [of wf_u8, OF this assms] obtain os s' where
    r: "sanitize s bs = (os, Inr s')" "wf_u8 s'" by blast
  have "missing s \<le> 4" using assms by (auto simp: missing_def wf_u8_def)
  then have "4 \<le> length bs \<longrightarrow> os \<noteq> []" using sanitize_emits [OF assms, of bs] r by auto
  with r show ?thesis by blast
qed

theorem utf8_live_witness:
  "\<exists>os s'. sanitize u8_to_u32_init [0xFF, 0xFF, 0xFF, 0xFF] = (os, Inr s') \<and> wf_u8 s' \<and>
     (4 \<le> length [0xFF, 0xFF, 0xFF, 0xFF :: byte] \<longrightarrow> os \<noteq> [])"
  by (rule utf8_live) (simp add: wf_u8_def u8_to_u32_init_def)
end
