(* ===== verification/Hash.thy ===== *)
theory Hash
  imports Object "HOL-Library.Multiset"
begin

unbundle bit_operations_syntax

text \<open>
  Hash values of objects and containers (\<^verbatim>\<open>object.cpp\<close>, \<^verbatim>\<open>container.cpp\<close> and the \<^verbatim>\<open>std::hash\<close> specialisations of
  the intrinsic types) and what is decided with them: equality of objects and of the keys of a table.

  Hash functions of the standard library and of Boost are a parameter, given as one function of the hashed
  value with its type; the hash values of \<^verbatim>\<open>null\<close> and \<^verbatim>\<open>eod\<close> are random numbers of the build.  A size is 64 bits.
\<close>

section \<open>Hash values\<close>

record hash_env =
  std_hash :: "object \<Rightarrow> u64"
  null_hash :: u64
  eod_hash :: u64
  hash_host :: endian

text \<open>The loop all containers have.\<close>

definition xor_all :: "u64 list \<Rightarrow> u64" where
  "xor_all hs = foldl (\<lambda>h c. h XOR push_bit 1 c) 0 hs"

text \<open>Without assertions the number of an OBIS code is always defined.\<close>

definition obis_hash :: "hash_env \<Rightarrow> obis \<Rightarrow> u64" where
  "obis_hash e c = (case hash_obis Release (hash_host e) c of Inr r \<Rightarrow> r | Inl f \<Rightarrow> 0)"

definition obis_path_hash :: "hash_env \<Rightarrow> obis_path \<Rightarrow> u64" where
  "obis_path_hash e p = (case hash_obis_path Release (hash_host e) 0 p of Inr r \<Rightarrow> r | Inl f \<Rightarrow> 0)"

definition buffer_hash :: "hash_env \<Rightarrow> byte list \<Rightarrow> u64" where
  "buffer_hash e b = xor_all (map (\<lambda>c. std_hash e (OChar c)) b)"

definition bytes_hash :: "hash_env \<Rightarrow> byte list \<Rightarrow> u64" where
  "bytes_hash e b = xor_all (map (\<lambda>c. std_hash e (OU8 c)) b)"

text \<open>The words of a \<^verbatim>\<open>mac64\<close> are passed to the hash function of bytes.\<close>

definition mac64_hash :: "hash_env \<Rightarrow> mac64 \<Rightarrow> u64" where
  "mac64_hash e m = xor_all (map (\<lambda>w. std_hash e (OU8 (ucast w))) (get_words m))"

definition pair_hash :: "u64 \<Rightarrow> u64 \<Rightarrow> u64" where
  "pair_hash k v = (0 XOR push_bit 1 k) XOR push_bit 1 v"

fun object_hash :: "hash_env \<Rightarrow> object \<Rightarrow> u64" where
  "object_hash e (OTuple v) = xor_all (map (object_hash e) v)"
| "object_hash e (OVector v) = xor_all (map (object_hash e) v)"
| "object_hash e (ODeque v) = xor_all (map (object_hash e) v)"
| "object_hash e (OAttr k v) = pair_hash (std_hash e (OU64 k)) (object_hash e v)"
| "object_hash e (OParam k v) = pair_hash (std_hash e (OString k)) (object_hash e v)"
| "object_hash e (OProp k v) = pair_hash (obis_hash e k) (object_hash e v)"
| "object_hash e (OAttrMap m) = xor_all (map (\<lambda>p. pair_hash (std_hash e (OU64 (fst p))) (object_hash e (snd p))) m)"
| "object_hash e (OParamMap m) =
     xor_all (map (\<lambda>p. pair_hash (std_hash e (OString (fst p))) (object_hash e (snd p))) m)"
| "object_hash e (OPropMap m) = xor_all (map (\<lambda>p. pair_hash (obis_hash e (fst p)) (object_hash e (snd p))) m)"
| "object_hash e (OPrg p) = xor_all (map (buffer_hash e) p)"
| "object_hash e (OBuffer b) = buffer_hash e b"
| "object_hash e (OMac48 m) = bytes_hash e (get_octets m)"
| "object_hash e (OMac64 m) = mac64_hash e m"
| "object_hash e (OOctets Uuid b) = std_hash e (OOctets Uuid b)"
| "object_hash e (OOctets t b) = bytes_hash e b"
| "object_hash e (OObis c) = obis_hash e c"
| "object_hash e (OObisPath p) = obis_path_hash e p"
| "object_hash e (OEdis c) = edis_to_uint32 c"
| "object_hash e (OVersion v) = std_hash e (OU32 (version_full v))"
| "object_hash e (ORevision v) = std_hash e (OU64 (revision_full v))"
| "object_hash e (OChrono t n) = n"
| "object_hash e (OOp c) = ucast c"
| "object_hash e (OSeverity l) = ucast l"
| "object_hash e (OPid p) = ucast p"
| "object_hash e (OEc v c) = scast v"
| "object_hash e ONull = null_hash e"
| "object_hash e OEod = eod_hash e"
| "object_hash e obj = std_hash e obj"

section \<open>Equality by hash: operator==, equal\_to, less\<close>

definition object_eq :: "hash_env \<Rightarrow> object \<Rightarrow> object \<Rightarrow> bool" where
  "object_eq e a b \<longleftrightarrow> object_hash e a = object_hash e b"

type_synonym key = "object list"

definition key_hash :: "hash_env \<Rightarrow> key \<Rightarrow> u64" where
  "key_hash e k = object_hash e (OVector k)"

definition key_equal :: "hash_env \<Rightarrow> key \<Rightarrow> key \<Rightarrow> bool" where
  "key_equal e k l \<longleftrightarrow> (if length k = length l then key_hash e k = key_hash e l else False)"

definition key_less :: "hash_env \<Rightarrow> key \<Rightarrow> key \<Rightarrow> bool" where
  "key_less e k l \<longleftrightarrow> (if length k = length l then key_hash e k < key_hash e l else True)"

lemma key_equal_equiv [simp, intro]: "key_equal e k k"
  and key_equal_sym: "key_equal e k l \<Longrightarrow> key_equal e l k"
  and key_equal_trans: "key_equal e k l \<Longrightarrow> key_equal e l m \<Longrightarrow> key_equal e k m"
  and key_equal_length: "key_equal e k l \<Longrightarrow> length k = length l"
  by (simp_all add: key_equal_def split: if_splits)

lemma key_equal_cong: "key_equal e k l \<Longrightarrow> key_equal e k m \<longleftrightarrow> key_equal e l m"
  by (auto simp: key_equal_def split: if_splits)

section \<open>The combination of hash values\<close>

lemma xor_foldl: "foldl (\<lambda>h c. h XOR push_bit 1 c) a hs = a XOR foldl (\<lambda>h c. h XOR push_bit 1 c) (0 :: u64) hs"
proof (induction hs arbitrary: a)
  case (Cons c hs)
  show ?case
    by (simp only: foldl_Cons Cons.IH [of "a XOR push_bit 1 c"] Cons.IH [of "push_bit 1 c"]
        xor.assoc xor.left_neutral)
qed simp

lemma xor_all_Nil [simp]: "xor_all [] = 0"
  by (simp add: xor_all_def)

lemma xor_all_Cons: "xor_all (h # hs) = push_bit 1 h XOR xor_all hs"
  unfolding xor_all_def foldl_Cons xor.left_neutral by (rule xor_foldl)

lemma xor_all_append: "xor_all (hs @ hs') = xor_all hs XOR xor_all hs'"
  by (induction hs) (simp_all only: append_Nil append_Cons xor_all_Cons xor_all_Nil xor.left_neutral xor.assoc)

lemma xor_all_mset: "mset hs = mset hs' \<Longrightarrow> xor_all hs = xor_all hs'"
proof (induction hs arbitrary: hs')
  case (Cons h hs)
  then have "h \<in> set hs'" by (metis list.set_intros(1) set_mset_mset)
  then obtain xs ys where hs': "hs' = xs @ h # ys" by (meson split_list)
  with Cons have "xor_all hs = xor_all (xs @ ys)" by simp
  then show ?case unfolding hs' xor_all_append xor_all_Cons by (simp only: xor.left_commute)
qed simp

lemma key_equal_mset: "mset k = mset l \<Longrightarrow> key_equal e k l"
  by (auto simp: key_equal_def key_hash_def dest: mset_eq_length
      intro: xor_all_mset arg_cong [where f = "image_mset (object_hash e)"])

end
