(* ===== verification/Schema.thy ===== *)
theory Schema
  imports Hash
begin

text \<open>
  The schema of a table and one of its rows: \<^verbatim>\<open>include/cyng/store/meta.h\<close>, \<^verbatim>\<open>src/store/src/meta.cpp\<close>,
  \<^verbatim>\<open>record.h\<close> and \<^verbatim>\<open>record.cpp\<close>.  Indices are 64 bits wide; the index of a missing column is the largest one.
\<close>

section \<open>Schema: meta.h\<close>

record column =
  col_name :: "byte list"
  col_type :: nat

record column_sql = column +
  col_width :: nat

record 'c meta =
  meta_name :: "byte list"
  columns :: "'c list"
  pk_size :: nat

type_synonym meta_store = "column meta"
type_synonym meta_sql = "column_sql meta"

definition make_meta :: "build \<Rightarrow> byte list \<Rightarrow> 'c list \<Rightarrow> nat \<Rightarrow> 'c meta result" where
  "make_meta b name cols pk =
     rbind (boost_assert b (pk < length cols)) (\<lambda>_. Inr \<lparr>meta_name = name, columns = cols, pk_size = pk\<rparr>)"

definition meta_size :: "'c meta \<Rightarrow> nat" where
  "meta_size m = length (columns m)"

text \<open>An unsigned difference: it wraps if a key is larger than its table.\<close>

definition body_size :: "'c meta \<Rightarrow> u64" where
  "body_size m = word_of_nat (meta_size m) - word_of_nat (pk_size m)"

definition null_column :: column where
  "null_column = \<lparr>col_name = str '''', col_type = TC_EOD\<rparr>"

definition get_column :: "meta_store \<Rightarrow> nat \<Rightarrow> column" where
  "get_column m c = (if c < meta_size m then columns m ! c else null_column)"

text \<open>The member is \<^verbatim>\<open>noexcept\<close>: an index that \<^verbatim>\<open>at\<close> refuses ends the program.\<close>

definition get_body_column :: "meta_store \<Rightarrow> u64 \<Rightarrow> column result" where
  "get_body_column m c =
     (if c < body_size m then
        (let i = c + word_of_nat (pk_size m) in
         rbind (throw_unless (unat i < meta_size m)) (\<lambda>_. Inr (columns m ! unat i)))
      else Inr null_column)"

definition npos :: u64 where "npos = - 1"

definition get_index_by_name :: "('c column_scheme) meta \<Rightarrow> byte list \<Rightarrow> u64" where
  "get_index_by_name m name =
     (case index_of name (map col_name (columns m)) of Some i \<Rightarrow> word_of_nat i | None \<Rightarrow> npos)"

definition get_body_index_by_name :: "('c column_scheme) meta \<Rightarrow> byte list \<Rightarrow> u64" where
  "get_body_index_by_name m name =
     (let idx = get_index_by_name m name in if idx \<noteq> npos then idx - word_of_nat (pk_size m) else idx)"

definition is_pk :: "'c meta \<Rightarrow> u64 \<Rightarrow> bool" where
  "is_pk m c \<longleftrightarrow> c < word_of_nat (pk_size m)"

definition is_pk_name :: "('c column_scheme) meta \<Rightarrow> byte list \<Rightarrow> bool" where
  "is_pk_name m name \<longleftrightarrow> is_pk m (get_index_by_name m name)"

definition has_pk :: "'c meta \<Rightarrow> bool" where
  "has_pk m \<longleftrightarrow> pk_size m \<noteq> 0"

definition check_key_integrity :: "'c meta \<Rightarrow> key \<Rightarrow> bool" where
  "check_key_integrity m key \<longleftrightarrow> length key = pk_size m"

definition check_data_integrity :: "'c meta \<Rightarrow> object list \<Rightarrow> bool" where
  "check_data_integrity m data \<longleftrightarrow> length data = unat (body_size m)"

definition check_integrity :: "'c meta \<Rightarrow> key \<Rightarrow> object list \<Rightarrow> bool" where
  "check_integrity m key data \<longleftrightarrow> check_key_integrity m key \<and> check_data_integrity m data"

text \<open>What \<^verbatim>\<open>loop\<close> calls back with, in order: index in key or body, column, part of the key.\<close>

definition meta_loop :: "'c meta \<Rightarrow> (nat \<times> 'c \<times> bool) list" where
  "meta_loop m = map (\<lambda>(idx, col). (if idx < pk_size m then idx else idx - pk_size m, col, idx < pk_size m))
     (enumerate 0 (columns m))"

section \<open>Conversion of schemas: meta.cpp\<close>

text \<open>The C locale; a negative \<^verbatim>\<open>char\<close> is outside of the domain of \<^verbatim>\<open>toupper\<close> and \<^verbatim>\<open>tolower\<close>.\<close>

definition toupper :: "byte \<Rightarrow> byte result" where
  "toupper c = rbind (defined_if (c < 0x80)) (\<lambda>_. Inr (if 0x61 \<le> c \<and> c \<le> 0x7A then c - 0x20 else c))"

definition tolower :: "byte \<Rightarrow> byte result" where
  "tolower c = rbind (defined_if (c < 0x80)) (\<lambda>_. Inr (if 0x41 \<le> c \<and> c \<le> 0x5A then c + 0x20 else c))"

definition sql_of_column :: "column \<Rightarrow> nat \<Rightarrow> column_sql" where
  "sql_of_column col width = \<lparr>col_name = col_name col, col_type = col_type col, col_width = width\<rparr>"

definition gen_column :: column_sql where
  "gen_column = \<lparr>col_name = str ''gen'', col_type = 9, col_width = 0\<rparr>"

text \<open>One call of the lambda: its state is whether \<^verbatim>\<open>gen\<close> is inserted, the next width and the result so far.\<close>

definition to_sql_step ::
    "nat list \<Rightarrow> bool \<times> nat \<times> column_sql list \<Rightarrow> nat \<times> column \<times> bool \<Rightarrow> (bool \<times> nat \<times> column_sql list) result" where
  "to_sql_step width = (\<lambda>(gen, w, vec) (idx, col, pk).
     if \<not> pk \<and> \<not> gen then
       rbind (throw_unless (w < length width)) (\<lambda>_.
       Inr (True, w + 1, vec @ [gen_column, sql_of_column col (width ! w)]))
     else if w < length width then Inr (gen, w + 1, vec @ [sql_of_column col (width ! w)])
     else Inr (gen, w, vec @ [sql_of_column col 0]))"

fun to_sql_loop ::
    "nat list \<Rightarrow> bool \<times> nat \<times> column_sql list \<Rightarrow> (nat \<times> column \<times> bool) list \<Rightarrow> column_sql list result" where
  "to_sql_loop width s [] = Inr (snd (snd s))"
| "to_sql_loop width s (x # xs) = rbind (to_sql_step width s x) (\<lambda>s'. to_sql_loop width s' xs)"

definition to_sql :: "build \<Rightarrow> meta_store \<Rightarrow> nat list \<Rightarrow> meta_sql result" where
  "to_sql b m width =
     rbind (boost_assert b (meta_size m = length width)) (\<lambda>_.
     rbind (to_sql_loop width (False, 0, []) (meta_loop m)) (\<lambda>vec.
     rbind (case meta_name m of [] \<Rightarrow> Inr [] | c # cs \<Rightarrow> rbind (toupper c) (\<lambda>u. Inr (u # cs))) (\<lambda>name.
     make_meta b (str ''T'' @ name) vec (pk_size m))))"

definition mem_of_column :: "column_sql \<Rightarrow> column" where
  "mem_of_column col = \<lparr>col_name = col_name col, col_type = col_type col\<rparr>"

definition to_mem :: "build \<Rightarrow> meta_sql \<Rightarrow> meta_store result" where
  "to_mem b m =
     (let vec = map (\<lambda>(idx, col, pk). mem_of_column col)
                  (filter (\<lambda>(idx, col, pk). col_name col \<noteq> str ''gen'') (meta_loop m)) in
     rbind (if length (meta_name m) > 1 \<and> hd (meta_name m) = 0x54 then
              rbind (tolower (meta_name m ! 1)) (\<lambda>c. Inr (c # drop 2 (meta_name m)))
            else Inr (meta_name m)) (\<lambda>name.
     make_meta b name vec (pk_size m)))"

section \<open>Rows: record.h, record.cpp\<close>

record row =
  rec_meta :: meta_store
  rec_key :: key
  rec_data :: "object list"
  rec_gen :: u64

definition empty_record :: "meta_store \<Rightarrow> row" where
  "empty_record m = \<lparr>rec_meta = m, rec_key = [], rec_data = [], rec_gen = 0\<rparr>"

definition rec_empty :: "row \<Rightarrow> bool" where
  "rec_empty r \<longleftrightarrow> \<not> check_integrity (rec_meta r) (rec_key r) (rec_data r)"

definition get_tuple :: "row \<Rightarrow> object list" where
  "get_tuple r = rec_key r @ rec_data r"

text \<open>\<^verbatim>\<open>at\<close> of a vector.\<close>

definition checked_at :: "'a list \<Rightarrow> nat \<Rightarrow> 'a result" where
  "checked_at xs i = rbind (throw_unless (i < length xs)) (\<lambda>_. Inr (xs ! i))"

fun collect ::
    "row \<Rightarrow> (byte list, object) std_map \<times> (byte list, object) std_map \<Rightarrow> (nat \<times> column \<times> bool) list \<Rightarrow>
     ((byte list, object) std_map \<times> (byte list, object) std_map) result" where
  "collect r km [] = Inr km"
| "collect r km ((idx, col, pk) # xs) =
     (if pk then rbind (checked_at (rec_key r) idx) (\<lambda>obj. collect r (map_assign (col_name col) obj (fst km), snd km) xs)
      else rbind (checked_at (rec_data r) idx) (\<lambda>obj. collect r (fst km, map_assign (col_name col) obj (snd km)) xs))"

definition to_tuple :: "row \<Rightarrow> (byte list, object) std_map \<Rightarrow> object result" where
  "to_tuple r pm =
     rbind (collect r ([], []) (meta_loop (rec_meta r))) (\<lambda>(key, data).
     let data' = map_assign (str ''gen'') (OU64 (rec_gen r)) data;
         data'' = foldl (\<lambda>d (k, v). map_assign k v d) data' pm
     in Inr (OTuple [OParam (str ''key'') (OParamMap key), OParam (str ''data'') (OParamMap data'')]))"

definition get_data :: "row \<Rightarrow> u64 \<Rightarrow> object" where
  "get_data r idx = (if unat idx < length (rec_data r) then rec_data r ! unat idx else ONull)"

definition rec_at :: "row \<Rightarrow> u64 \<Rightarrow> object result" where
  "rec_at r idx =
     (if unat idx < meta_size (rec_meta r) then
        (if is_pk (rec_meta r) idx then checked_at (rec_key r) (unat idx)
         else Inr (get_data r (idx - word_of_nat (pk_size (rec_meta r)))))
      else Inr ONull)"

definition rec_at_name :: "row \<Rightarrow> byte list \<Rightarrow> object result" where
  "rec_at_name r name = rec_at r (get_index_by_name (rec_meta r) name)"

section \<open>Conversion of schemas and back\<close>

text \<open>A run of columns that does not insert \<^verbatim>\<open>gen\<close>.\<close>

lemma to_sql_run:
  assumes "\<And>x. x \<in> set xs \<Longrightarrow> snd (snd x) \<or> g" and "w + length xs \<le> length width"
  shows "to_sql_loop width (g, w, vec) (xs @ ys) =
    to_sql_loop width (g, w + length xs,
      vec @ map2 sql_of_column (map (fst \<circ> snd) xs) (take (length xs) (drop w width))) ys"
  using assms
proof (induction xs arbitrary: w vec)
  case (Cons x xs)
  obtain i c p where x: "x = (i, c, p)" by (metis prod_cases3)
  have "p \<or> g" using Cons.prems(1) [of x] x by simp
  have d: "take (Suc (length xs)) (drop w width) = width ! w # take (length xs) (drop (Suc w) width)"
    using Cons.prems(2) by (simp add: Cons_nth_drop_Suc [symmetric])
  have "to_sql_loop width (g, w, vec) ((x # xs) @ ys) =
      to_sql_loop width (g, Suc w, vec @ [sql_of_column c (width ! w)]) (xs @ ys)"
    using Cons.prems(2) \<open>p \<or> g\<close> by (auto simp: x to_sql_step_def)
  also have "\<dots> = to_sql_loop width (g, Suc w + length xs, (vec @ [sql_of_column c (width ! w)]) @
      map2 sql_of_column (map (fst \<circ> snd) xs) (take (length xs) (drop (Suc w) width))) ys"
    using Cons.prems by (intro Cons.IH) auto
  finally show ?case by (simp del: to_sql_loop.simps add: x d comp_def)
qed simp

lemma meta_loop_split:
  assumes "columns m = ks @ c # bs" and "length ks = pk_size m"
  shows "\<exists>xs ys. meta_loop m = xs @ (0, c, False) # ys \<and> map (fst \<circ> snd) xs = ks \<and> map (fst \<circ> snd) ys = bs \<and>
    (\<forall>x \<in> set xs. snd (snd x))"
proof -
  let ?f = "\<lambda>(idx, col). (if idx < pk_size m then idx else idx - pk_size m, col, idx < pk_size m)"
  have fst_snd: "map (fst \<circ> snd) (map ?f (enumerate n cs)) = cs" for n and cs :: "'a list"
    by (simp add: comp_def case_prod_unfold)
  have "meta_loop m = map ?f (enumerate 0 ks) @ (0, c, False) # map ?f (enumerate (Suc (length ks)) bs)"
    using assms by (simp add: meta_loop_def enumerate_append_eq)
  moreover have "\<forall>x \<in> set (map ?f (enumerate 0 ks)). snd (snd x)"
    using assms by (auto simp: in_set_enumerate_eq)
  ultimately show ?thesis using fst_snd by blast
qed

lemma map_snd_meta_loop: "map (fst \<circ> snd) (meta_loop m) = columns m"
  by (simp add: meta_loop_def comp_def case_prod_unfold)

lemma sql_mem: "mem_of_column (sql_of_column c w) = c" "col_name (sql_of_column c w) = col_name c"
  by (simp_all add: mem_of_column_def sql_of_column_def)

lemma mem_columns: "map (\<lambda>(idx, col, pk). mem_of_column col)
    (filter (\<lambda>(idx, col, pk). col_name col \<noteq> str ''gen'') xs) =
  map mem_of_column (filter (\<lambda>col. col_name col \<noteq> str ''gen'') (map (fst \<circ> snd) xs))"
  by (induction xs) auto

lemma mem_map2_sql:
  assumes "length cs = length ws" and "\<forall>c \<in> set cs. col_name c \<noteq> str ''gen''"
  shows "map mem_of_column (filter (\<lambda>col. col_name col \<noteq> str ''gen'') (map2 sql_of_column cs ws)) = cs"
  using assms by (induction cs ws rule: list_induct2) (simp_all add: sql_mem)

lemma to_sql_columns:
  assumes "columns m = ks @ c # bs" and "length ks = pk_size m" and "length width = meta_size m"
  shows "\<exists>w1 w w2. to_sql_loop width (False, 0, []) (meta_loop m) =
      Inr (map2 sql_of_column ks w1 @ [gen_column, sql_of_column c w] @ map2 sql_of_column bs w2) \<and>
    length w1 = length ks \<and> length w2 = length bs"
proof -
  obtain xs ys where l: "meta_loop m = xs @ (0, c, False) # ys" "map (fst \<circ> snd) xs = ks"
    "map (fst \<circ> snd) ys = bs" "\<forall>x \<in> set xs. snd (snd x)"
    using meta_loop_split [OF assms(1,2)] by blast
  from l(2,3) have len: "length xs = length ks" "length ys = length bs" by auto
  have wl: "length width = length ks + 1 + length bs" using assms by (simp add: meta_size_def)
  let ?w1 = "take (length ks) width" and ?w = "width ! length ks" and ?w2 = "drop (Suc (length ks)) width"
  let ?v = "map2 sql_of_column ks ?w1"
  have "to_sql_loop width (False, 0, []) (meta_loop m) =
      to_sql_loop width (False, length ks, ?v) ((0, c, False) # ys)"
    using l wl len to_sql_run [of xs False 0 width "[]" "(0, c, False) # ys"] by simp
  also have "\<dots> = to_sql_loop width (True, Suc (length ks), ?v @ [gen_column, sql_of_column c ?w]) (ys @ [])"
    using wl by (simp add: to_sql_step_def)
  also have "\<dots> = Inr (?v @ [gen_column, sql_of_column c ?w] @ map2 sql_of_column bs ?w2)"
    by (subst to_sql_run) (use wl len l in simp_all)
  finally show ?thesis using wl by (intro exI [of _ ?w1] exI [of _ ?w] exI [of _ ?w2]) simp
qed

text \<open>A schema that has a SQL form: a body, no column of the name that is inserted, a lower-case name.\<close>

definition sql_ready :: "meta_store \<Rightarrow> bool" where
  "sql_ready m \<longleftrightarrow> pk_size m < meta_size m \<and> (\<forall>c \<in> set (columns m). col_name c \<noteq> str ''gen'') \<and>
     meta_name m \<noteq> [] \<and> hd (meta_name m) < 0x80 \<and> \<not> (0x41 \<le> hd (meta_name m) \<and> hd (meta_name m) \<le> 0x5A)"

lemma lower_upper:
  assumes "c < 0x80" and "\<not> (0x41 \<le> c \<and> c \<le> 0x5A)"
  shows "\<exists>u. toupper c = Inr u \<and> tolower u = Inr c"
proof -
  have "unat (c - 0x20) = unat c - 32" if "0x61 \<le> c"
    using that by (subst unat_sub) (simp_all add: word_le_nat_alt)
  then show ?thesis
    using assms by (auto simp: toupper_def tolower_def word_less_nat_alt word_le_nat_alt)
qed

text \<open>C11. Schemas go to SQL and back: \<^verbatim>\<open>to_sql\<close> inserts the column \<^verbatim>\<open>gen\<close> right after the key and \<^verbatim>\<open>to_mem\<close>
  takes it out again, so that a schema with a body, a lower-case name and no column \<^verbatim>\<open>gen\<close> is restored.\<close>

theorem schema_roundtrip:
  assumes "sql_ready m" and "length width = meta_size m"
  shows "\<exists>s. to_sql b m width = Inr s \<and> pk_size s = pk_size m \<and> meta_size s = meta_size m + 1 \<and>
    columns s ! pk_size s = gen_column \<and> to_mem b s = Inr m"
proof -
  obtain n ns where name: "meta_name m = n # ns" using assms(1) by (cases "meta_name m") (auto simp: sql_ready_def)
  from assms(1) name lower_upper obtain u where u: "toupper n = Inr u" "tolower u = Inr n"
    unfolding sql_ready_def by auto
  from assms(1) obtain ks c bs where cols: "columns m = ks @ c # bs" "length ks = pk_size m"
    by (metis id_take_nth_drop length_take less_imp_le meta_size_def min.absorb2 sql_ready_def)
  from to_sql_columns [OF cols assms(2)] obtain w1 w w2 where v:
    "to_sql_loop width (False, 0, []) (meta_loop m) =
      Inr (map2 sql_of_column ks w1 @ [gen_column, sql_of_column c w] @ map2 sql_of_column bs w2)"
    "length w1 = length ks" "length w2 = length bs" by blast
  let ?s = "\<lparr>meta_name = str ''T'' @ u # ns, columns = map2 sql_of_column ks w1 @
      [gen_column, sql_of_column c w] @ map2 sql_of_column bs w2, pk_size = pk_size m\<rparr>"
  have s: "to_sql b m width = Inr ?s"
    using assms v u cols by (simp add: to_sql_def name make_meta_def sql_ready_def)
  have gen: "\<forall>x \<in> set (ks @ c # bs). col_name x \<noteq> str ''gen''" using assms(1) cols by (simp add: sql_ready_def)
  have "map (\<lambda>(idx, col, pk). mem_of_column col)
      (filter (\<lambda>(idx, col, pk). col_name col \<noteq> str ''gen'') (meta_loop ?s)) = columns m"
    unfolding mem_columns map_snd_meta_loop using gen v cols
    by (simp add: sql_mem mem_map2_sql gen_column_def)
  then have "to_mem b ?s = Inr m"
    using u assms(1) name cols by (simp add: to_mem_def make_meta_def str_def sql_ready_def meta_size_def
        byte_of_char_def)
  with s cols v show ?thesis by (auto simp: meta_size_def nth_append)
qed

definition sample_meta :: meta_store where
  "sample_meta = \<lparr>meta_name = str ''device'',
     columns = [\<lparr>col_name = str ''tag'', col_type = 56\<rparr>, \<lparr>col_name = str ''name'', col_type = 14\<rparr>,
                \<lparr>col_name = str ''age'', col_type = 8\<rparr>], pk_size = 1\<rparr>"

theorem schema_roundtrip_witness:
  "\<exists>s. to_sql Debug sample_meta [36, 64, 0] = Inr s \<and> pk_size s = pk_size sample_meta \<and>
    meta_size s = meta_size sample_meta + 1 \<and> columns s ! pk_size s = gen_column \<and> to_mem Debug s = Inr sample_meta"
  by (rule schema_roundtrip)
    (simp_all add: sql_ready_def sample_meta_def meta_size_def str_def byte_of_char_def)

end
