(* ===== verification/Table.thy ===== *)
theory Table
  imports Schema
begin

text \<open>
  Tables and their subscribers: \<^verbatim>\<open>src/store/src/table.cpp\<close>, \<^verbatim>\<open>pub.cpp\<close>, \<^verbatim>\<open>slot.cpp\<close> and \<^verbatim>\<open>auto_table.cpp\<close>.

  An operation gives the messages it sends to slots, in order, and the new table with its result, or a fault.
  A table is used under its lock, so operations are atomic; the locks themselves are left out.  The rows are
  kept in the order in which \<^verbatim>\<open>std::unordered_map\<close> iterates over them.  The standard does not say where a new
  row goes and may reorder all rows then: \<open>arrange\<close>, a parameter, rearranges the rows after an insertion.
  A slot is its identity; it is alive as long as its channel is, which is a parameter too.
\<close>

section \<open>Data\<close>

type_synonym uuid = "byte list"
type_synonym slot = nat

record body =
  body_data :: "object list"
  generation :: u64

type_synonym rows = "(key \<times> body) list"

record table =
  tab_meta :: meta_store
  rows :: rows
  slots_insert :: "slot list"
  slots_modify :: "slot list"
  slots_remove :: "slot list"
  slots_clear :: "slot list"
  current_key :: "key option"

record table_env =
  hashes :: hash_env
  asserts :: build
  arrange :: "rows \<Rightarrow> rows"
  alive :: "slot \<Rightarrow> bool"

text \<open>The messages of a slot to its channel; each also carries the table.\<close>

datatype event =
    DbInsert key "object list" u64 uuid
  | DbModify key u64 object u64 uuid
  | DbRemove key uuid
  | DbClear uuid
  | DbTrx bool

type_synonym messages = "(slot \<times> event) list"
type_synonym 'a outcome = "messages \<times> (table \<times> 'a) result"

definition new_table :: "meta_store \<Rightarrow> table" where
  "new_table m = \<lparr>tab_meta = m, rows = [], slots_insert = [], slots_modify = [], slots_remove = [],
     slots_clear = [], current_key = None\<rparr>"

definition new_auto_table :: "meta_store \<Rightarrow> key \<Rightarrow> table" where
  "new_auto_table m start = (new_table m)\<lparr>current_key := Some start\<rparr>"

definition is_auto :: "table \<Rightarrow> bool" where
  "is_auto t \<longleftrightarrow> current_key t \<noteq> None"

section \<open>Publishing: slot.cpp, pub.cpp\<close>

definition slot_forward :: "table_env \<Rightarrow> slot \<Rightarrow> event \<Rightarrow> messages \<times> bool" where
  "slot_forward e sp ev = (if alive e sp then ([(sp, ev)], True) else ([], False))"

definition disconnect_slot :: "slot list \<Rightarrow> slot \<Rightarrow> slot list \<times> bool" where
  "disconnect_slot vec s = (if s \<in> set vec then (remove1 s vec, True) else (vec, False))"

fun tidy :: "slot list \<Rightarrow> slot list \<Rightarrow> slot list" where
  "tidy vec [] = vec"
| "tidy vec (s # expired) = tidy (fst (disconnect_slot vec s)) expired"

text \<open>All four overloads go through the slots for insertions.  Expired slots are collected from the front.\<close>

fun forward_loop :: "table_env \<Rightarrow> event \<Rightarrow> slot list \<Rightarrow> slot list \<Rightarrow> messages \<times> slot list" where
  "forward_loop e ev expired [] = ([], expired)"
| "forward_loop e ev expired (sp # sps) =
     (case slot_forward e sp ev of (ms, ok) \<Rightarrow>
        emit ms (forward_loop e ev (if ok then expired else sp # expired) sps))"

definition forward :: "table_env \<Rightarrow> event \<Rightarrow> table \<Rightarrow> messages \<times> table" where
  "forward e ev t =
     (case forward_loop e ev [] (slots_insert t) of (ms, expired) \<Rightarrow>
        (ms, t\<lparr>slots_insert := tidy (slots_insert t) expired\<rparr>))"

definition connect_insert :: "slot \<Rightarrow> table \<Rightarrow> table" where
  "connect_insert sp t = t\<lparr>slots_insert := slots_insert t @ [sp]\<rparr>"

definition connect_modify :: "slot \<Rightarrow> table \<Rightarrow> table" where
  "connect_modify sp t = t\<lparr>slots_modify := slots_modify t @ [sp]\<rparr>"

definition connect_remove :: "slot \<Rightarrow> table \<Rightarrow> table" where
  "connect_remove sp t = t\<lparr>slots_remove := slots_remove t @ [sp]\<rparr>"

definition connect_clear :: "slot \<Rightarrow> table \<Rightarrow> table" where
  "connect_clear sp t = t\<lparr>slots_clear := slots_clear t @ [sp]\<rparr>"

definition connect_only :: "slot \<Rightarrow> table \<Rightarrow> table" where
  "connect_only sp t = connect_clear sp (connect_remove sp (connect_modify sp (connect_insert sp t)))"

definition charge :: "table_env \<Rightarrow> slot \<Rightarrow> table \<Rightarrow> messages" where
  "charge e sp t =
     fst (slot_forward e sp (DbTrx True)) @
     concat (map (\<lambda>(k, b). fst (slot_forward e sp (DbInsert k (body_data b) (generation b) (replicate 16 0)))) (rows t)) @
     fst (slot_forward e sp (DbTrx False))"

definition connect :: "table_env \<Rightarrow> slot \<Rightarrow> table \<Rightarrow> messages \<times> table" where
  "connect e sp t = (let t' = connect_only sp t in (charge e sp t', t'))"

definition disconnect :: "slot \<Rightarrow> table \<Rightarrow> table \<times> bool" where
  "disconnect sp t =
     (let t1 = t\<lparr>slots_modify := fst (disconnect_slot (slots_modify t) sp)\<rparr>;
          t2 = t1\<lparr>slots_remove := fst (disconnect_slot (slots_remove t1) sp)\<rparr>;
          t3 = t2\<lparr>slots_clear := fst (disconnect_slot (slots_clear t2) sp)\<rparr>;
          (vec, r) = disconnect_slot (slots_insert t3) sp
      in (t3\<lparr>slots_insert := vec\<rparr>, r))"

section \<open>Rows\<close>

definition find_row :: "table_env \<Rightarrow> key \<Rightarrow> rows \<Rightarrow> (key \<times> body) option" where
  "find_row e k rs = List.find (\<lambda>r. key_equal (hashes e) (fst r) k) rs"

text \<open>Writing through an iterator, and \<^verbatim>\<open>erase\<close> of an iterator.\<close>

fun set_row :: "table_env \<Rightarrow> key \<Rightarrow> body \<Rightarrow> rows \<Rightarrow> rows" where
  "set_row e k b [] = []"
| "set_row e k b (r # rs) = (if key_equal (hashes e) (fst r) k then (fst r, b) # rs else r # set_row e k b rs)"

fun drop_row :: "table_env \<Rightarrow> key \<Rightarrow> rows \<Rightarrow> rows" where
  "drop_row e k [] = []"
| "drop_row e k (r # rs) = (if key_equal (hashes e) (fst r) k then rs else r # drop_row e k rs)"

section \<open>Operations: table.cpp\<close>

definition table_size :: "table \<Rightarrow> nat" where
  "table_size t = length (rows t)"

definition reserve :: "table_env \<Rightarrow> table \<Rightarrow> table" where
  "reserve e t = t\<lparr>rows := arrange e (rows t)\<rparr>"

definition clear :: "table_env \<Rightarrow> uuid \<Rightarrow> table \<Rightarrow> unit outcome" where
  "clear e source t = (case forward e (DbClear source) (t\<lparr>rows := []\<rparr>) of (ms, t') \<Rightarrow> (ms, Inr (t', ())))"

definition emplace :: "table_env \<Rightarrow> key \<Rightarrow> object list \<Rightarrow> u64 \<Rightarrow> table \<Rightarrow> table \<times> bool" where
  "emplace e k data gen t =
     (if find_row e k (rows t) = None then
        (t\<lparr>rows := arrange e ((k, \<lparr>body_data = data, generation = gen\<rparr>) # rows t)\<rparr>, True)
      else (t, False))"

definition insert_row :: "table_env \<Rightarrow> key \<Rightarrow> object list \<Rightarrow> u64 \<Rightarrow> uuid \<Rightarrow> table \<Rightarrow> bool outcome" where
  "insert_row e k data gen source t =
     (if check_integrity (tab_meta t) k data then
        (case emplace e k data gen t of (t', ok) \<Rightarrow>
           if ok then (case forward e (DbInsert k data gen source) t' of (ms, t'') \<Rightarrow> (ms, Inr (t'', True)))
           else ([], Inr (t', False)))
      else ([], Inr (t, False)))"

text \<open>The loop of \<^verbatim>\<open>update\<close> over the new values with their indices; \<open>b\<close> is what the iterator refers to.\<close>

fun update_loop ::
    "table_env \<Rightarrow> key \<Rightarrow> uuid \<Rightarrow> body \<Rightarrow> (nat \<times> object) list \<Rightarrow> table \<Rightarrow> unit outcome" where
  "update_loop e k source b [] t = ([], Inr (t, ()))"
| "update_loop e k source b ((idx, v) # xs) t =
     after ([], checked_at (body_data b) idx) (\<lambda>old.
       if \<not> object_eq (hashes e) old v then
         (let b' = \<lparr>body_data = (body_data b)[idx := v], generation = generation b + 1\<rparr>;
              t' = t\<lparr>rows := set_row e k b' (rows t)\<rparr> in
          case forward e (DbModify k (word_of_nat idx) v (generation b') source) t' of (ms, t'') \<Rightarrow>
            emit ms (update_loop e k source b' xs t''))
       else update_loop e k source b xs t)"

definition update_row :: "table_env \<Rightarrow> key \<Rightarrow> body \<Rightarrow> object list \<Rightarrow> uuid \<Rightarrow> table \<Rightarrow> unit outcome" where
  "update_row e k b data source t =
     after ([], boost_assert (asserts e) (length data = length (body_data b))) (\<lambda>_.
       update_loop e k source b (enumerate 0 data) t)"

definition merge_row :: "table_env \<Rightarrow> key \<Rightarrow> object list \<Rightarrow> u64 \<Rightarrow> uuid \<Rightarrow> table \<Rightarrow> bool outcome" where
  "merge_row e k data gen source t =
     (if check_integrity (tab_meta t) k data then
        (case find_row e k (rows t) of
           None \<Rightarrow> (case forward e (DbInsert k data gen source) (fst (emplace e k data gen t)) of
                      (ms, t') \<Rightarrow> (ms, Inr (t', True)))
         | Some (k', b) \<Rightarrow> after (update_row e k b data source t) (\<lambda>(t', _). ([], Inr (t', False))))
      else ([], Inr (t, False)))"

text \<open>Modifications publish the old generation before they apply the change.\<close>

definition modify_at :: "table_env \<Rightarrow> key \<Rightarrow> body \<Rightarrow> u64 \<Rightarrow> object \<Rightarrow> uuid \<Rightarrow> table \<Rightarrow> messages \<times> (body \<times> table)" where
  "modify_at e k b idx v source t =
     (case forward e (DbModify k idx v (generation b) source) t of (ms, t') \<Rightarrow>
        (let b' = \<lparr>body_data = (body_data b)[unat idx := v], generation = generation b + 1\<rparr>
         in (ms, b', t'\<lparr>rows := set_row e k b' (rows t')\<rparr>)))"

definition modify_attr :: "table_env \<Rightarrow> key \<Rightarrow> u64 \<times> object \<Rightarrow> uuid \<Rightarrow> table \<Rightarrow> bool outcome" where
  "modify_attr e k attr source t =
     (case find_row e k (rows t) of
        None \<Rightarrow> ([], Inr (t, False))
      | Some (k', b) \<Rightarrow>
          after ([], checked_at (body_data b) (unat (fst attr))) (\<lambda>old.
            if \<not> object_eq (hashes e) old (snd attr) then
              (case modify_at e k b (fst attr) (snd attr) source t of (ms, b', t') \<Rightarrow> (ms, Inr (t', True)))
            else ([], Inr (t, False))))"

fun modify_loop :: "table_env \<Rightarrow> key \<Rightarrow> uuid \<Rightarrow> body \<Rightarrow> (u64 \<times> object) list \<Rightarrow> table \<Rightarrow> bool outcome" where
  "modify_loop e k source b [] t = ([], Inr (t, True))"
| "modify_loop e k source b ((idx, v) # am) t =
     after ([], boost_assert (asserts e) (idx \<noteq> npos)) (\<lambda>_.
       if idx < body_size (tab_meta t) then
         after ([], checked_at (body_data b) (unat idx)) (\<lambda>old.
           if \<not> object_eq (hashes e) old v then
             (case modify_at e k b idx v source t of (ms, b', t') \<Rightarrow> emit ms (modify_loop e k source b' am t'))
           else modify_loop e k source b am t)
       else modify_loop e k source b am t)"

definition modify_attr_map :: "table_env \<Rightarrow> key \<Rightarrow> (u64, object) std_map \<Rightarrow> uuid \<Rightarrow> table \<Rightarrow> bool outcome" where
  "modify_attr_map e k am source t =
     (case find_row e k (rows t) of
        None \<Rightarrow> ([], Inr (t, False))
      | Some (k', b) \<Rightarrow> modify_loop e k source b am t)"

definition modify_param :: "table_env \<Rightarrow> key \<Rightarrow> byte list \<times> object \<Rightarrow> uuid \<Rightarrow> table \<Rightarrow> bool outcome" where
  "modify_param e k param source t =
     modify_attr e k (get_body_index_by_name (tab_meta t) (fst param), snd param) source t"

definition attr_map_of_params :: "meta_store \<Rightarrow> (byte list, object) std_map \<Rightarrow> (u64, object) std_map" where
  "attr_map_of_params m pm = foldl (\<lambda>am (name, v). map_emplace (get_body_index_by_name m name) v am) [] pm"

definition modify_param_map :: "table_env \<Rightarrow> key \<Rightarrow> (byte list, object) std_map \<Rightarrow> uuid \<Rightarrow> table \<Rightarrow> bool outcome" where
  "modify_param_map e k pm source t = modify_attr_map e k (attr_map_of_params (tab_meta t) pm) source t"

definition exists_row :: "table_env \<Rightarrow> key \<Rightarrow> table \<Rightarrow> bool" where
  "exists_row e k t \<longleftrightarrow> find_row e k (rows t) \<noteq> None"

definition record_of :: "table \<Rightarrow> key \<Rightarrow> body \<Rightarrow> row" where
  "record_of t k b = \<lparr>rec_meta = tab_meta t, rec_key = k, rec_data = body_data b, rec_gen = generation b\<rparr>"

definition lookup :: "table_env \<Rightarrow> key \<Rightarrow> table \<Rightarrow> row" where
  "lookup e k t =
     (case find_row e k (rows t) of Some (k', b) \<Rightarrow> record_of t k b | None \<Rightarrow> empty_record (tab_meta t))"

definition lookup_index :: "key \<Rightarrow> nat \<Rightarrow> table \<Rightarrow> row" where
  "lookup_index k idx t = empty_record (tab_meta t)"

definition erase_row :: "table_env \<Rightarrow> key \<Rightarrow> uuid \<Rightarrow> table \<Rightarrow> bool outcome" where
  "erase_row e k source t =
     (case find_row e k (rows t) of
        None \<Rightarrow> ([], Inr (t, False))
      | Some (k', b) \<Rightarrow> (case forward e (DbRemove k source) t of (ms, t') \<Rightarrow>
          (ms, Inr (t'\<lparr>rows := drop_row e k (rows t')\<rparr>, True))))"

text \<open>\<open>pos\<close> are the rows from the iterator to the end.\<close>

fun erase_loop :: "table_env \<Rightarrow> (row \<Rightarrow> bool) \<Rightarrow> uuid \<Rightarrow> nat \<Rightarrow> rows \<Rightarrow> table \<Rightarrow> nat outcome" where
  "erase_loop e f source counter [] t = ([], Inr (t, counter))"
| "erase_loop e f source counter ((k, b) # pos) t =
     (if f (record_of t k b) then
        (case forward e (DbRemove k source) t of (ms, t') \<Rightarrow>
           emit ms (erase_loop e f source (counter + 1) pos (t'\<lparr>rows := drop_row e k (rows t')\<rparr>)))
      else erase_loop e f source counter pos t)"

definition erase_if :: "table_env \<Rightarrow> (row \<Rightarrow> bool) \<Rightarrow> uuid \<Rightarrow> table \<Rightarrow> nat outcome" where
  "erase_if e f source t = erase_loop e f source 0 (rows t) t"

text \<open>The callback of \<^verbatim>\<open>loop\<close> may have a state of its own.\<close>

fun loop_rows :: "(row \<Rightarrow> nat \<Rightarrow> 's \<Rightarrow> bool \<times> 's) \<Rightarrow> table \<Rightarrow> nat \<Rightarrow> rows \<Rightarrow> 's \<Rightarrow> nat \<times> 's" where
  "loop_rows f t counter [] s = (counter, s)"
| "loop_rows f t counter ((k, b) # rs) s =
     (case f (record_of t k b) counter s of (go, s') \<Rightarrow>
        if go then loop_rows f t (counter + 1) rs s' else (counter, s'))"

definition loop_table :: "(row \<Rightarrow> nat \<Rightarrow> 's \<Rightarrow> bool \<times> 's) \<Rightarrow> table \<Rightarrow> 's \<Rightarrow> nat \<times> 's" where
  "loop_table f t s = loop_rows f t 0 (rows t) s"

definition to_vector :: "bool \<Rightarrow> table \<Rightarrow> object" where
  "to_vector col_names t =
     (let header = (if col_names then [OTuple (map (\<lambda>(idx, col, pk). OString (col_name col)) (meta_loop (tab_meta t)))]
                    else [])
      in OVector (snd (loop_table (\<lambda>r n vec. (True, vec @ [OTuple (rec_key r @ rec_data r)])) t header)))"

section \<open>Templates: table.h, compare.hpp\<close>

text \<open>The type \<^verbatim>\<open>T\<close> of a value is its \<^verbatim>\<open>object_cast\<close>.\<close>

definition compare :: "build \<Rightarrow> (object \<Rightarrow> 'a option) \<Rightarrow> object \<Rightarrow> 'a \<Rightarrow> bool result" where
  "compare b cast obj v =
     rbind (boost_assert b (cast obj \<noteq> None)) (\<lambda>_.
     Inr (if cast obj \<noteq> None then v = value_cast cast obj v else False))"

fun find_first_loop ::
    "table_env \<Rightarrow> (object \<Rightarrow> 'a option) \<Rightarrow> nat \<Rightarrow> 'a \<Rightarrow> table \<Rightarrow> rows \<Rightarrow> row result" where
  "find_first_loop e cast c v t [] = Inr (empty_record (tab_meta t))"
| "find_first_loop e cast c v t ((k, b) # rs) =
     rbind (checked_at (body_data b) c) (\<lambda>obj.
     rbind (compare (asserts e) cast obj v) (\<lambda>eq.
     if eq then Inr (record_of t k b) else find_first_loop e cast c v t rs))"

definition find_first :: "table_env \<Rightarrow> (object \<Rightarrow> 'a option) \<Rightarrow> u64 \<Rightarrow> 'a \<Rightarrow> table \<Rightarrow> row result" where
  "find_first e cast c v t = find_first_loop e cast (unat c) v t (rows t)"

definition find_first_name :: "table_env \<Rightarrow> (object \<Rightarrow> 'a option) \<Rightarrow> byte list \<Rightarrow> 'a \<Rightarrow> table \<Rightarrow> row result" where
  "find_first_name e cast c v t =
     (let idx = get_body_index_by_name (tab_meta t) c in
      if idx \<noteq> npos then find_first e cast idx v t else Inr (empty_record (tab_meta t)))"

definition compute :: "table_env \<Rightarrow> (object \<Rightarrow> 'a option) \<Rightarrow> ('a \<Rightarrow> object) \<Rightarrow> 'a \<Rightarrow> key \<Rightarrow> u64 \<Rightarrow> ('a \<Rightarrow> 'a) \<Rightarrow> uuid \<Rightarrow>
    table \<Rightarrow> bool outcome" where
  "compute e cast mk def k idx calc source t =
     (case find_row e k (rows t) of
        None \<Rightarrow> ([], Inr (t, False))
      | Some (k', b) \<Rightarrow>
          after ([], checked_at (body_data b) (unat idx)) (\<lambda>old.
            let v = mk (calc (value_cast cast old def)) in
            if \<not> object_eq (hashes e) old v then
              (case modify_at e k b idx v source t of (ms, b', t') \<Rightarrow> (ms, Inr (t', True)))
            else ([], Inr (t, False))))"

definition compute_name :: "table_env \<Rightarrow> (object \<Rightarrow> 'a option) \<Rightarrow> ('a \<Rightarrow> object) \<Rightarrow> 'a \<Rightarrow> key \<Rightarrow> byte list \<Rightarrow>
    ('a \<Rightarrow> 'a) \<Rightarrow> uuid \<Rightarrow> table \<Rightarrow> bool outcome" where
  "compute_name e cast mk def k name calc source t =
     compute e cast mk def k (get_body_index_by_name (tab_meta t) name) calc source t"

text \<open>The variadic templates unpack a row and call the user's function with its values.\<close>

definition erase_if_call :: "table_env \<Rightarrow> (object list \<Rightarrow> bool) \<Rightarrow> uuid \<Rightarrow> table \<Rightarrow> unit outcome" where
  "erase_if_call e pred source t =
     after (erase_loop e (\<lambda>r. pred (get_tuple r)) source 0 (rows t) t) (\<lambda>(t', n). ([], Inr (t', ())))"

definition loop_call :: "(object list \<Rightarrow> 's \<Rightarrow> bool \<times> 's) \<Rightarrow> table \<Rightarrow> 's \<Rightarrow> 's" where
  "loop_call cb t s = snd (loop_rows (\<lambda>r n s. cb (get_tuple r) s) t 0 (rows t) s)"

section \<open>Tables that make their keys: auto\_table.cpp\<close>

text \<open>The function that gives the next key is the user's.\<close>

definition insert_auto :: "table_env \<Rightarrow> (table \<Rightarrow> key \<Rightarrow> key) \<Rightarrow> object list \<Rightarrow> uuid \<Rightarrow> table \<Rightarrow> (key \<times> bool) outcome" where
  "insert_auto e next_key data source t =
     (case current_key t of
        None \<Rightarrow> ([], Inl Undefined)
      | Some cur \<Rightarrow> (let k = next_key t cur in
          after (insert_row e k data 1 source (t\<lparr>current_key := Some k\<rparr>)) (\<lambda>(t', ok). ([], Inr (t', (k, ok))))))"

section \<open>Sequences of operations\<close>

datatype command =
    CInsert key "object list" u64 uuid
  | CInsertAuto "table \<Rightarrow> key \<Rightarrow> key" "object list" uuid
  | CMerge key "object list" u64 uuid
  | CModifyAttr key u64 object uuid
  | CModifyAttrMap key "(u64, object) std_map" uuid
  | CModifyParam key "byte list" object uuid
  | CModifyParamMap key "(byte list, object) std_map" uuid
  | CErase key uuid
  | CEraseIf "row \<Rightarrow> bool" uuid
  | CClear uuid
  | CReserve
  | CConnect slot
  | CConnectOnly slot
  | CConnectInsert slot
  | CConnectModify slot
  | CConnectRemove slot
  | CConnectClear slot
  | CDisconnect slot

definition forget :: "'a outcome \<Rightarrow> messages \<times> table result" where
  "forget r = after r (\<lambda>(t, x). ([], Inr t))"

primrec exec_command :: "table_env \<Rightarrow> table \<Rightarrow> command \<Rightarrow> messages \<times> table result" where
  "exec_command e t (CInsert k data gen source) = forget (insert_row e k data gen source t)"
| "exec_command e t (CInsertAuto f data source) =
     (if is_auto t then forget (insert_auto e f data source t) else ([], Inr t))"
| "exec_command e t (CMerge k data gen source) = forget (merge_row e k data gen source t)"
| "exec_command e t (CModifyAttr k idx v source) = forget (modify_attr e k (idx, v) source t)"
| "exec_command e t (CModifyAttrMap k am source) = forget (modify_attr_map e k am source t)"
| "exec_command e t (CModifyParam k name v source) = forget (modify_param e k (name, v) source t)"
| "exec_command e t (CModifyParamMap k pm source) = forget (modify_param_map e k pm source t)"
| "exec_command e t (CErase k source) = forget (erase_row e k source t)"
| "exec_command e t (CEraseIf f source) = forget (erase_if e f source t)"
| "exec_command e t (CClear source) = forget (clear e source t)"
| "exec_command e t CReserve = ([], Inr (reserve e t))"
| "exec_command e t (CConnect sp) = (case connect e sp t of (ms, t') \<Rightarrow> (ms, Inr t'))"
| "exec_command e t (CConnectOnly sp) = ([], Inr (connect_only sp t))"
| "exec_command e t (CConnectInsert sp) = ([], Inr (connect_insert sp t))"
| "exec_command e t (CConnectModify sp) = ([], Inr (connect_modify sp t))"
| "exec_command e t (CConnectRemove sp) = ([], Inr (connect_remove sp t))"
| "exec_command e t (CConnectClear sp) = ([], Inr (connect_clear sp t))"
| "exec_command e t (CDisconnect sp) = ([], Inr (fst (disconnect sp t)))"

fun exec_commands :: "table_env \<Rightarrow> table \<Rightarrow> command list \<Rightarrow> messages \<times> table result" where
  "exec_commands e t [] = ([], Inr t)"
| "exec_commands e t (c # cs) = after (exec_command e t c) (\<lambda>t'. exec_commands e t' cs)"

interpretation tab: feeder "exec_command e" "exec_commands e" for e
  by unfold_locales simp_all

section \<open>Publishing\<close>

lemma tidy_filter: "(\<And>s. s \<in> set expired \<Longrightarrow> \<not> P s) \<Longrightarrow>
  mset expired = mset (filter (\<lambda>s. \<not> P s) vec) \<Longrightarrow> tidy vec expired = filter P vec"
proof (induction vec expired rule: tidy.induct)
  case (1 vec)
  then have "filter (\<lambda>s. \<not> P s) vec = []" by simp
  then have "\<forall>s \<in> set vec. P s" by (simp add: filter_empty_conv)
  then show ?case by simp
next
  case (2 vec s expired)
  have "s \<in> set (filter (\<lambda>s. \<not> P s) vec)" using 2(3) by (metis list.set_intros(1) set_mset_mset)
  then have s: "s \<in> set vec" "\<not> P s" by auto
  have "mset expired = mset (filter (\<lambda>s. \<not> P s) (remove1 s vec))"
    using 2(3) s by (simp add: filter_remove1 mset_remove1) (metis add_mset_remove_trivial)
  with 2 s have "tidy (remove1 s vec) expired = filter P (remove1 s vec)" by (simp add: disconnect_slot_def)
  with s show ?case by (simp add: disconnect_slot_def filter_remove1 remove1_idem)
qed

lemma forward_loop_eq: "forward_loop e ev expired sps =
  (map (\<lambda>s. (s, ev)) (filter (alive e) sps), rev (filter (\<lambda>s. \<not> alive e s) sps) @ expired)"
  by (induction sps arbitrary: expired) (simp_all add: slot_forward_def)

lemma forward_eq: "forward e ev t =
  (map (\<lambda>s. (s, ev)) (filter (alive e) (slots_insert t)), t\<lparr>slots_insert := filter (alive e) (slots_insert t)\<rparr>)"
proof -
  have "tidy (slots_insert t) (rev (filter (\<lambda>s. \<not> alive e s) (slots_insert t))) = filter (alive e) (slots_insert t)"
    by (rule tidy_filter) auto
  then show ?thesis by (simp add: forward_def forward_loop_eq)
qed

section \<open>Rows by the class of their key\<close>

text \<open>Keys with the same number of values and the same hash are one key.\<close>

definition key_class :: "table_env \<Rightarrow> key \<Rightarrow> nat \<times> u64" where
  "key_class e k = (length k, key_hash (hashes e) k)"

lemma key_equal_class: "key_equal (hashes e) k l \<longleftrightarrow> key_class e k = key_class e l"
  by (simp add: key_equal_def key_class_def)

definition by_class :: "table_env \<Rightarrow> rows \<Rightarrow> nat \<times> u64 \<Rightarrow> body option" where
  "by_class e rs = map_of (map (\<lambda>(k, b). (key_class e k, b)) rs)"

definition contents :: "table_env \<Rightarrow> table \<Rightarrow> nat \<times> u64 \<Rightarrow> body option" where
  "contents e t = by_class e (rows t)"

lemma by_class_simps [simp]:
  "by_class e [] = Map.empty"
  "by_class e ((k, b) # rs) = (by_class e rs)(key_class e k \<mapsto> b)"
  by (simp_all add: by_class_def)

lemma find_row_simps [simp]:
  "find_row e k [] = None"
  "find_row e k (r # rs) = (if key_class e (fst r) = key_class e k then Some r else find_row e k rs)"
  by (simp_all add: find_row_def key_equal_class)

lemma find_row_by_class: "map_option snd (find_row e k rs) = by_class e rs (key_class e k)"
  by (induction rs) auto

lemma find_row_Some: "find_row e k rs = Some (k', b) \<Longrightarrow>
  (k', b) \<in> set rs \<and> key_class e k' = key_class e k \<and> by_class e rs (key_class e k) = Some b"
  by (induction rs) (auto split: if_splits)

lemma find_row_None: "find_row e k rs = None \<longleftrightarrow> by_class e rs (key_class e k) = None"
  by (simp flip: find_row_by_class)

definition classes :: "table_env \<Rightarrow> rows \<Rightarrow> (nat \<times> u64) list" where
  "classes e rs = map (\<lambda>r. key_class e (fst r)) rs"

lemma classes_simps [simp]:
  "classes e [] = []"
  "classes e (r # rs) = key_class e (fst r) # classes e rs"
  by (simp_all add: classes_def)

lemma by_class_perm:
  assumes "mset rs = mset rs'" and "distinct (classes e rs)"
  shows "by_class e rs = by_class e rs'"
proof -
  have m: "map fst (map (\<lambda>(k, b). (key_class e k, b)) rs) = classes e rs" for rs
    by (simp add: classes_def comp_def case_prod_unfold)
  have "mset (classes e rs) = mset (classes e rs')" using assms(1) by (simp add: classes_def)
  then have "distinct (classes e rs')" using assms(2) by (metis mset_eq_imp_distinct_iff)
  moreover have "set rs = set rs'" using assms(1) by (metis set_mset_mset)
  ultimately show ?thesis unfolding by_class_def using assms(2)
    by (intro map_of_inject_set [THEN iffD2]) (simp_all only: m set_map)
qed

lemma by_class_set_row: "by_class e rs (key_class e k) \<noteq> None \<Longrightarrow>
  by_class e (set_row e k b rs) = (by_class e rs)(key_class e k \<mapsto> b)"
  by (induction e k b rs rule: set_row.induct) (auto simp: key_equal_class)

lemma by_class_None: "by_class e rs c = None \<longleftrightarrow> c \<notin> set (classes e rs)"
proof (induction rs)
  case (Cons r rs)
  then show ?case by (cases r) simp
qed simp

lemma by_class_drop_row: "distinct (classes e rs) \<Longrightarrow>
  by_class e (drop_row e k rs) = (by_class e rs)(key_class e k := None)"
proof (induction rs)
  case (Cons r rs)
  obtain k' b where r: "r = (k', b)" by (cases r)
  show ?case
  proof (cases "key_class e k' = key_class e k")
    case True
    with Cons.prems have "by_class e rs (key_class e k) = None" by (simp add: by_class_None r)
    with True show ?thesis by (auto simp: r key_equal_class fun_eq_iff)
  next
    case False
    have "by_class e (drop_row e k rs) = (by_class e rs)(key_class e k := None)"
      using Cons.prems by (intro Cons.IH) simp
    with False show ?thesis by (simp only: r key_equal_class drop_row.simps fst_conv if_False by_class_simps fun_upd_twist not_False_eq_True)
  qed
qed simp

lemma classes_set_row [simp]: "classes e (set_row e k b rs) = classes e rs"
  by (induction e k b rs rule: set_row.induct) auto

lemma classes_drop_row: "classes e (drop_row e k rs) = remove1 (key_class e k) (classes e rs)"
  by (induction e k rs rule: drop_row.induct) (auto simp: key_equal_class)

end
