(* ===== verification/Replica.thy ===== *)
theory Replica
  imports Table
begin

text \<open>
  What tables guarantee: the invariant of the rows, and that the messages of a slot are enough to keep a copy
  of the table.
\<close>

section \<open>Invariant\<close>

definition env_ok :: "table_env \<Rightarrow> bool" where
  "env_ok e \<longleftrightarrow> (\<forall>rs. mset (arrange e rs) = mset rs)"

definition wf_rows :: "table_env \<Rightarrow> meta_store \<Rightarrow> rows \<Rightarrow> bool" where
  "wf_rows e m rs \<longleftrightarrow> distinct (classes e rs) \<and> (\<forall>r \<in> set rs. check_integrity m (fst r) (body_data (snd r)))"

definition wf_table :: "table_env \<Rightarrow> table \<Rightarrow> bool" where
  "wf_table e t \<longleftrightarrow> wf_rows e (tab_meta t) (rows t)"

lemma integrity_length: "check_integrity m k d \<Longrightarrow> length d = unat (body_size m)"
  by (simp add: check_integrity_def check_data_integrity_def)

lemma wf_rows_arrange: "env_ok e \<Longrightarrow> wf_rows e m (arrange e rs) \<longleftrightarrow> wf_rows e m rs"
proof -
  assume "env_ok e"
  then have m: "mset (arrange e rs) = mset rs" by (simp add: env_ok_def)
  then have "mset (classes e (arrange e rs)) = mset (classes e rs)" by (simp add: classes_def)
  then have "distinct (classes e (arrange e rs)) = distinct (classes e rs)" by (rule mset_eq_imp_distinct_iff)
  moreover have "set (arrange e rs) = set rs" using m by (rule mset_eq_setD)
  ultimately show ?thesis by (simp add: wf_rows_def)
qed

lemma by_class_arrange: "env_ok e \<Longrightarrow> wf_rows e m rs \<Longrightarrow> by_class e (arrange e rs) = by_class e rs"
  by (rule sym, rule by_class_perm) (simp_all add: env_ok_def wf_rows_def)

lemma wf_rows_Cons: "wf_rows e m ((k, b) # rs) \<longleftrightarrow>
  by_class e rs (key_class e k) = None \<and> check_integrity m k (body_data b) \<and> wf_rows e m rs"
  by (auto simp: wf_rows_def by_class_None)

lemma set_set_row: "set (set_row e k b rs) \<subseteq> set rs \<union> {r. \<exists>r' \<in> set rs. r = (fst r', b)}"
  by (induction e k b rs rule: set_row.induct) auto

lemma wf_rows_set_row: "wf_rows e m rs \<Longrightarrow> length (body_data b) = unat (body_size m) \<Longrightarrow> wf_rows e m (set_row e k b rs)"
  using set_set_row [of e k b rs]
  by (fastforce simp: wf_rows_def check_integrity_def check_data_integrity_def)

lemma set_drop_row: "set (drop_row e k rs) \<subseteq> set rs"
  by (induction e k rs rule: drop_row.induct) auto

lemma wf_rows_drop_row: "wf_rows e m rs \<Longrightarrow> wf_rows e m (drop_row e k rs)"
  using set_drop_row [of e k rs] by (auto simp: wf_rows_def classes_drop_row)

lemma wf_rows_find:
  assumes "wf_rows e m rs" and "find_row e k rs = Some (k', b)"
  shows "check_integrity m k' (body_data b)" and "by_class e rs (key_class e k) = Some b"
  using find_row_Some [OF assms(2)] assms(1) by (auto simp: wf_rows_def)

section \<open>Subscribers\<close>

text \<open>
  A subscriber keeps a copy of the table: the data of each key.  It applies the messages of its slot.  The
  generation in the messages is not reliable: modifications publish the old one.
\<close>

type_synonym mirror = "nat \<times> u64 \<Rightarrow> object list option"

primrec mirror_event :: "table_env \<Rightarrow> event \<Rightarrow> mirror \<Rightarrow> mirror" where
  "mirror_event e (DbInsert k d gen tag) m = m(key_class e k \<mapsto> d)"
| "mirror_event e (DbModify k i v gen tag) m =
     m(key_class e k := map_option (\<lambda>d. d[unat i := v]) (m (key_class e k)))"
| "mirror_event e (DbRemove k tag) m = m(key_class e k := None)"
| "mirror_event e (DbClear tag) m = Map.empty"
| "mirror_event e (DbTrx b) m = m"

definition feed :: "table_env \<Rightarrow> slot \<Rightarrow> messages \<Rightarrow> mirror \<Rightarrow> mirror" where
  "feed e s ms m = fold (mirror_event e) (map snd (filter (\<lambda>x. fst x = s) ms)) m"

definition table_data :: "table_env \<Rightarrow> table \<Rightarrow> mirror" where
  "table_data e t = map_option body_data \<circ> contents e t"

lemma feed_simps [simp]:
  "feed e s [] m = m"
  "feed e s (ms @ ms') m = feed e s ms' (feed e s ms m)"
  by (simp_all add: feed_def)

lemma mirror_event_twice: "mirror_event e ev (mirror_event e ev m) = mirror_event e ev m"
  by (cases ev) (simp_all add: option.map_comp comp_def)

lemma feed_same: "s \<in> set sps \<Longrightarrow> feed e s (map (\<lambda>s. (s, ev)) sps) m = mirror_event e ev m"
proof -
  have *: "feed e s (map (\<lambda>s. (s, ev)) sps) (mirror_event e ev m) = mirror_event e ev m" for sps
    by (induction sps) (simp_all add: feed_def mirror_event_twice)
  show "s \<in> set sps \<Longrightarrow> ?thesis"
  proof (induction sps)
    case (Cons a sps)
    then show ?case using * [of sps] by (auto simp: feed_def)
  qed simp
qed

text \<open>Perhaps there is a subscriber: his slot is connected and alive, and follows the table.\<close>

definition listens :: "table_env \<Rightarrow> slot option \<Rightarrow> slot list \<Rightarrow> bool" where
  "listens e s sps \<longleftrightarrow> (\<forall>sp. s = Some sp \<longrightarrow> alive e sp \<and> sp \<in> set sps)"

definition subscribed :: "table_env \<Rightarrow> slot option \<Rightarrow> table \<Rightarrow> bool" where
  "subscribed e s t \<longleftrightarrow> wf_table e t \<and> listens e s (slots_insert t)"

definition follows :: "table_env \<Rightarrow> slot option \<Rightarrow> messages \<Rightarrow> mirror \<Rightarrow> mirror \<Rightarrow> bool" where
  "follows e s ms m m' \<longleftrightarrow> (\<forall>sp. s = Some sp \<longrightarrow> feed e sp ms m = m')"

lemma listens_filter: "listens e s sps \<Longrightarrow> listens e s (filter (alive e) sps)"
  by (simp add: listens_def)

lemma listens_append: "listens e s sps \<Longrightarrow> listens e s (sps @ sps')"
  by (simp add: listens_def)

lemma follows_Nil [simp]: "follows e s [] m m"
  by (simp add: follows_def)

lemma follows_append: "follows e s ms m m1 \<Longrightarrow> follows e s ms' m1 m2 \<Longrightarrow> follows e s (ms @ ms') m m2"
  by (simp add: follows_def)

lemma feed_forward: "subscribed e s t \<Longrightarrow> mirror_event e ev m = m' \<Longrightarrow> follows e s (fst (forward e ev t)) m m'"
  by (auto simp: forward_eq feed_same subscribed_def listens_def follows_def)

text \<open>An operation keeps the table well-formed, the slot subscribed and its copy up to date.\<close>

definition in_sync :: "table_env \<Rightarrow> slot option \<Rightarrow> table \<Rightarrow> 'a outcome \<Rightarrow> bool" where
  "in_sync e s t r \<longleftrightarrow> (\<forall>ms t' x. r = (ms, Inr (t', x)) \<longrightarrow>
     subscribed e s t' \<and> tab_meta t' = tab_meta t \<and> follows e s ms (table_data e t) (table_data e t'))"

named_theorems sync_intros \<open>operations that keep subscribers in sync\<close>

lemma in_sync_return [sync_intros]: "subscribed e s t \<Longrightarrow> in_sync e s t ([], Inr (t, x))"
  by (simp add: in_sync_def)

lemma in_sync_fault [sync_intros]: "in_sync e s t (ms, Inl f)"
  by (simp add: in_sync_def)

lemma in_sync_after_check [sync_intros]:
  assumes "\<And>y. c = Inr y \<Longrightarrow> in_sync e s t (f y)"
  shows "in_sync e s t (after ([], c) f)"
proof (cases c)
  case (Inr y)
  then show ?thesis using assms by simp
qed (simp add: in_sync_fault)

lemma in_sync_emit:
  assumes "follows e s ms (table_data e t) (table_data e t1)" and "tab_meta t1 = tab_meta t" and "in_sync e s t1 r"
  shows "in_sync e s t (emit ms r)"
proof (cases r)
  case (Pair ms' res)
  with assms show ?thesis unfolding in_sync_def Pair emit_simps by (metis Pair_inject follows_append)
qed

lemma in_sync_after:
  assumes "in_sync e s t r" and "\<And>t' x. subscribed e s t' \<Longrightarrow> in_sync e s t' (f (t', x))"
  shows "in_sync e s t (after r f)"
proof (cases r)
  case (Pair ms res)
  show ?thesis
  proof (cases res)
    case (Inr p)
    obtain t' x where p: "p = (t', x)" by (cases p)
    have h: "subscribed e s t'" "tab_meta t' = tab_meta t" "follows e s ms (table_data e t) (table_data e t')"
      using assms(1) by (simp_all add: in_sync_def Pair Inr p)
    show ?thesis unfolding Pair Inr p after_simps by (rule in_sync_emit [OF h(3,2) assms(2) [OF h(1)]])
  qed (simp add: Pair in_sync_fault)
qed

text \<open>A row is written and one event published, in either order.\<close>

lemma written_row:
  assumes "subscribed e s t" and "contents e t (key_class e k) = Some b" and "i < length (body_data b)"
    and "b' = \<lparr>body_data = (body_data b)[i := v], generation = g\<rparr>"
    and "t' = t\<lparr>rows := set_row e k b' (rows t), slots_insert := sps\<rparr>" and "listens e s sps"
  shows "subscribed e s t'" and "contents e t' (key_class e k) = Some b'"
    and "table_data e t' = mirror_event e (DbModify k (word_of_nat i) v g' tag) (table_data e t)"
proof -
  from assms(2) obtain k0 where "find_row e k (rows t) = Some (k0, b)"
    using find_row_None [of e k "rows t"] find_row_Some [of e k "rows t"] by (fastforce simp: contents_def)
  then have "check_integrity (tab_meta t) k0 (body_data b)"
    using assms(1) wf_rows_find by (auto simp: subscribed_def wf_table_def)
  then have len: "length (body_data b) = unat (body_size (tab_meta t))" by (rule integrity_length)
  then have "i < 2 ^ 64" using assms(3) unsigned_less [of "body_size (tab_meta t)", where 'a = nat] by simp
  then have i: "unat (word_of_nat i :: u64) = i" by (simp add: unat_of_nat)
  show "subscribed e s t'"
    using assms len by (auto simp: subscribed_def wf_table_def intro: wf_rows_set_row)
  have c: "contents e t' = (contents e t)(key_class e k \<mapsto> b')"
    using assms(2) by (simp add: contents_def assms(5) by_class_set_row)
  then show "contents e t' (key_class e k) = Some b'" by simp
  show "table_data e t' = mirror_event e (DbModify k (word_of_nat i) v g' tag) (table_data e t)"
    using c assms(2) i by (auto simp: table_data_def assms(4) fun_eq_iff)
qed


section \<open>Every operation keeps subscribers in sync\<close>

lemma subscribed_forward: "subscribed e s t \<Longrightarrow> subscribed e s (snd (forward e ev t))"
  by (simp add: forward_eq subscribed_def wf_table_def listens_filter)

lemma table_data_rows: "rows t' = rows t \<Longrightarrow> table_data e t' = table_data e t"
  by (simp add: table_data_def contents_def)

lemma checked_at_Inr: "checked_at xs i = Inr x \<Longrightarrow> i < length xs \<and> x = xs ! i"
  by (simp add: checked_at_def rbind_eq_Inr)

lemma in_sync_result: "follows e s ms (table_data e t) (table_data e t1) \<Longrightarrow> tab_meta t1 = tab_meta t \<Longrightarrow>
  subscribed e s t1 \<Longrightarrow> in_sync e s t (ms, Inr (t1, x))"
  by (simp add: in_sync_def)

lemma update_loop_sync:
  assumes "subscribed e s t" and "contents e t (key_class e k) = Some b"
  shows "in_sync e s t (update_loop e k source b xs t)"
  using assms
proof (induction xs arbitrary: b t)
  case Nil
  then show ?case by (simp add: in_sync_return)
next
  case (Cons x xs)
  obtain i v where x: "x = (i, v)" by (cases x)
  show ?case unfolding x update_loop.simps
  proof (rule in_sync_after_check)
    fix old assume old: "checked_at (body_data b) i = Inr old"
    have i: "i < length (body_data b)" using checked_at_Inr [OF old] by simp
    define b' where "b' = \<lparr>body_data = (body_data b)[i := v], generation = generation b + 1\<rparr>"
    define t1 where "t1 = t\<lparr>rows := set_row e k b' (rows t)\<rparr>"
    define ev where "ev = DbModify k (word_of_nat i) v (generation b') source"
    define t2 where "t2 = t\<lparr>rows := set_row e k b' (rows t), slots_insert := filter (alive e) (slots_insert t)\<rparr>"
    have s: "listens e s (slots_insert t)" "listens e s (filter (alive e) (slots_insert t))"
      using Cons.prems(1) by (simp_all add: subscribed_def listens_filter)
    note w1 = written_row [OF Cons.prems i b'_def _ s(1), of t1]
    note w2 = written_row [OF Cons.prems i b'_def t2_def s(2)]
    have t1: "subscribed e s t1" using w1(1) by (simp add: t1_def)
    have f: "forward e ev t1 = (fst (forward e ev t1), t2)" by (simp add: forward_eq t1_def t2_def)
    have "follows e s (fst (forward e ev t1)) (table_data e t) (table_data e t2)"
      unfolding ev_def by (rule feed_forward [OF t1]) (rule w2(3) [symmetric])
    then have "in_sync e s t (emit (fst (forward e ev t1)) (update_loop e k source b' xs t2))"
      by (rule in_sync_emit) (simp_all add: t2_def Cons.IH [OF w2(1,2), unfolded t2_def])
    then have "in_sync e s t (case forward e ev t1 of (ms, t'') \<Rightarrow> emit ms (update_loop e k source b' xs t''))"
      by (subst f) simp
    with Cons.IH [OF Cons.prems] show "in_sync e s t
        (if \<not> object_eq (hashes e) old v then
          (let b' = \<lparr>body_data = (body_data b)[i := v], generation = generation b + 1\<rparr>;
               t' = t\<lparr>rows := set_row e k b' (rows t)\<rparr> in
           case forward e (DbModify k (word_of_nat i) v (generation b') source) t' of (ms, t'') \<Rightarrow>
             emit ms (update_loop e k source b' xs t''))
         else update_loop e k source b xs t)"
      by (simp add: Let_def ev_def t1_def b'_def)
  qed
qed

lemma modify_at_sync:
  assumes "subscribed e s t" and "contents e t (key_class e k) = Some b" and "unat i < length (body_data b)"
  shows "\<exists>ms b' t'. modify_at e k b i v source t = (ms, b', t') \<and> subscribed e s t' \<and> tab_meta t' = tab_meta t \<and>
    contents e t' (key_class e k) = Some b' \<and> follows e s ms (table_data e t) (table_data e t')"
proof -
  define b' where "b' = \<lparr>body_data = (body_data b)[unat i := v], generation = generation b + 1\<rparr>"
  define ev where "ev = DbModify k i v (generation b) source"
  define t2 where "t2 = t\<lparr>rows := set_row e k b' (rows t), slots_insert := filter (alive e) (slots_insert t)\<rparr>"
  have s: "listens e s (filter (alive e) (slots_insert t))" using assms(1) by (simp add: subscribed_def listens_filter)
  note w = written_row [OF assms b'_def t2_def s]
  have "modify_at e k b i v source t = (fst (forward e ev t), b', t2)"
    by (simp add: modify_at_def forward_eq b'_def t2_def ev_def Let_def)
  moreover have "follows e s (fst (forward e ev t)) (table_data e t) (table_data e t2)"
    unfolding ev_def by (rule feed_forward [OF assms(1)]) (use w(3) in simp)
  ultimately show ?thesis using w(1,2) by (auto simp: t2_def)
qed

lemma modify_attr_sync: "subscribed e s t \<Longrightarrow> in_sync e s t (modify_attr e k attr source t)"
proof -
  assume t: "subscribed e s t"
  show ?thesis unfolding modify_attr_def
  proof (cases "find_row e k (rows t)")
    case (Some r)
    obtain k' b where r: "r = (k', b)" by (cases r)
    have c: "contents e t (key_class e k) = Some b" using find_row_Some Some r by (simp add: contents_def)
    have "in_sync e s t (after ([], checked_at (body_data b) (unat (fst attr))) (\<lambda>old.
            if \<not> object_eq (hashes e) old (snd attr) then
              (case modify_at e k b (fst attr) (snd attr) source t of (ms, b', t') \<Rightarrow> (ms, Inr (t', True)))
            else ([], Inr (t, False))))"
    proof (rule in_sync_after_check)
      fix old assume "checked_at (body_data b) (unat (fst attr)) = Inr old"
      from checked_at_Inr [OF this] have "unat (fst attr) < length (body_data b)" ..
      from modify_at_sync [OF t c this, of "snd attr" source] obtain ms b' t' where
        m: "modify_at e k b (fst attr) (snd attr) source t = (ms, b', t')" "subscribed e s t'"
          "tab_meta t' = tab_meta t" "follows e s ms (table_data e t) (table_data e t')" by blast
      show "in_sync e s t (if \<not> object_eq (hashes e) old (snd attr) then
          (case modify_at e k b (fst attr) (snd attr) source t of (ms, b', t') \<Rightarrow> (ms, Inr (t', True)))
        else ([], Inr (t, False)))"
        by (simp add: m(1) in_sync_result [OF m(4,3,2)] in_sync_return [OF t])
    qed
    then show "in_sync e s t (case find_row e k (rows t) of None \<Rightarrow> ([], Inr (t, False))
      | Some (k', b) \<Rightarrow> after ([], checked_at (body_data b) (unat (fst attr))) (\<lambda>old.
            if \<not> object_eq (hashes e) old (snd attr) then
              (case modify_at e k b (fst attr) (snd attr) source t of (ms, b', t') \<Rightarrow> (ms, Inr (t', True)))
            else ([], Inr (t, False))))" by (simp add: Some r)
  qed (simp add: t in_sync_return)
qed

lemma modify_loop_sync:
  assumes "subscribed e s t" and "contents e t (key_class e k) = Some b"
  shows "in_sync e s t (modify_loop e k source b am t)"
  using assms
proof (induction am arbitrary: b t)
  case Nil
  then show ?case by (simp add: in_sync_return)
next
  case (Cons x am)
  obtain i v where x: "x = (i, v)" by (cases x)
  have step: "in_sync e s t (if \<not> object_eq (hashes e) old v then
      (case modify_at e k b i v source t of (ms, b', t') \<Rightarrow> emit ms (modify_loop e k source b' am t'))
    else modify_loop e k source b am t)" if "checked_at (body_data b) (unat i) = Inr old" for old
  proof -
    from checked_at_Inr [OF that] have "unat i < length (body_data b)" ..
    from modify_at_sync [OF Cons.prems this, of v source] obtain ms b' t' where
      m: "modify_at e k b i v source t = (ms, b', t')" "subscribed e s t'" "tab_meta t' = tab_meta t"
        "contents e t' (key_class e k) = Some b'" "follows e s ms (table_data e t) (table_data e t')" by blast
    from in_sync_emit [OF m(5,3) Cons.IH [OF m(2,4)]] Cons.IH [OF Cons.prems] m(1) show ?thesis by simp
  qed
  show ?case unfolding x modify_loop.simps
    by (intro in_sync_after_check) (use step Cons.IH [OF Cons.prems] in \<open>auto intro: in_sync_after_check\<close>)
qed

lemma modify_attr_map_sync: "subscribed e s t \<Longrightarrow> in_sync e s t (modify_attr_map e k am source t)"
proof -
  assume t: "subscribed e s t"
  show ?thesis
  proof (cases "find_row e k (rows t)")
    case (Some r)
    obtain k' b where r: "r = (k', b)" by (cases r)
    have "contents e t (key_class e k) = Some b" using find_row_Some Some r by (simp add: contents_def)
    from modify_loop_sync [OF t this] show ?thesis by (simp add: modify_attr_map_def Some r)
  qed (simp add: t in_sync_return modify_attr_map_def)
qed


lemma modify_param_sync: "subscribed e s t \<Longrightarrow> in_sync e s t (modify_param e k p source t)"
  by (simp add: modify_param_def modify_attr_sync)

lemma modify_param_map_sync: "subscribed e s t \<Longrightarrow> in_sync e s t (modify_param_map e k pm source t)"
  by (simp add: modify_param_map_def modify_attr_map_sync)

lemma clear_sync:
  assumes "subscribed e s t"
  shows "in_sync e s t (clear e source t)"
proof -
  let ?t = "t\<lparr>rows := []\<rparr>"
  have t: "subscribed e s ?t" using assms by (simp add: subscribed_def wf_table_def wf_rows_def)
  have "follows e s (fst (forward e (DbClear source) ?t)) (table_data e t) (table_data e (snd (forward e (DbClear source) ?t)))"
    by (rule feed_forward [OF t]) (simp add: forward_eq table_data_def contents_def comp_def)
  with subscribed_forward [OF t] show ?thesis
    by (auto simp: clear_def in_sync_def forward_eq)
qed

lemma insert_new:
  assumes "env_ok e" and "subscribed e s t" and "find_row e k (rows t) = None" and "check_integrity (tab_meta t) k d"
    and "t1 = t\<lparr>rows := arrange e ((k, \<lparr>body_data = d, generation = g\<rparr>) # rows t)\<rparr>"
  shows "subscribed e s t1" and "table_data e t1 = mirror_event e (DbInsert k d g tag) (table_data e t)"
    and "contents e t1 = (contents e t)(key_class e k \<mapsto> \<lparr>body_data = d, generation = g\<rparr>)"
proof -
  let ?rs = "(k, \<lparr>body_data = d, generation = g\<rparr>) # rows t"
  have wf: "wf_rows e (tab_meta t) ?rs"
    using assms by (simp add: wf_rows_Cons find_row_None subscribed_def wf_table_def)
  then show "subscribed e s t1"
    using assms by (simp add: subscribed_def wf_table_def wf_rows_arrange)
  show c: "contents e t1 = (contents e t)(key_class e k \<mapsto> \<lparr>body_data = d, generation = g\<rparr>)"
    using by_class_arrange [OF assms(1) wf] by (simp add: contents_def assms(5))
  show "table_data e t1 = mirror_event e (DbInsert k d g tag) (table_data e t)"
    by (simp add: table_data_def c fun_eq_iff)
qed

lemma insert_row_sync:
  assumes "env_ok e" and "subscribed e s t"
  shows "in_sync e s t (insert_row e k d g source t)"
proof (cases "check_integrity (tab_meta t) k d \<and> find_row e k (rows t) = None")
  case True
  let ?t = "t\<lparr>rows := arrange e ((k, \<lparr>body_data = d, generation = g\<rparr>) # rows t)\<rparr>"
  note n = insert_new [OF assms conjunct2 [OF True] conjunct1 [OF True] refl]
  have "follows e s (fst (forward e (DbInsert k d g source) ?t)) (table_data e t) (table_data e (snd (forward e (DbInsert k d g source) ?t)))"
    by (rule feed_forward [OF n(1)], unfold n(2) [symmetric]) (simp add: forward_eq table_data_def contents_def)
  with True subscribed_forward [OF n(1)] show ?thesis
    by (simp add: insert_row_def emplace_def forward_eq in_sync_result)
qed (auto simp: insert_row_def emplace_def assms(2) in_sync_return)

lemma in_sync_key: "in_sync e s (t\<lparr>current_key := k\<rparr>) r \<longleftrightarrow> in_sync e s t r"
  unfolding in_sync_def by (simp add: table_data_def contents_def)

lemma insert_auto_sync:
  assumes "env_ok e" and "subscribed e s t"
  shows "in_sync e s t (insert_auto e f d source t)"
proof (cases "current_key t")
  case (Some cur)
  let ?k = "f t cur" and ?t = "t\<lparr>current_key := Some (f t cur)\<rparr>"
  have "subscribed e s ?t" using assms(2) by (simp add: subscribed_def wf_table_def)
  then have "in_sync e s ?t (after (insert_row e ?k d 1 source ?t) (\<lambda>(t', ok). ([], Inr (t', (?k, ok)))))"
    by (rule in_sync_after [OF insert_row_sync [OF assms(1)]]) (simp add: in_sync_return)
  then have "in_sync e s t (after (insert_row e ?k d 1 source ?t) (\<lambda>(t', ok). ([], Inr (t', (?k, ok)))))"
    unfolding in_sync_key .
  then show ?thesis by (simp add: insert_auto_def Some Let_def)
qed (simp add: insert_auto_def in_sync_fault)

lemma merge_row_sync:
  assumes "env_ok e" and "subscribed e s t"
  shows "in_sync e s t (merge_row e k d g source t)"
proof (cases "find_row e k (rows t)")
  case None
  have "merge_row e k d g source t = insert_row e k d g source t"
    by (simp add: merge_row_def insert_row_def emplace_def None split: prod.split)
  then show ?thesis using insert_row_sync [OF assms] by simp
next
  case (Some r)
  obtain k' b where r: "r = (k', b)" by (cases r)
  have c: "contents e t (key_class e k) = Some b" using find_row_Some Some r by (simp add: contents_def)
  have "in_sync e s t (update_row e k b d source t)"
    unfolding update_row_def by (intro in_sync_after_check update_loop_sync assms c)
  then have "in_sync e s t (after (update_row e k b d source t) (\<lambda>(t', _). ([], Inr (t', False))))"
    by (rule in_sync_after) (simp add: in_sync_return)
  then show ?thesis by (simp add: merge_row_def Some r assms(2) in_sync_return)
qed

lemma removed_row:
  assumes "subscribed e s t"
    and "t1 = t\<lparr>slots_insert := filter (alive e) (slots_insert t), rows := drop_row e k (rows t)\<rparr>"
  shows "subscribed e s t1" and "table_data e t1 = mirror_event e (DbRemove k tag) (table_data e t)"
proof -
  from assms(1) have wf: "wf_rows e (tab_meta t) (rows t)" by (simp add: subscribed_def wf_table_def)
  then show "subscribed e s t1"
    using assms by (simp add: subscribed_def wf_table_def wf_rows_drop_row listens_filter)
  have "contents e t1 = (contents e t)(key_class e k := None)"
    using wf by (simp add: contents_def assms(2) by_class_drop_row wf_rows_def)
  then show "table_data e t1 = mirror_event e (DbRemove k tag) (table_data e t)"
    by (simp add: table_data_def fun_eq_iff)
qed

lemma remove_sync:
  assumes "subscribed e s t" and "t1 = t\<lparr>slots_insert := filter (alive e) (slots_insert t), rows := drop_row e k (rows t)\<rparr>"
  shows "follows e s (fst (forward e (DbRemove k source) t)) (table_data e t) (table_data e t1)"
  by (rule feed_forward [OF assms(1)]) (rule removed_row(2) [OF assms, symmetric])

lemma erase_row_sync:
  assumes "subscribed e s t"
  shows "in_sync e s t (erase_row e k source t)"
  using in_sync_result [OF remove_sync [OF assms refl] _ removed_row(1) [OF assms refl]] assms
  by (auto simp: erase_row_def in_sync_return forward_eq split: option.split)

lemma erase_loop_sync:
  "subscribed e s t \<Longrightarrow> in_sync e s t (erase_loop e f source n pos t)"
proof (induction pos arbitrary: n t)
  case (Cons r pos)
  obtain k b where r: "r = (k, b)" by (cases r)
  let ?t = "t\<lparr>slots_insert := filter (alive e) (slots_insert t), rows := drop_row e k (rows t)\<rparr>"
  have "in_sync e s ?t (erase_loop e f source (n + 1) pos ?t)"
    by (intro Cons.IH removed_row [OF Cons.prems refl])
  with remove_sync [OF Cons.prems refl] have
    "in_sync e s t (emit (fst (forward e (DbRemove k source) t)) (erase_loop e f source (n + 1) pos ?t))"
    by (intro in_sync_emit) simp_all
  with Cons.IH [OF Cons.prems] show ?case by (simp add: r forward_eq)
qed (simp add: in_sync_return)

lemma erase_if_sync: "subscribed e s t \<Longrightarrow> in_sync e s t (erase_if e f source t)"
  unfolding erase_if_def by (rule erase_loop_sync)

section \<open>Connections\<close>

lemma charge_eq: "alive e sp \<Longrightarrow> charge e sp t = map (Pair sp) (DbTrx True #
    map (\<lambda>(k, b). DbInsert k (body_data b) (generation b) (replicate 16 0)) (rows t) @ [DbTrx False])"
  by (simp add: charge_def slot_forward_def case_prod_unfold comp_def map_concat flip: map_map)
    (simp add: concat_map_singleton comp_def)

lemma concat_none [simp]: "concat (map (\<lambda>x. []) xs) = []"
  by (induction xs) simp_all

lemma charge_other: "sp \<noteq> s \<Longrightarrow> feed e s (charge e sp t) m = m"
  by (simp add: charge_def slot_forward_def feed_def case_prod_unfold filter_concat comp_def)

lemma feed_own: "feed e s (map (Pair s) evs) m = fold (mirror_event e) evs m"
  by (simp add: feed_def comp_def)

lemma fold_inserts:
  "distinct (classes e rs) \<Longrightarrow>
   fold (mirror_event e) (map (\<lambda>(k, b). DbInsert k (body_data b) (generation b) tag) rs) m =
     m ++ (map_option body_data \<circ> by_class e rs)"
proof (induction rs arbitrary: m)
  case (Cons r rs)
  obtain k b where r: "r = (k, b)" by (cases r)
  from Cons.prems have "by_class e rs (key_class e k) = None" by (simp add: by_class_None r)
  with Cons show ?case by (auto simp: r map_add_def fun_eq_iff split: option.split)
qed (simp add: map_add_def)

lemma charge_own:
  assumes "wf_table e t" and "alive e s"
  shows "feed e s (charge e s t) Map.empty = table_data e t" and "feed e s (charge e s t) (table_data e t) = table_data e t"
proof -
  have d: "distinct (classes e (rows t))" using assms by (simp add: wf_table_def wf_rows_def)
  have "feed e s (charge e s t) m = m ++ table_data e t" for m
    unfolding charge_eq [OF assms(2)] feed_own
    by (simp add: fold_inserts [OF d]) (simp add: table_data_def contents_def comp_def)
  then show "feed e s (charge e s t) Map.empty = table_data e t"
    "feed e s (charge e s t) (table_data e t) = table_data e t" by (simp_all add: map_add_def fun_eq_iff split: option.split)
qed


definition disconnects :: "slot option \<Rightarrow> command \<Rightarrow> bool" where
  "disconnects s c \<longleftrightarrow> (case c of CDisconnect sp \<Rightarrow> s = Some sp | _ \<Rightarrow> False)"

lemma in_sync_forget:
  assumes "in_sync e s t r" and "forget r = (ms, Inr t')"
  shows "subscribed e s t' \<and> tab_meta t' = tab_meta t \<and> follows e s ms (table_data e t) (table_data e t')"
proof -
  from assms(2) obtain x where "r = (ms, Inr (t', x))"
    by (cases r; cases "snd r") (auto simp: forget_def)
  then show ?thesis using assms(1) by (simp add: in_sync_def)
qed

lemma connect_simps:
  "rows (connect_only sp t) = rows t" "tab_meta (connect_only sp t) = tab_meta t"
  "slots_insert (connect_only sp t) = slots_insert t @ [sp]"
  "rows (fst (disconnect sp t)) = rows t" "tab_meta (fst (disconnect sp t)) = tab_meta t"
  "slots_insert (fst (disconnect sp t)) = remove1 sp (slots_insert t)"
  by (simp_all add: connect_only_def connect_insert_def connect_modify_def connect_remove_def connect_clear_def
      disconnect_def disconnect_slot_def Let_def remove1_idem)

lemma connect_charge: "connect e sp t = (charge e sp t, connect_only sp t)"
  by (simp add: connect_def Let_def charge_def connect_simps)

lemma subscribed_attach:
  "subscribed e s t \<Longrightarrow> rows t' = rows t \<Longrightarrow> tab_meta t' = tab_meta t \<Longrightarrow> listens e s (slots_insert t') \<Longrightarrow>
   subscribed e s t' \<and> tab_meta t' = tab_meta t \<and> follows e s [] (table_data e t) (table_data e t')"
  by (simp add: subscribed_def wf_table_def table_data_def contents_def)

lemmas sync_forget_insert = in_sync_forget [OF insert_row_sync] in_sync_forget [OF merge_row_sync]
  in_sync_forget [OF insert_auto_sync]

lemmas sync_forget =
  in_sync_forget [OF modify_attr_sync] in_sync_forget [OF modify_attr_map_sync] in_sync_forget [OF modify_param_sync]
  in_sync_forget [OF modify_param_map_sync] in_sync_forget [OF erase_row_sync] in_sync_forget [OF erase_if_sync]
  in_sync_forget [OF clear_sync]

lemma command_sync:
  assumes "env_ok e" and "subscribed e s t" and "\<not> disconnects s c" and "exec_command e t c = (ms, Inr t')"
  shows "subscribed e s t' \<and> tab_meta t' = tab_meta t \<and> follows e s ms (table_data e t) (table_data e t')"
proof (cases c)
  case CReserve
  have "wf_rows e (tab_meta t) (rows t)" using assms(2) by (simp add: subscribed_def wf_table_def)
  then show ?thesis using assms CReserve by_class_arrange [OF assms(1)]
    by (auto simp: reserve_def subscribed_def wf_table_def wf_rows_arrange table_data_def contents_def)
next
  case (CConnect sp)
  have "follows e s (charge e sp t) (table_data e t) (table_data e t)"
    using assms(2) charge_other charge_own(2) unfolding follows_def subscribed_def listens_def by metis
  then show ?thesis using assms CConnect
    by (auto simp: connect_charge subscribed_def wf_table_def connect_simps table_data_def contents_def listens_def)
next
  case (CDisconnect sp)
  with assms(3) have "s \<noteq> Some sp" by (simp add: disconnects_def)
  then have "listens e s (remove1 sp (slots_insert t))"
    using assms(2) by (simp add: subscribed_def listens_def) (metis in_set_remove1)
  then show ?thesis using assms CDisconnect subscribed_attach [of e s t t'] by (auto simp: connect_simps)
next
  case (CConnectOnly sp)
  with assms show ?thesis using subscribed_attach [of e s t t'] by (auto simp: connect_simps subscribed_def listens_def)
next
  case (CConnectInsert sp)
  with assms show ?thesis using subscribed_attach [of e s t t'] by (auto simp: connect_insert_def subscribed_def listens_def)
next
  case (CConnectModify sp)
  with assms show ?thesis using subscribed_attach [of e s t t'] by (auto simp: connect_modify_def subscribed_def listens_def)
next
  case (CConnectRemove sp)
  with assms show ?thesis using subscribed_attach [of e s t t'] by (auto simp: connect_remove_def subscribed_def listens_def)
next
  case (CConnectClear sp)
  with assms show ?thesis using subscribed_attach [of e s t t'] by (auto simp: connect_clear_def subscribed_def listens_def)
next
  case (CInsertAuto f d source)
  with assms show ?thesis using sync_forget_insert(3) [OF assms(1,2)] by (cases "is_auto t") auto
qed (use assms(4) in \<open>auto dest: sync_forget_insert [OF assms(1,2)] sync_forget [OF assms(2)]\<close>)

section \<open>Reachable tables\<close>

inductive table_reachable :: "table_env \<Rightarrow> meta_store \<Rightarrow> table \<Rightarrow> bool" for e m where
  created: "table_reachable e m (new_table m)"
| created_auto: "table_reachable e m (new_auto_table m k)"
| operation: "table_reachable e m t \<Longrightarrow> exec_command e t c = (ms, Inr t') \<Longrightarrow> table_reachable e m t'"

text \<open>C8. Tables stay consistent: whatever operations are executed on a new table, every row conforms to the
  schema, and no two rows have keys that \<^verbatim>\<open>equal_to\<close> considers equal.\<close>

theorem table_consistent:
  assumes "env_ok e" and "table_reachable e m t"
  shows "tab_meta t = m \<and> (\<forall>r \<in> set (rows t). check_integrity m (fst r) (body_data (snd r))) \<and>
    (\<forall>i < length (rows t). \<forall>j < i. \<not> key_equal (hashes e) (fst (rows t ! i)) (fst (rows t ! j)))"
proof -
  have "tab_meta t = m \<and> subscribed e None t"
    using assms(2)
  proof induction
    case (operation t c ms t')
    then show ?case using command_sync [OF assms(1), of None t c ms t'] by (auto simp: disconnects_def split: command.splits)
  qed (simp_all add: new_table_def new_auto_table_def subscribed_def wf_table_def wf_rows_def listens_def)
  moreover have "distinct (classes e (rows t)) \<Longrightarrow> i < length (rows t) \<Longrightarrow> j < i \<Longrightarrow>
      key_class e (fst (rows t ! i)) \<noteq> key_class e (fst (rows t ! j))" for i j
    using nth_eq_iff_index_eq [of "classes e (rows t)" i j] by (simp add: classes_def)
  ultimately show ?thesis by (auto simp: subscribed_def wf_table_def wf_rows_def key_equal_class)
qed

section \<open>Keeping a copy\<close>

lemma commands_sync:
  assumes "env_ok e" and "subscribed e s t" and "\<forall>c \<in> set cs. \<not> disconnects s c" and "exec_commands e t cs = (ms, Inr t')"
  shows "subscribed e s t' \<and> follows e s ms (table_data e t) (table_data e t')"
  using assms(2-)
proof (induction cs arbitrary: t ms)
  case (Cons c cs)
  then obtain ms1 t1 ms2 where "exec_command e t c = (ms1, Inr t1)" "exec_commands e t1 cs = (ms2, Inr t')" "ms = ms1 @ ms2"
    by (auto simp: after_eq_ok)
  with Cons command_sync [OF assms(1), of s t c ms1 t1] show ?case
    by (metis follows_append list.set_intros(1) list.set_intros(2))
qed simp

text \<open>C7. Subscribers can keep a copy: the messages that a slot gets from its connection on, applied to
  an empty copy, give the data of the table under each key, after any sequence of operations in which the slot is not disconnected
  and its channel lives.\<close>

theorem subscriber_copy:
  assumes "env_ok e" and "wf_table e t" and "alive e sp" and "\<forall>c \<in> set cs. \<not> disconnects (Some sp) c"
    and "exec_commands e t (CConnect sp # cs) = (ms, Inr t')"
  shows "feed e sp ms Map.empty = table_data e t'"
proof -
  from assms(5) obtain ms2 where ms: "ms = charge e sp t @ ms2" "exec_commands e (connect_only sp t) cs = (ms2, Inr t')"
    by (cases "exec_commands e (connect_only sp t) cs") (auto simp: connect_charge)
  have "subscribed e (Some sp) (connect_only sp t)"
    using assms by (simp add: subscribed_def wf_table_def listens_def connect_simps)
  from commands_sync [OF assms(1) this assms(4) ms(2)] have "feed e sp ms2 (table_data e t) = table_data e t'"
    by (simp add: follows_def table_data_def contents_def connect_simps)
  then show ?thesis using charge_own(1) [OF assms(2,3)] by (simp add: ms)
qed


definition sample_hashes :: hash_env where
  "sample_hashes = \<lparr>std_hash = (\<lambda>obj. case obj of OU32 n \<Rightarrow> ucast n | OString s \<Rightarrow> word_of_nat (size s) | _ \<Rightarrow> 0),
     null_hash = 77, eod_hash = 78, hash_host = Little\<rparr>"

definition sample_table_env :: table_env where
  "sample_table_env = \<lparr>hashes = sample_hashes, asserts = Debug, arrange = (\<lambda>rs. rs), alive = (\<lambda>sp. sp < 9)\<rparr>"

lemma env_ok_sample: "env_ok sample_table_env"
  by (simp add: env_ok_def sample_table_env_def)

definition sample_commands :: "command list" where
  "sample_commands = [CInsert [OU32 1] [OString (str ''a''), OU32 7] 1 [], CMerge [OU32 2] [OString (str ''b''), OU32 8] 1 [],
     CModifyAttr [OU32 1] 1 (OU32 9) [], CMerge [OU32 2] [OString (str ''bb''), OU32 10] 5 [], CErase [OU32 1] []]"

definition sample_result :: "messages \<times> table result" where
  "sample_result = exec_commands sample_table_env (new_table sample_meta) (CConnect 1 # sample_commands)"

lemma sample_key [simp]: "key_class sample_table_env [OU32 n] = (1, push_bit 1 (ucast n))"
  by (simp add: key_class_def key_hash_def xor_all_def sample_table_env_def sample_hashes_def)

lemma sample_body [simp]: "body_size sample_meta = 2" "pk_size sample_meta = 1"
  by (simp_all add: body_size_def meta_size_def sample_meta_def)

lemma sample_env_simps [simp]: "alive sample_table_env sp = (sp < 9)" "arrange sample_table_env rs = rs"
  "asserts sample_table_env = Debug" "hashes sample_table_env = sample_hashes"
  by (simp_all add: sample_table_env_def)

lemma sample_hash [simp]: "std_hash sample_hashes (OU32 n) = ucast n"
  "std_hash sample_hashes (OString s) = word_of_nat (length s)"
  by (simp_all add: sample_hashes_def)

lemma sample_equal [simp]: "key_equal sample_hashes [OU32 a] [OU32 b] \<longleftrightarrow> push_bit 1 (ucast a :: u64) = push_bit 1 (ucast b)"
  by (simp add: key_equal_def key_hash_def xor_all_def)

lemma sample_result_ok: "\<exists>ms t'. sample_result = (ms, Inr t') \<and>
    rows t' = [([OU32 2], \<lparr>body_data = [OString (str ''bb''), OU32 10], generation = 3\<rparr>)] \<and> length ms = 8"
  by (simp add: sample_result_def sample_commands_def forget_def insert_row_def merge_row_def emplace_def forward_eq
      modify_attr_def modify_at_def erase_row_def update_row_def checked_at_def object_eq_def key_equal_class
      check_integrity_def check_key_integrity_def check_data_integrity_def connect_charge charge_eq connect_simps
      new_table_def Let_def)

theorem subscriber_copy_witness:
  "\<exists>ms t'. exec_commands sample_table_env (new_table sample_meta) (CConnect 1 # sample_commands) = (ms, Inr t') \<and>
     rows t' = [([OU32 2], \<lparr>body_data = [OString (str ''bb''), OU32 10], generation = 3\<rparr>)] \<and>
     feed sample_table_env 1 ms Map.empty = table_data sample_table_env t'"
proof -
  obtain ms t' where r: "sample_result = (ms, Inr t')"
    "rows t' = [([OU32 2], \<lparr>body_data = [OString (str ''bb''), OU32 10], generation = 3\<rparr>)]"
    using sample_result_ok by blast
  have "feed sample_table_env 1 ms Map.empty = table_data sample_table_env t'"
    by (rule subscriber_copy [OF env_ok_sample _ _ _ r(1) [unfolded sample_result_def]])
      (simp_all add: wf_table_def wf_rows_def new_table_def sample_table_env_def sample_commands_def disconnects_def)
  with r show ?thesis by (auto simp: sample_result_def)
qed

theorem table_consistent_witness:
  "\<exists>t :: table. rows t = [([OU32 2], \<lparr>body_data = [OString (str ''bb''), OU32 10], generation = 3\<rparr>)] \<and>
     tab_meta t = sample_meta \<and> (\<forall>r \<in> set (rows t). check_integrity sample_meta (fst r) (body_data (snd r))) \<and>
     (\<forall>i < length (rows t). \<forall>j < i. \<not> key_equal (hashes sample_table_env) (fst (rows t ! i)) (fst (rows t ! j)))"
proof -
  obtain ms t' where r: "sample_result = (ms, Inr t')"
    "rows t' = [([OU32 2], \<lparr>body_data = [OString (str ''bb''), OU32 10], generation = 3\<rparr>)]"
    using sample_result_ok by blast
  have "table_reachable e m t \<Longrightarrow> exec_commands e t cs = (ms, Inr t') \<Longrightarrow> table_reachable e m t'" for e m t cs ms
    by (induction cs arbitrary: t ms) (auto simp: after_eq_ok intro: operation)
  from this [OF created r(1) [unfolded sample_result_def]] have "table_reachable sample_table_env sample_meta t'" .
  show ?thesis
    by (rule exI [of _ t'], rule conjI, rule r(2), rule table_consistent [OF env_ok_sample]) fact
qed

section \<open>Merging\<close>

text \<open>What \<^verbatim>\<open>update\<close> leaves of old and new values, and how many it replaces.\<close>

definition overlay :: "table_env \<Rightarrow> object list \<Rightarrow> object list \<Rightarrow> object list" where
  "overlay e old new = map2 (\<lambda>o1 o2. if object_eq (hashes e) o1 o2 then o1 else o2) old new"

definition changes :: "table_env \<Rightarrow> object list \<Rightarrow> object list \<Rightarrow> nat" where
  "changes e old new = length (filter (\<lambda>(o1, o2). \<not> object_eq (hashes e) o1 o2) (zip old new))"

lemma overlay_simps [simp]:
  "overlay e [] new = []"
  "overlay e (a # old) (b # new) = (if object_eq (hashes e) a b then a else b) # overlay e old new"
  "changes e [] new = 0"
  "changes e (a # old) (b # new) = (if object_eq (hashes e) a b then 0 else 1) + changes e old new"
  by (simp_all add: overlay_def changes_def)

lemma update_loop_result:
  assumes "contents e t (key_class e k) = Some \<lparr>body_data = done @ old, generation = g\<rparr>" and "length old = length new"
  shows "\<exists>ms t'. update_loop e k source \<lparr>body_data = done @ old, generation = g\<rparr> (enumerate (length done) new) t =
      (ms, Inr (t', ())) \<and>
    contents e t' = (contents e t)(key_class e k \<mapsto>
      \<lparr>body_data = done @ overlay e old new, generation = g + word_of_nat (changes e old new)\<rparr>)"
  using assms
proof (induction old arbitrary: "done" g new t)
  case Nil
  then show ?case by (auto simp: fun_eq_iff)
next
  case (Cons o1 old)
  then obtain o2 new' where new: "new = o2 # new'" by (cases new) auto
  have at: "checked_at (done @ o1 # old) (length done) = Inr o1" by (simp add: checked_at_def)
  show ?case
  proof (cases "object_eq (hashes e) o1 o2")
    case True
    from Cons.IH [of t "done @ [o1]" g new'] Cons.prems new
    show ?thesis by (simp add: at True)
  next
    case False
    let ?b = "\<lparr>body_data = (done @ [o2]) @ old, generation = g + 1\<rparr>"
    let ?t = "t\<lparr>rows := set_row e k ?b (rows t)\<rparr>"
    let ?ev = "DbModify k (word_of_nat (length done)) o2 (g + 1) source"
    have c: "contents e (snd (forward e ?ev ?t)) = (contents e t)(key_class e k \<mapsto> ?b)"
      using Cons.prems(1) by (simp add: contents_def forward_eq by_class_set_row)
    have p: "contents e (snd (forward e ?ev ?t)) (key_class e k) = Some ?b" by (simp only: c fun_upd_same)
    have len: "length old = length new'" using Cons.prems(2) new by simp
    have "\<exists>ms t'. update_loop e k source ?b (enumerate (Suc (length done)) new') (snd (forward e ?ev ?t)) =
        (ms, Inr (t', ())) \<and> contents e t' = (contents e (snd (forward e ?ev ?t)))(key_class e k \<mapsto>
        \<lparr>body_data = (done @ [o2]) @ overlay e old new', generation = g + 1 + word_of_nat (changes e old new')\<rparr>)"
      using Cons.IH [of "snd (forward e ?ev ?t)" "done @ [o2]" "g + 1" new', OF p len] by (simp only: length_append_singleton)
    then obtain ms t' where u: "update_loop e k source ?b (enumerate (Suc (length done)) new') (snd (forward e ?ev ?t)) =
        (ms, Inr (t', ()))" "contents e t' = (contents e t)(key_class e k \<mapsto>
        \<lparr>body_data = (done @ [o2]) @ overlay e old new', generation = g + 1 + word_of_nat (changes e old new')\<rparr>)"
      unfolding c fun_upd_upd by blast
    have f: "update_loop e k source \<lparr>body_data = done @ o1 # old, generation = g\<rparr> (enumerate (length done) new) t =
        (fst (forward e ?ev ?t) @ ms, Inr (t', ()))"
      using u(1) by (simp add: new at False forward_eq Let_def list_update_append)
    have v: "overlay e (o1 # old) new = o2 # overlay e old new'" "changes e (o1 # old) new = 1 + changes e old new'"
      using False new by simp_all
    show ?thesis by (intro exI conjI, rule f, unfold u(2) v) (simp add: add.assoc)
  qed
qed

lemma overlay_equal: "length old = length new \<Longrightarrow> list_all2 (object_eq (hashes e)) (overlay e old new) new"
  by (induction old new rule: list_induct2) (simp_all add: object_eq_def)

lemma merged:
  assumes "env_ok e" and "wf_table e t" and "check_integrity (tab_meta t) k d"
  shows "\<exists>ms t'. merge_row e k d g source t = (ms, Inr (t', contents e t (key_class e k) = None)) \<and>
    contents e t' = (contents e t)(key_class e k \<mapsto>
      (case contents e t (key_class e k) of
         None \<Rightarrow> \<lparr>body_data = d, generation = g\<rparr>
       | Some b \<Rightarrow> \<lparr>body_data = overlay e (body_data b) d, generation = generation b + word_of_nat (changes e (body_data b) d)\<rparr>)) \<and>
    list_all2 (object_eq (hashes e)) (body_data (the (contents e t' (key_class e k)))) d"
proof (cases "find_row e k (rows t)")
  case None
  have t: "subscribed e None t" using assms(2) by (simp add: subscribed_def listens_def)
  have c: "contents e t (key_class e k) = None" using None by (simp add: contents_def find_row_None)
  note n = insert_new(3) [OF assms(1) t None assms(3) refl, of g]
  have "list_all2 (object_eq (hashes e)) d d" by (simp add: list_all2_same object_eq_def)
  then show ?thesis using assms(3) None n c
    by (simp add: merge_row_def emplace_def forward_eq) (simp add: contents_def)
next
  case (Some r)
  obtain k' b where r: "r = (k', b)" by (cases r)
  have c: "contents e t (key_class e k) = Some b" using find_row_Some Some r by (simp add: contents_def)
  have "check_integrity (tab_meta t) k' (body_data b)"
    using wf_rows_find Some r assms(2) by (simp add: wf_table_def)
  then have len: "length (body_data b) = length d" using assms(3) integrity_length by metis
  obtain d0 g0 where b: "b = \<lparr>body_data = d0, generation = g0\<rparr>" by (cases b)
  have "\<exists>ms t'. update_loop e k source b (enumerate 0 d) t = (ms, Inr (t', ())) \<and>
    contents e t' = (contents e t)(key_class e k \<mapsto>
      \<lparr>body_data = overlay e (body_data b) d, generation = generation b + word_of_nat (changes e (body_data b) d)\<rparr>)"
    using update_loop_result [of e t k "[]" d0 g0 d source] c len by (simp add: b)
  then obtain ms t' where u: "update_loop e k source b (enumerate 0 d) t = (ms, Inr (t', ()))"
    "contents e t' = (contents e t)(key_class e k \<mapsto>
      \<lparr>body_data = overlay e (body_data b) d, generation = generation b + word_of_nat (changes e (body_data b) d)\<rparr>)"
    by blast
  have "merge_row e k d g source t = (ms, Inr (t', False))"
    using assms(3) by (simp add: merge_row_def update_row_def Some r len u(1))
  then show ?thesis using overlay_equal [OF len] by (simp add: u(2) c)
qed

text \<open>C10. Merging a row that fits the schema into a table whose rows fit it, no two under equal keys, never fails.  Under a new key the row is inserted with the given
  generation and the result is true.  Under an existing key every value that has another hash is replaced, and the
  generation counts the replaced values; the result is false, although \<^verbatim>\<open>table.h\<close> (line 84) and \<^verbatim>\<open>db.h\<close> (line 150)
  document true if the record was inserted or modified: the code departs from its documentation here.  The other
  rows stay as they are.\<close>

theorem merge_result:
  assumes "env_ok e" and "wf_table e t" and "check_integrity (tab_meta t) k d"
  shows "\<exists>ms t'. merge_row e k d g source t = (ms, Inr (t', contents e t (key_class e k) = None)) \<and>
    contents e t' = (contents e t)(key_class e k \<mapsto>
      (case contents e t (key_class e k) of
         None \<Rightarrow> \<lparr>body_data = d, generation = g\<rparr>
       | Some b \<Rightarrow> \<lparr>body_data = overlay e (body_data b) d, generation = generation b + word_of_nat (changes e (body_data b) d)\<rparr>)) \<and>
    list_all2 (object_eq (hashes e)) (body_data (the (contents e t' (key_class e k)))) d"
  using assms by (rule merged)

definition sample_table :: table where
  "sample_table = (new_table sample_meta)\<lparr>rows := [([OU32 1], \<lparr>body_data = [OString (str ''a''), OU32 7], generation = 4\<rparr>)]\<rparr>"

theorem merge_result_witness:
  "\<exists>ms t'. merge_row sample_table_env [OU32 1] [OString (str ''b''), OU32 8] 1 [] sample_table = (ms, Inr (t', False)) \<and>
    contents sample_table_env t' (key_class sample_table_env [OU32 1]) =
      Some \<lparr>body_data = [OString (str ''a''), OU32 8], generation = 5\<rparr>"
proof -
  have "wf_table sample_table_env sample_table"
    and "check_integrity (tab_meta sample_table) [OU32 1] [OString (str ''b''), OU32 8]"
    by (simp_all add: wf_table_def wf_rows_def sample_table_def new_table_def check_integrity_def
        check_key_integrity_def check_data_integrity_def)
  from merge_result [OF env_ok_sample this, of 1 "[]"] show ?thesis
    by (auto simp: sample_table_def contents_def object_eq_def)
qed

text \<open>Keys of several values are confused: their hash does not depend on the order, so a row cannot be
  inserted if there is one with the same key values in another order, and merging it overwrites that row.\<close>

theorem composite_keys_collide:
  assumes "env_ok e" and "wf_table e t" and "check_integrity (tab_meta t) k d" and "exists_row e k' t" and "mset k = mset k'"
  shows "insert_row e k d g source t = ([], Inr (t, False)) \<and>
    (\<exists>ms t'. merge_row e k d g source t = (ms, Inr (t', False)) \<and>
      list_all2 (object_eq (hashes e)) (rec_data (lookup e k' t')) d)"
proof -
  have eq: "key_class e k = key_class e k'" using key_equal_mset [OF assms(5), of "hashes e"] by (simp add: key_equal_class)
  have ex: "find_row e k (rows t) \<noteq> None" using assms(4) by (simp add: exists_row_def find_row_None eq)
  then have em: "emplace e k d g t = (t, False)" by (simp add: emplace_def)
  have t: "subscribed e None t" using assms(2) by (simp add: subscribed_def listens_def)
  have c: "contents e t (key_class e k) \<noteq> None" using ex by (simp add: contents_def find_row_None)
  then obtain ms t' where m: "merge_row e k d g source t = (ms, Inr (t', False))"
    "contents e t' = (contents e t)(key_class e k \<mapsto> \<lparr>body_data = overlay e (body_data (the (contents e t (key_class e k)))) d,
      generation = generation (the (contents e t (key_class e k))) +
        word_of_nat (changes e (body_data (the (contents e t (key_class e k)))) d)\<rparr>)"
    "list_all2 (object_eq (hashes e)) (body_data (the (contents e t' (key_class e k)))) d"
    using merged [OF assms(1-3), of g source] by auto
  have "find_row e k' (rows t') \<noteq> None" using m(2) by (simp add: find_row_None eq contents_def [symmetric])
  then have "rec_data (lookup e k' t') = body_data (the (contents e t' (key_class e k)))"
    using find_row_Some by (fastforce simp: lookup_def record_of_def eq contents_def)
  with m em assms(3) show ?thesis by (auto simp: insert_row_def)
qed


definition pair_meta :: meta_store where
  "pair_meta = \<lparr>meta_name = str ''pairs'', columns = [\<lparr>col_name = str ''from'', col_type = 8\<rparr>,
     \<lparr>col_name = str ''to'', col_type = 8\<rparr>, \<lparr>col_name = str ''cost'', col_type = 8\<rparr>], pk_size = 2\<rparr>"

definition pair_table :: table where
  "pair_table = (new_table pair_meta)\<lparr>rows := [([OU32 1, OU32 2], \<lparr>body_data = [OU32 7], generation = 4\<rparr>)]\<rparr>"

theorem composite_keys_collide_witness:
  "insert_row sample_table_env [OU32 2, OU32 1] [OU32 9] 1 [] pair_table = ([], Inr (pair_table, False)) \<and>
    (\<exists>ms t'. merge_row sample_table_env [OU32 2, OU32 1] [OU32 9] 1 [] pair_table = (ms, Inr (t', False)) \<and>
      list_all2 (object_eq (hashes sample_table_env)) (rec_data (lookup sample_table_env [OU32 1, OU32 2] t')) [OU32 9])"
  by (rule composite_keys_collide [OF env_ok_sample])
    (simp_all add: wf_table_def wf_rows_def pair_table_def pair_meta_def new_table_def check_integrity_def exists_row_def
      check_key_integrity_def check_data_integrity_def body_size_def meta_size_def)

section \<open>Modification by name\<close>

lemma index_of_less: "index_of x xs = Some i \<Longrightarrow> i < length xs"
  by (induction xs arbitrary: i) (auto split: if_splits)

text \<open>Modifying a column by a name that the schema does not have, or that belongs to the key, throws if
  the row exists: the index is out of the body's range.  Nothing is published or changed.\<close>

theorem modify_unknown_column:
  assumes "wf_table e t" and "exists_row e k t" and "pk_size (tab_meta t) \<le> meta_size (tab_meta t)"
    and "meta_size (tab_meta t) < 2 ^ 64"
    and "\<forall>i. index_of name (map col_name (columns (tab_meta t))) = Some i \<longrightarrow> i < pk_size (tab_meta t)"
  shows "modify_param e k (name, v) source t = ([], Inl Exception)"
proof -
  let ?m = "tab_meta t" and ?i = "get_body_index_by_name (tab_meta t) name"
  obtain k' b where r: "find_row e k (rows t) = Some (k', b)" using assms(2) by (auto simp: exists_row_def)
  then have "check_integrity ?m k' (body_data b)" using assms(1) wf_rows_find by (simp add: wf_table_def)
  then have len: "length (body_data b) = unat (body_size ?m)" by (rule integrity_length)
  have size: "unat (body_size ?m) = meta_size ?m - pk_size ?m"
    using assms(3,4) by (simp add: body_size_def unat_of_nat flip: of_nat_diff)
  have max: "unat npos = 2 ^ 64 - 1" by (simp add: npos_def unsigned_minus_1_eq_mask mask_eq_exp_minus_1)
  have "length (body_data b) \<le> unat ?i"
  proof (cases "index_of name (map col_name (columns ?m))")
    case None
    then show ?thesis using assms(3,4) max len size
      by (simp add: get_body_index_by_name_def get_index_by_name_def Let_def)
  next
    case (Some j)
    with assms(5) have j: "j < pk_size ?m" by blast
    have jn: "word_of_nat j \<noteq> npos"
    proof
      assume "word_of_nat j = npos"
      then have "unat (word_of_nat j :: u64) = unat npos" by simp
      then have "j = 2 ^ 64 - 1" using j assms(3,4) max by (simp add: unat_of_nat)
      with j assms(3,4) show False by simp
    qed
    have "?i = word_of_nat j - word_of_nat (pk_size ?m)"
      using Some jn by (simp add: get_body_index_by_name_def get_index_by_name_def Let_def)
    also have "\<dots> = - word_of_nat (pk_size ?m - j)" using j by (simp add: of_nat_diff)
    finally have i: "?i = - word_of_nat (pk_size ?m - j)" .
    have p: "0 < pk_size ?m - j" "pk_size ?m - j < 2 ^ 64" using j assms(3,4) by simp_all
    have "unat (?i + word_of_nat (pk_size ?m - j)) = 0" unfolding i by simp
    then have "(unat ?i + (pk_size ?m - j)) mod 2 ^ 64 = 0"
      using p(2) by (simp only: unat_word_ariths unat_of_nat) (simp add: mod_add_right_eq)
    then have "2 ^ 64 \<le> unat ?i + (pk_size ?m - j)" using p(1) by (intro dvd_imp_le) (auto simp: mod_eq_0_iff_dvd)
    then show ?thesis using assms(3,4) len size by simp
  qed
  then have "checked_at (body_data b) (unat ?i) = Inl Exception" by (simp add: checked_at_def)
  then show ?thesis by (simp add: modify_param_def modify_attr_def r)
qed

theorem modify_unknown_column_witness:
  "modify_param sample_table_env [OU32 1] (str ''tag'', OU32 3) [] sample_table = ([], Inl Exception)"
  by (rule modify_unknown_column)
    (simp_all add: sample_table_def wf_table_def wf_rows_def new_table_def check_integrity_def
      check_key_integrity_def check_data_integrity_def exists_row_def, simp_all add: sample_meta_def meta_size_def)

end
