(* ===== verification/Store.thy ===== *)
theory Store
  imports Replica
begin

text \<open>
  The database: \<^verbatim>\<open>class store\<close> of \<^verbatim>\<open>include/cyng/store/db.h\<close> and \<^verbatim>\<open>src/store/src/db.cpp\<close>, a map of named tables.
  Operations lock the database for reading and the tables they need; the locks are left out.  Messages carry
  the name of their table.
\<close>

section \<open>The store and access to its tables\<close>

type_synonym store = "(byte list, table) std_map"
type_synonym store_messages = "(byte list \<times> slot \<times> event) list"
type_synonym 'a store_outcome = "store_messages \<times> (store \<times> 'a) result"

definition create_table :: "meta_store \<Rightarrow> store \<Rightarrow> store \<times> bool" where
  "create_table m st = (map_emplace (meta_name m) (new_table m) st, map_find (meta_name m) st = None)"

definition create_auto_table :: "meta_store \<Rightarrow> key \<Rightarrow> store \<Rightarrow> store \<times> bool" where
  "create_auto_table m start st = (map_emplace (meta_name m) (new_auto_table m start) st, map_find (meta_name m) st = None)"

definition make_store :: "meta_store list \<Rightarrow> store" where
  "make_store ms = foldl (\<lambda>st m. map_emplace (meta_name m) (new_table m) st) [] ms"

definition store_size :: "store \<Rightarrow> nat" where
  "store_size st = length st"

text \<open>
  \<^verbatim>\<open>access\<close> with one table.  For a name that is not in the map \<^verbatim>\<open>get_lock\<close> fails its assertion; without assertions it
  gives a lock without a mutex, and locking that throws.
\<close>

definition access :: "table_env \<Rightarrow> byte list \<Rightarrow> (table \<Rightarrow> 'a outcome) \<Rightarrow> store \<Rightarrow> 'a store_outcome" where
  "access e name f st =
     after ([], boost_assert (asserts e) (map_find name st \<noteq> None)) (\<lambda>_.
       case map_find name st of
         None \<Rightarrow> ([], Inl Exception)
       | Some t \<Rightarrow> (case f t of (ms, r) \<Rightarrow>
           (map (\<lambda>(sp, ev). (name, sp, ev)) ms,
            rbind r (\<lambda>(t', x). Inr (map_assign name t' st, x)))))"

definition access_read :: "table_env \<Rightarrow> byte list \<Rightarrow> (table \<Rightarrow> 'a result) \<Rightarrow> store \<Rightarrow> 'a result" where
  "access_read e name f st =
     rbind (boost_assert (asserts e) (map_find name st \<noteq> None)) (\<lambda>_.
       case map_find name st of None \<Rightarrow> Inl Exception | Some t \<Rightarrow> f t)"

text \<open>
  With two tables.  \<^verbatim>\<open>std::lock\<close> needs two mutexes; with one table named twice it would lock its mutex twice.
\<close>

definition access2 :: "table_env \<Rightarrow> byte list \<Rightarrow> byte list \<Rightarrow>
    (table \<Rightarrow> table \<Rightarrow> store_messages \<times> (table \<times> table) result) \<Rightarrow> store \<Rightarrow> unit store_outcome" where
  "access2 e n1 n2 f st =
     after ([], boost_assert (asserts e) (map_find n1 st \<noteq> None)) (\<lambda>_.
     after ([], boost_assert (asserts e) (map_find n2 st \<noteq> None)) (\<lambda>_.
       case (map_find n1 st, map_find n2 st) of
         (Some t1, Some t2) \<Rightarrow>
           after ([], defined_if (n1 \<noteq> n2)) (\<lambda>_.
           after (f t1 t2) (\<lambda>(t1', t2'). ([], Inr (map_assign n2 t2' (map_assign n1 t1' st), ()))))
       | _ \<Rightarrow> ([], Inl Exception)))"

section \<open>Operations: db.cpp\<close>

definition store_table_size :: "table_env \<Rightarrow> byte list \<Rightarrow> store \<Rightarrow> nat result" where
  "store_table_size e name st = access_read e name (\<lambda>t. Inr (table_size t)) st"

definition store_insert :: "table_env \<Rightarrow> byte list \<Rightarrow> key \<Rightarrow> object list \<Rightarrow> u64 \<Rightarrow> uuid \<Rightarrow> store \<Rightarrow> bool store_outcome" where
  "store_insert e name k data gen source st = access e name (insert_row e k data gen source) st"

text \<open>A table that is no \<^verbatim>\<open>auto_table\<close> is left alone.\<close>

definition store_insert_auto ::
    "table_env \<Rightarrow> (table \<Rightarrow> key \<Rightarrow> key) \<Rightarrow> byte list \<Rightarrow> object list \<Rightarrow> uuid \<Rightarrow> store \<Rightarrow> bool store_outcome" where
  "store_insert_auto e next_key name data source st =
     access e name (\<lambda>t. if is_auto t then
         after (insert_auto e next_key data source t) (\<lambda>(t', r). ([], Inr (t', snd r)))
       else ([], Inr (t, False))) st"

definition store_merge :: "table_env \<Rightarrow> byte list \<Rightarrow> key \<Rightarrow> object list \<Rightarrow> u64 \<Rightarrow> uuid \<Rightarrow> store \<Rightarrow> bool store_outcome" where
  "store_merge e name k data gen source st = access e name (merge_row e k data gen source) st"

definition store_erase :: "table_env \<Rightarrow> byte list \<Rightarrow> key \<Rightarrow> uuid \<Rightarrow> store \<Rightarrow> bool store_outcome" where
  "store_erase e name k source st = access e name (erase_row e k source) st"

definition store_erase_if :: "table_env \<Rightarrow> byte list \<Rightarrow> (row \<Rightarrow> bool) \<Rightarrow> uuid \<Rightarrow> store \<Rightarrow> nat store_outcome" where
  "store_erase_if e name f source st = access e name (erase_if e f source) st"

definition store_modify_attr :: "table_env \<Rightarrow> byte list \<Rightarrow> key \<Rightarrow> u64 \<times> object \<Rightarrow> uuid \<Rightarrow> store \<Rightarrow> bool store_outcome" where
  "store_modify_attr e name k attr source st = access e name (modify_attr e k attr source) st"

definition store_modify_param ::
    "table_env \<Rightarrow> byte list \<Rightarrow> key \<Rightarrow> byte list \<times> object \<Rightarrow> uuid \<Rightarrow> store \<Rightarrow> bool store_outcome" where
  "store_modify_param e name k param source st = access e name (modify_param e k param source) st"

definition store_modify_param_map ::
    "table_env \<Rightarrow> byte list \<Rightarrow> key \<Rightarrow> (byte list, object) std_map \<Rightarrow> uuid \<Rightarrow> store \<Rightarrow> bool store_outcome" where
  "store_modify_param_map e name k pm source st = access e name (modify_param_map e k pm source) st"

definition store_clear :: "table_env \<Rightarrow> byte list \<Rightarrow> uuid \<Rightarrow> store \<Rightarrow> unit store_outcome" where
  "store_clear e name source st = access e name (clear e source) st"

definition get_object :: "table_env \<Rightarrow> byte list \<Rightarrow> byte list \<Rightarrow> key \<Rightarrow> store \<Rightarrow> object result" where
  "get_object e name col k st = access_read e name (\<lambda>t. rec_at_name (lookup e k t) col) st"

text \<open>The functions that connect and disconnect a slot, over the one they call.\<close>

definition pure :: "(table \<Rightarrow> table) \<Rightarrow> table \<Rightarrow> unit outcome" where
  "pure f t = ([], Inr (f t, ()))"

definition store_connect :: "table_env \<Rightarrow> byte list \<Rightarrow> slot \<Rightarrow> store \<Rightarrow> unit store_outcome" where
  "store_connect e name sp st = access e name (\<lambda>t. case connect e sp t of (ms, t') \<Rightarrow> (ms, Inr (t', ()))) st"

definition store_connect_only :: "table_env \<Rightarrow> byte list \<Rightarrow> slot \<Rightarrow> store \<Rightarrow> unit store_outcome" where
  "store_connect_only e name sp st = access e name (pure (connect_only sp)) st"

definition store_connect_insert :: "table_env \<Rightarrow> byte list \<Rightarrow> slot \<Rightarrow> store \<Rightarrow> unit store_outcome" where
  "store_connect_insert e name sp st = access e name (pure (connect_insert sp)) st"

definition store_connect_modify :: "table_env \<Rightarrow> byte list \<Rightarrow> slot \<Rightarrow> store \<Rightarrow> unit store_outcome" where
  "store_connect_modify e name sp st = access e name (pure (connect_modify sp)) st"

definition store_connect_remove :: "table_env \<Rightarrow> byte list \<Rightarrow> slot \<Rightarrow> store \<Rightarrow> unit store_outcome" where
  "store_connect_remove e name sp st = access e name (pure (connect_remove sp)) st"

definition store_connect_clear :: "table_env \<Rightarrow> byte list \<Rightarrow> slot \<Rightarrow> store \<Rightarrow> unit store_outcome" where
  "store_connect_clear e name sp st = access e name (pure (connect_clear sp)) st"

definition store_disconnect :: "table_env \<Rightarrow> byte list \<Rightarrow> slot \<Rightarrow> store \<Rightarrow> unit store_outcome" where
  "store_disconnect e name sp st = access e name (pure (\<lambda>t. fst (disconnect sp t))) st"

definition disconnect_all :: "slot \<Rightarrow> store \<Rightarrow> store \<times> nat" where
  "disconnect_all sp st =
     (map (\<lambda>(name, t). (name, fst (disconnect sp t))) st,
      length (filter (\<lambda>(name, t). snd (disconnect sp t)) st))"

section \<open>Sequences of operations\<close>

datatype store_command =
    SCreate meta_store
  | SCreateAuto meta_store key
  | SInsert "byte list" key "object list" u64 uuid
  | SInsertAuto "byte list" "object list" uuid
  | SMerge "byte list" key "object list" u64 uuid
  | SErase "byte list" key uuid
  | SEraseIf "byte list" "row \<Rightarrow> bool" uuid
  | SModifyAttr "byte list" key u64 object uuid
  | SModifyParam "byte list" key "byte list" object uuid
  | SModifyParamMap "byte list" key "(byte list, object) std_map" uuid
  | SClear "byte list" uuid
  | SConnect "byte list" slot
  | SConnectOnly "byte list" slot
  | SConnectInsert "byte list" slot
  | SConnectModify "byte list" slot
  | SConnectRemove "byte list" slot
  | SConnectClear "byte list" slot
  | SDisconnect "byte list" slot
  | SDisconnectAll slot

definition forget_store :: "'a store_outcome \<Rightarrow> store_messages \<times> store result" where
  "forget_store r = after r (\<lambda>(st, x). ([], Inr st))"

text \<open>The functions that make keys are given with the names of their tables.\<close>

primrec exec_store :: "table_env \<Rightarrow> (byte list \<Rightarrow> table \<Rightarrow> key \<Rightarrow> key) \<Rightarrow> store \<Rightarrow> store_command \<Rightarrow>
    store_messages \<times> store result" where
  "exec_store e nk st (SCreate m) = ([], Inr (fst (create_table m st)))"
| "exec_store e nk st (SCreateAuto m k) = ([], Inr (fst (create_auto_table m k st)))"
| "exec_store e nk st (SInsert n k d g s) = forget_store (store_insert e n k d g s st)"
| "exec_store e nk st (SInsertAuto n d s) = forget_store (store_insert_auto e (nk n) n d s st)"
| "exec_store e nk st (SMerge n k d g s) = forget_store (store_merge e n k d g s st)"
| "exec_store e nk st (SErase n k s) = forget_store (store_erase e n k s st)"
| "exec_store e nk st (SEraseIf n f s) = forget_store (store_erase_if e n f s st)"
| "exec_store e nk st (SModifyAttr n k i v s) = forget_store (store_modify_attr e n k (i, v) s st)"
| "exec_store e nk st (SModifyParam n k p v s) = forget_store (store_modify_param e n k (p, v) s st)"
| "exec_store e nk st (SModifyParamMap n k pm s) = forget_store (store_modify_param_map e n k pm s st)"
| "exec_store e nk st (SClear n s) = forget_store (store_clear e n s st)"
| "exec_store e nk st (SConnect n sp) = forget_store (store_connect e n sp st)"
| "exec_store e nk st (SConnectOnly n sp) = forget_store (store_connect_only e n sp st)"
| "exec_store e nk st (SConnectInsert n sp) = forget_store (store_connect_insert e n sp st)"
| "exec_store e nk st (SConnectModify n sp) = forget_store (store_connect_modify e n sp st)"
| "exec_store e nk st (SConnectRemove n sp) = forget_store (store_connect_remove e n sp st)"
| "exec_store e nk st (SConnectClear n sp) = forget_store (store_connect_clear e n sp st)"
| "exec_store e nk st (SDisconnect n sp) = forget_store (store_disconnect e n sp st)"
| "exec_store e nk st (SDisconnectAll sp) = ([], Inr (fst (disconnect_all sp st)))"

fun exec_store_all :: "table_env \<Rightarrow> (byte list \<Rightarrow> table \<Rightarrow> key \<Rightarrow> key) \<Rightarrow> store \<Rightarrow> store_command list \<Rightarrow>
    store_messages \<times> store result" where
  "exec_store_all e nk st [] = ([], Inr st)"
| "exec_store_all e nk st (c # cs) = after (exec_store e nk st c) (\<lambda>st'. exec_store_all e nk st' cs)"

interpretation db: feeder "exec_store e nk" "exec_store_all e nk" for e nk
  by unfold_locales simp_all

section \<open>Views of one table\<close>

definition messages_of :: "byte list \<Rightarrow> store_messages \<Rightarrow> messages" where
  "messages_of n ms = map snd (filter (\<lambda>m. fst m = n) ms)"

primrec commands_for :: "(byte list \<Rightarrow> table \<Rightarrow> key \<Rightarrow> key) \<Rightarrow> byte list \<Rightarrow> store_command \<Rightarrow> command list" where
  "commands_for nk n (SCreate m) = []"
| "commands_for nk n (SCreateAuto m k) = []"
| "commands_for nk n (SInsert n' k d g s) = (if n' = n then [CInsert k d g s] else [])"
| "commands_for nk n (SInsertAuto n' d s) = (if n' = n then [CInsertAuto (nk n) d s] else [])"
| "commands_for nk n (SMerge n' k d g s) = (if n' = n then [CMerge k d g s] else [])"
| "commands_for nk n (SErase n' k s) = (if n' = n then [CErase k s] else [])"
| "commands_for nk n (SEraseIf n' f s) = (if n' = n then [CEraseIf f s] else [])"
| "commands_for nk n (SModifyAttr n' k i v s) = (if n' = n then [CModifyAttr k i v s] else [])"
| "commands_for nk n (SModifyParam n' k p v s) = (if n' = n then [CModifyParam k p v s] else [])"
| "commands_for nk n (SModifyParamMap n' k pm s) = (if n' = n then [CModifyParamMap k pm s] else [])"
| "commands_for nk n (SClear n' s) = (if n' = n then [CClear s] else [])"
| "commands_for nk n (SConnect n' sp) = (if n' = n then [CConnect sp] else [])"
| "commands_for nk n (SConnectOnly n' sp) = (if n' = n then [CConnectOnly sp] else [])"
| "commands_for nk n (SConnectInsert n' sp) = (if n' = n then [CConnectInsert sp] else [])"
| "commands_for nk n (SConnectModify n' sp) = (if n' = n then [CConnectModify sp] else [])"
| "commands_for nk n (SConnectRemove n' sp) = (if n' = n then [CConnectRemove sp] else [])"
| "commands_for nk n (SConnectClear n' sp) = (if n' = n then [CConnectClear sp] else [])"
| "commands_for nk n (SDisconnect n' sp) = (if n' = n then [CDisconnect sp] else [])"
| "commands_for nk n (SDisconnectAll sp) = [CDisconnect sp]"

text \<open>A step of the store and what it is for the table \<open>n\<close>.\<close>

definition viewed :: "byte list \<Rightarrow> table \<Rightarrow> store_messages \<times> store result \<Rightarrow> messages \<times> table result \<Rightarrow> bool" where
  "viewed n t r v \<longleftrightarrow> (\<forall>ms st'. r = (ms, Inr st') \<longrightarrow>
     sorted_keys st' \<and> (\<exists>t'. map_find n st' = Some t' \<and> v = (messages_of n ms, Inr t')))"

lemma messages_of_simps:
  "messages_of n [] = []" "messages_of n (ms @ ms') = messages_of n ms @ messages_of n ms'"
  "messages_of n (map (Pair n') xs) = (if n' = n then xs else [])"
  by (induction xs) (auto simp: messages_of_def)

lemma access_ok:
  assumes "forget_store (access e n' f st) = (ms, Inr st')"
  shows "\<exists>t t' ms' x. map_find n' st = Some t \<and> f t = (ms', Inr (t', x)) \<and> st' = map_assign n' t' st \<and>
    ms = map (\<lambda>(sp, ev). (n', sp, ev)) ms'"
proof (cases "map_find n' st")
  case None
  with assms show ?thesis by (cases "asserts e") (simp_all add: forget_store_def access_def)
next
  case (Some t)
  obtain ms' r where f: "f t = (ms', r)" by (cases "f t")
  with assms Some show ?thesis by (cases r) (auto simp: forget_store_def access_def)
qed

lemma viewed_access:
  assumes "sorted_keys st" and "map_find n st = Some t"
  shows "viewed n t (forget_store (access e n' f st)) (if n' = n then forget (f t) else ([], Inr t))"
proof -
  have "sorted_keys st' \<and> (\<exists>t'. map_find n st' = Some t' \<and>
      (if n' = n then forget (f t) else ([], Inr t)) = (messages_of n ms, Inr t'))"
    if r: "forget_store (access e n' f st) = (ms, Inr st')" for ms st'
  proof -
    from access_ok [OF r] obtain u u' ms' x where u: "map_find n' st = Some u" "f u = (ms', Inr (u', x))"
      "st' = map_assign n' u' st" "ms = map (\<lambda>(sp, ev). (n', sp, ev)) ms'" by blast
    show ?thesis using assms u
      by (auto simp: sorted_keys_assign map_find_assign messages_of_simps forget_def)
  qed
  then show ?thesis unfolding viewed_def by blast
qed

lemma forget_pure: "forget (pure f t) = ([], Inr (f t))"
  by (simp add: forget_def pure_def)

lemma map_find_map: "map_find n (map (\<lambda>(k, t). (k, f t)) st) = map_option f (map_find n st)"
  by (induction st) auto

lemma sorted_keys_values: "sorted_keys (map (\<lambda>(k, t). (k, f t)) st) \<longleftrightarrow> sorted_keys st"
  by (simp add: sorted_keys_def comp_def case_prod_unfold)

lemma viewed_command:
  assumes "sorted_keys st" and "map_find n st = Some t"
  shows "viewed n t (exec_store e nk st c) (exec_commands e t (commands_for nk n c))"
proof -
  note a = viewed_access [OF assms]
  have emit: "after r (\<lambda>t'. ([], Inr t')) = r" for r :: "messages \<times> table result"
    by (cases r; cases "snd r") auto
  show ?thesis
  proof (cases c)
    case (SInsert n' k d g s)
    then show ?thesis using a [of e n' "insert_row e k d g s"] by (simp add: store_insert_def emit split: if_splits)
  next
    case (SInsertAuto n' d s)
    have "forget (if is_auto t then after (insert_auto e f d s t) (\<lambda>(t', r). ([], Inr (t', snd r))) else ([], Inr (t, False))) =
        (if is_auto t then forget (insert_auto e f d s t) else ([], Inr t))" for f
      by (simp add: forget_def after_assoc case_prod_unfold)
    then show ?thesis using SInsertAuto a [of e n' "\<lambda>t. if is_auto t then
         after (insert_auto e (nk n') d s t) (\<lambda>(t', r). ([], Inr (t', snd r))) else ([], Inr (t, False))"]
      by (simp add: store_insert_auto_def emit split: if_splits)
  next
    case (SMerge n' k d g s)
    then show ?thesis using a [of e n' "merge_row e k d g s"] by (simp add: store_merge_def emit split: if_splits)
  next
    case (SErase n' k s)
    then show ?thesis using a [of e n' "erase_row e k s"] by (simp add: store_erase_def emit split: if_splits)
  next
    case (SEraseIf n' f s)
    then show ?thesis using a [of e n' "erase_if e f s"] by (simp add: store_erase_if_def emit split: if_splits)
  next
    case (SModifyAttr n' k i v s)
    then show ?thesis using a [of e n' "modify_attr e k (i, v) s"] by (simp add: store_modify_attr_def emit split: if_splits)
  next
    case (SModifyParam n' k p v s)
    then show ?thesis using a [of e n' "modify_param e k (p, v) s"] by (simp add: store_modify_param_def emit split: if_splits)
  next
    case (SModifyParamMap n' k pm s)
    then show ?thesis using a [of e n' "modify_param_map e k pm s"]
      by (simp add: store_modify_param_map_def emit split: if_splits)
  next
    case (SClear n' s)
    then show ?thesis using a [of e n' "clear e s"] by (simp add: store_clear_def emit split: if_splits)
  next
    case (SConnect n' sp)
    then show ?thesis using a [of e n' "\<lambda>t. case connect e sp t of (ms, t') \<Rightarrow> (ms, Inr (t', ()))"]
      by (simp add: store_connect_def connect_charge forget_def split: if_splits)
  next
    case (SConnectOnly n' sp)
    then show ?thesis using a [of e n' "pure (connect_only sp)"] by (simp add: store_connect_only_def forget_pure split: if_splits)
  next
    case (SConnectInsert n' sp)
    then show ?thesis using a [of e n' "pure (connect_insert sp)"] by (simp add: store_connect_insert_def forget_pure split: if_splits)
  next
    case (SConnectModify n' sp)
    then show ?thesis using a [of e n' "pure (connect_modify sp)"] by (simp add: store_connect_modify_def forget_pure split: if_splits)
  next
    case (SConnectRemove n' sp)
    then show ?thesis using a [of e n' "pure (connect_remove sp)"] by (simp add: store_connect_remove_def forget_pure split: if_splits)
  next
    case (SConnectClear n' sp)
    then show ?thesis using a [of e n' "pure (connect_clear sp)"] by (simp add: store_connect_clear_def forget_pure split: if_splits)
  next
    case (SDisconnect n' sp)
    then show ?thesis using a [of e n' "pure (\<lambda>t. fst (disconnect sp t))"]
      by (simp add: store_disconnect_def forget_pure split: if_splits)
  qed (use assms in \<open>auto simp: viewed_def create_table_def create_auto_table_def disconnect_all_def map_find_map
      sorted_keys_emplace map_find_emplace messages_of_simps sorted_keys_values\<close>)
qed

lemma viewed_commands:
  assumes "sorted_keys st" and "map_find n st = Some t"
  shows "viewed n t (exec_store_all e nk st cs) (exec_commands e t (concat (map (commands_for nk n) cs)))"
  using assms
proof (induction cs arbitrary: st t)
  case (Cons c cs)
  show ?case unfolding viewed_def
  proof (intro allI impI)
    fix ms st' assume "exec_store_all e nk st (c # cs) = (ms, Inr st')"
    then obtain ms1 st1 ms2 where c: "exec_store e nk st c = (ms1, Inr st1)" "exec_store_all e nk st1 cs = (ms2, Inr st')"
      "ms = ms1 @ ms2" by (auto simp: after_eq_ok)
    from viewed_command [OF Cons.prems, of e nk c] c(1) obtain t1 where
      v: "sorted_keys st1" "map_find n st1 = Some t1" "exec_commands e t (commands_for nk n c) = (messages_of n ms1, Inr t1)"
      by (auto simp: viewed_def)
    from Cons.IH [OF v(1,2)] c(2) obtain t' where
      "sorted_keys st'" "map_find n st' = Some t'"
      "exec_commands e t1 (concat (map (commands_for nk n) cs)) = (messages_of n ms2, Inr t')"
      by (auto simp: viewed_def)
    with tab.read_append_ok [OF v(3)] c(3) show "sorted_keys st' \<and> (\<exists>t'. map_find n st' = Some t' \<and>
        exec_commands e t (concat (map (commands_for nk n) (c # cs))) = (messages_of n ms, Inr t'))"
      by (auto simp: messages_of_simps)
  qed
qed (simp add: viewed_def messages_of_simps)

text \<open>C9. Tables of a database do not interfere: in any sequence of operations on the database, a table
  goes through exactly those operations that name it (and those that disconnect a slot from all tables), and its subscribers get exactly the messages it sends on its own.\<close>

theorem tables_independent:
  assumes "sorted_keys st" and "map_find n st = Some t" and "exec_store_all e nk st cs = (ms, Inr st')"
  shows "\<exists>t'. map_find n st' = Some t' \<and>
    exec_commands e t (concat (map (commands_for nk n) cs)) = (messages_of n ms, Inr t')"
  using viewed_commands [OF assms(1,2)] assms(3) unfolding viewed_def by blast


definition sample_store :: store where
  "sample_store = [(str ''device'', new_table sample_meta), (str ''pairs'', pair_table)]"

definition sample_store_commands :: "store_command list" where
  "sample_store_commands = [SConnect (str ''pairs'') 3, SInsert (str ''device'') [OU32 1] [OString [], OU32 1] 1 [],
     SModifyAttr (str ''pairs'') [OU32 1, OU32 2] 0 (OU32 8) [], SClear (str ''device'') []]"

lemma sample_store_run:
  "exec_store_all sample_table_env (\<lambda>n t k. k) sample_store sample_store_commands =
     ([(str ''pairs'', 3, DbTrx True), (str ''pairs'', 3, DbInsert [OU32 1, OU32 2] [OU32 7] 4 (replicate 16 0)),
       (str ''pairs'', 3, DbTrx False), (str ''pairs'', 3, DbModify [OU32 1, OU32 2] 0 (OU32 8) 4 [])],
      Inr [(str ''device'', new_table sample_meta), (str ''pairs'', (connect_only 3 pair_table)
        \<lparr>rows := [([OU32 1, OU32 2], \<lparr>body_data = [OU32 8], generation = 5\<rparr>)]\<rparr>)])"
proof -
  have "str ''device'' < str ''pairs''" by (simp add: str_def byte_of_char_def)
  then show ?thesis
    by (simp add: sample_store_def sample_store_commands_def forget_store_def access_def store_connect_def store_insert_def
        store_modify_attr_def store_clear_def insert_row_def emplace_def modify_attr_def modify_at_def clear_def forward_eq
        connect_charge charge_eq connect_simps new_table_def pair_table_def checked_at_def object_eq_def Let_def
        check_integrity_def check_key_integrity_def check_data_integrity_def key_equal_def)
qed

theorem tables_independent_witness:
  "\<exists>ms st' t'. exec_store_all sample_table_env (\<lambda>n t k. k) sample_store sample_store_commands = (ms, Inr st') \<and>
    length ms = 4 \<and> map_find (str ''pairs'') st' = Some t' \<and>
    exec_commands sample_table_env pair_table [CConnect 3, CModifyAttr [OU32 1, OU32 2] 0 (OU32 8) []] =
      (messages_of (str ''pairs'') ms, Inr t')"
proof -
  have "sorted_keys sample_store" "map_find (str ''pairs'') sample_store = Some pair_table"
    by (simp_all add: sample_store_def str_def byte_of_char_def)
  from tables_independent [OF this sample_store_run] show ?thesis
    by (simp add: sample_store_run) (simp add: sample_store_commands_def)
qed

section \<open>Unknown tables, missing rows\<close>

lemma access_unknown: "map_find n st = None \<Longrightarrow>
  access e n f st = ([], Inl (if asserts e = Debug then Assertion else Exception))"
  by (cases "asserts e") (simp_all add: access_def)

text \<open>An operation that names a table the database does not have changes nothing and fails: the assertion in a debug
  build, an exception from locking nothing otherwise.\<close>

theorem unknown_table:
  assumes "map_find n st = None" and "commands_for nk n c \<noteq> []" and "\<forall>sp. c \<noteq> SDisconnectAll sp"
  shows "exec_store e nk st c = ([], Inl (if asserts e = Debug then Assertion else Exception))"
  using assms
  by (cases c) (simp_all add: forget_store_def access_unknown store_insert_def store_insert_auto_def store_merge_def
    store_erase_def store_erase_if_def store_modify_attr_def store_modify_param_def store_modify_param_map_def
    store_clear_def store_connect_def store_connect_only_def store_connect_insert_def store_connect_modify_def
    store_connect_remove_def store_connect_clear_def store_disconnect_def split: if_splits)

theorem unknown_table_witness:
  "exec_store sample_table_env (\<lambda>n t k. k) sample_store (SClear (str ''nodes'') []) = ([], Inl Assertion)"
proof -
  have "exec_store sample_table_env (\<lambda>n t k. k) sample_store (SClear (str ''nodes'') []) =
      ([], Inl (if asserts sample_table_env = Debug then Assertion else Exception))"
    by (rule unknown_table) (simp_all add: sample_store_def)
  then show ?thesis by simp
qed

text \<open>\<^verbatim>\<open>get_object\<close> gives the value in the named column of the row with the key, the caller's own key value for a
  column of the key.  For a key without a row it gives null for a column of the body, but throws for a column of the key.\<close>

theorem get_object_value:
  assumes "map_find n st = Some t" and "wf_table e t" and "index_of col (map col_name (columns (tab_meta t))) = Some i"
    and "meta_size (tab_meta t) < 2 ^ 64" and "pk_size (tab_meta t) \<le> meta_size (tab_meta t)" and "length k = pk_size (tab_meta t)"
  shows "get_object e n col k st =
    (case contents e t (key_class e k) of
       Some b \<Rightarrow> Inr (if i < pk_size (tab_meta t) then k ! i else body_data b ! (i - pk_size (tab_meta t)))
     | None \<Rightarrow> if i < pk_size (tab_meta t) then Inl Exception else Inr ONull)"
proof -
  let ?m = "tab_meta t"
  have i: "i < meta_size ?m" using index_of_less [OF assms(3)] by (simp add: meta_size_def)
  have g: "get_index_by_name ?m col = word_of_nat i" using assms(3) by (simp add: get_index_by_name_def)
  have u: "unat (word_of_nat i :: u64) = i" using i assms(4) by (simp add: unat_of_nat)
  have pk: "is_pk ?m (word_of_nat i) \<longleftrightarrow> i < pk_size ?m"
    using i assms(4,5) u by (simp add: is_pk_def word_less_nat_alt unat_of_nat)
  have d: "pk_size ?m \<le> i \<Longrightarrow> unat (word_of_nat i - word_of_nat (pk_size ?m) :: u64) = i - pk_size ?m"
    using i assms(4) by (simp add: unat_of_nat flip: of_nat_diff)
  have at: "rec_meta r = ?m \<Longrightarrow> rec_at_name r col = (if i < pk_size ?m then checked_at (rec_key r) i
      else Inr (if i - pk_size ?m < length (rec_data r) then rec_data r ! (i - pk_size ?m) else ONull))" for r
    using i u pk d by (simp add: rec_at_name_def rec_at_def g get_data_def)
  have o: "get_object e n col k st = rec_at_name (lookup e k t) col"
    by (cases "asserts e") (simp_all add: get_object_def access_read_def assms(1))
  show ?thesis
  proof (cases "find_row e k (rows t)")
    case None
    then have "contents e t (key_class e k) = None" by (simp add: contents_def find_row_None)
    then show ?thesis unfolding o using None by (simp add: lookup_def at empty_record_def checked_at_def)
  next
    case (Some r)
    obtain k' b where r: "r = (k', b)" by (cases r)
    have c: "contents e t (key_class e k) = Some b" using find_row_Some Some r by (simp add: contents_def)
    have "check_integrity ?m k' (body_data b)" using Some r assms(2) wf_rows_find by (simp add: wf_table_def)
    then have "length (body_data b) = unat (body_size ?m)" by (rule integrity_length)
    also have "\<dots> = meta_size ?m - pk_size ?m"
      using assms(4,5) by (simp add: body_size_def unat_of_nat flip: of_nat_diff)
    finally show ?thesis unfolding o using Some r c i assms(6) diff_less_mono [of i "meta_size ?m" "pk_size ?m"]
      by (simp add: lookup_def at record_of_def checked_at_def)
  qed
qed

theorem get_object_value_witness:
  "get_object sample_table_env (str ''pairs'') (str ''cost'') [OU32 1, OU32 2] sample_store = Inr (OU32 7)"
proof -
  have "get_object sample_table_env (str ''pairs'') (str ''cost'') [OU32 1, OU32 2] sample_store =
    (case contents sample_table_env pair_table (key_class sample_table_env [OU32 1, OU32 2]) of
       Some b \<Rightarrow> Inr (if 2 < pk_size (tab_meta pair_table) then [OU32 1, OU32 2] ! 2
                     else body_data b ! (2 - pk_size (tab_meta pair_table)))
     | None \<Rightarrow> if 2 < pk_size (tab_meta pair_table) then Inl Exception else Inr ONull)"
    by (rule get_object_value)
      (simp_all add: sample_store_def pair_table_def pair_meta_def new_table_def wf_table_def wf_rows_def meta_size_def
        check_integrity_def check_key_integrity_def check_data_integrity_def body_size_def)
  then show ?thesis by (simp add: pair_table_def pair_meta_def new_table_def contents_def)
qed

end
