(* ===== verification/Text.thy ===== *)
theory Text
  imports Object
begin

unbundle bit_operations_syntax

text \<open>
  The text forms of the intrinsic types: what \<^verbatim>\<open>src/io/src/ostream.cpp\<close> and \<^verbatim>\<open>include/cyng/io/io_buffer.h\<close>
  print and what the parsers under \<^verbatim>\<open>src/parse/src\<close> read, and the construction of objects from
  unparsed values (\<^verbatim>\<open>raw.cpp\<close>).

  A \<^verbatim>\<open>std::string\<close> is a list of bytes.  The conversions of the standard library (\<^verbatim>\<open>stoul\<close> and its
  relatives) are modelled here.  \<^verbatim>\<open>boost::split\<close> is a parameter of the parsers that use it; all that is
  assumed of it is \<open>splits\<close>, and the program's own \<^verbatim>\<open>split(string_view)\<close> is shown to have that property.
\<close>

section \<open>Numbers in the standard library\<close>

definition is_space :: "byte \<Rightarrow> bool" where
  "is_space c \<longleftrightarrow> c = 32 \<or> (9 \<le> c \<and> c \<le> 13)"

definition digit_value :: "byte \<Rightarrow> nat option" where
  "digit_value c =
     (if 48 \<le> c \<and> c \<le> 57 then Some (unat c - 48)
      else if 97 \<le> c \<and> c \<le> 122 then Some (unat c - 87)
      else if 65 \<le> c \<and> c \<le> 90 then Some (unat c - 55)
      else None)"

definition digit_in :: "nat \<Rightarrow> byte \<Rightarrow> nat option" where
  "digit_in base c = (case digit_value c of Some d \<Rightarrow> if d < base then Some d else None | None \<Rightarrow> None)"

text \<open>The value of the longest prefix of digits, and how many there are.\<close>

fun read_digits :: "nat \<Rightarrow> nat \<Rightarrow> nat \<Rightarrow> byte list \<Rightarrow> nat \<times> nat" where
  "read_digits base acc n [] = (acc, n)"
| "read_digits base acc n (c # cs) =
     (case digit_in base c of None \<Rightarrow> (acc, n) | Some d \<Rightarrow> read_digits base (acc * base + d) (Suc n) cs)"

text \<open>
  \<^verbatim>\<open>strtol\<close> and its relatives skip white space, take a sign, the prefix \<^verbatim>\<open>0x\<close> in base 16, and digits; without
  a digit there is no conversion, which the \<^verbatim>\<open>std::sto*\<close> functions turn into an exception.
\<close>

definition hex_prefix :: "nat \<Rightarrow> byte list \<Rightarrow> byte list" where
  "hex_prefix base cs = (case cs of
      z # x # d # _ \<Rightarrow> if base = 16 \<and> z = 48 \<and> (x = 120 \<or> x = 88) \<and> digit_in 16 d \<noteq> None then drop 2 cs else cs
    | _ \<Rightarrow> cs)"

definition str_to_number :: "nat \<Rightarrow> byte list \<Rightarrow> (bool \<times> nat) option" where
  "str_to_number base s =
     (let cs = dropWhile is_space s;
          neg = (cs \<noteq> [] \<and> hd cs = 45);
          cs = (if cs \<noteq> [] \<and> (hd cs = 45 \<or> hd cs = 43) then tl cs else cs);
          (v, n) = read_digits base 0 0 (hex_prefix base cs)
      in if n = 0 then None else Some (neg, v))"

text \<open>\<^verbatim>\<open>std::stoul\<close> and \<^verbatim>\<open>std::stoull\<close> (64 bits): a sign negates modulo \<open>2 ^ 64\<close>.\<close>

definition stoul :: "nat \<Rightarrow> byte list \<Rightarrow> u64 result" where
  "stoul base s =
     (case str_to_number base s of
        None \<Rightarrow> Inl Exception
      | Some (neg, v) \<Rightarrow> rbind (throw_unless (v < 2 ^ 64)) (\<lambda>_. Inr (if neg then - of_nat v else of_nat v)))"

text \<open>\<^verbatim>\<open>std::stoi\<close>, \<^verbatim>\<open>std::stol\<close> and \<^verbatim>\<open>std::stoll\<close>: a signed number of \<open>n\<close> bits.\<close>

definition stol :: "nat \<Rightarrow> nat \<Rightarrow> byte list \<Rightarrow> int result" where
  "stol n base s =
     (case str_to_number base s of
        None \<Rightarrow> Inl Exception
      | Some (neg, v) \<Rightarrow>
          let i = (if neg then - int v else int v) in
          rbind (throw_unless (- (2 ^ (n - 1)) \<le> i \<and> i < 2 ^ (n - 1))) (\<lambda>_. Inr i))"

section \<open>Printing numbers\<close>

definition digit_char :: "nat \<Rightarrow> byte" where
  "digit_char d = (if d < 10 then of_nat (48 + d) else of_nat (87 + d))"

text \<open>\<^verbatim>\<open>std::dec\<close> and \<^verbatim>\<open>std::hex\<close>, and \<^verbatim>\<open>std::setw\<close> with the fill character \<^verbatim>\<open>0\<close>.\<close>

function show_base :: "nat \<Rightarrow> nat \<Rightarrow> byte list" where
  "show_base base n = (if base \<le> 1 \<or> n < base then [digit_char n] else show_base base (n div base) @ [digit_char (n mod base)])"
  by pat_completeness auto
termination by (relation "measure snd") auto

declare show_base.simps [simp del]

definition setw0 :: "nat \<Rightarrow> byte list \<Rightarrow> byte list" where
  "setw0 w s = replicate (w - length s) 48 @ s"

text \<open>\<^verbatim>\<open>io::to_hex\<close>: two digits per byte of the type, most significant first.\<close>

definition to_hex :: "'a::len word \<Rightarrow> byte list" where
  "to_hex w =
     (let n = LENGTH('a) div 4 in
      map (\<lambda>i. digit_char (unat (drop_bit (4 * (n - 1 - i)) w AND 0x0F))) [0..<n])"

definition to_hex_buffer :: "byte list \<Rightarrow> byte list" where
  "to_hex_buffer buffer = concat (map to_hex buffer)"

text \<open>With a separator between the bytes.\<close>

fun to_hex_sep :: "byte \<Rightarrow> byte list \<Rightarrow> byte list" where
  "to_hex_sep sp [] = []"
| "to_hex_sep sp [c] = to_hex c"
| "to_hex_sep sp (c # d # cs) = to_hex c @ sp # to_hex_sep sp (d # cs)"

section \<open>Joining and splitting\<close>

text \<open>The printing loops write a separator before every element but the first.\<close>

fun join :: "byte \<Rightarrow> byte list list \<Rightarrow> byte list" where
  "join sep [] = []"
| "join sep [x] = x"
| "join sep (x # y # ys) = x @ sep # join sep (y # ys)"

type_synonym splitter = "byte \<Rightarrow> byte list \<Rightarrow> byte list list"

text \<open>
  The documented behaviour of \<^verbatim>\<open>boost::split\<close> the round trips rest on: non-empty parts that are free of
  the delimiter come back as they are.
\<close>

definition splits :: "splitter \<Rightarrow> bool" where
  "splits spl \<longleftrightarrow> (\<forall>d parts. parts \<noteq> [] \<and> (\<forall>p \<in> set parts. p \<noteq> [] \<and> d \<notin> set p) \<longrightarrow> spl d (join d parts) = parts)"

lemma dropWhile_less: "x \<in> set s \<Longrightarrow> length (dropWhile P s) - Suc 0 < length s"
  using length_dropWhile_le [of P s] by (cases s) auto

text \<open>
  \<^verbatim>\<open>split(string_view, string_view)\<close>: the loop over \<^verbatim>\<open>find_first_of\<close>, which leaves out empty parts.
\<close>

function split_view :: "byte list \<Rightarrow> byte list \<Rightarrow> byte list list" where
  "split_view delims s =
     (let part = takeWhile (\<lambda>c. c \<notin> set delims) s; rest = dropWhile (\<lambda>c. c \<notin> set delims) s in
      if rest = [] then (if s \<noteq> [] then [s] else [])
      else (if part \<noteq> [] then [part] else []) @ split_view delims (tl rest))"
  by pat_completeness auto
termination
  by (relation "measure (length \<circ> snd)") (auto intro: dropWhile_less)

declare split_view.simps [simp del]

section \<open>Hexadecimal digits: hex.cpp\<close>

definition hex_digit :: "byte \<Rightarrow> byte" where
  "hex_digit c =
     (if 97 \<le> c \<and> c \<le> 102 then c - 97 + 10
      else if 65 \<le> c \<and> c \<le> 70 then c - 65 + 10
      else if 48 \<le> c \<and> c \<le> 57 then c - 48
      else 0)"

definition hex_to_u8_be :: "byte \<Rightarrow> byte \<Rightarrow> byte" where
  "hex_to_u8_be c1 c2 = push_bit 4 (hex_digit c2) + hex_digit c1"

definition hex_to_u8_le :: "byte \<Rightarrow> byte \<Rightarrow> byte" where
  "hex_to_u8_le c1 c2 = push_bit 4 (hex_digit c1) + hex_digit c2"

definition hex_to_u8 :: "endian \<Rightarrow> byte \<Rightarrow> byte \<Rightarrow> byte" where
  "hex_to_u8 h c1 c2 = (case h of Big \<Rightarrow> hex_to_u8_be c1 c2 | Little \<Rightarrow> hex_to_u8_le c1 c2)"

definition is_hex_char :: "byte \<Rightarrow> bool" where
  "is_hex_char c \<longleftrightarrow> (97 \<le> c \<and> c \<le> 102) \<or> (65 \<le> c \<and> c \<le> 70) \<or> (48 \<le> c \<and> c \<le> 57)"

definition is_hex :: "byte list \<Rightarrow> bool" where
  "is_hex s \<longleftrightarrow> list_all is_hex_char s"

definition hex_to_u8_str :: "build \<Rightarrow> endian \<Rightarrow> byte list \<Rightarrow> byte result" where
  "hex_to_u8_str b h s =
     rbind (boost_assert b (s \<noteq> [])) (\<lambda>_.
     if s = [] then Inr 0
     else rbind (boost_assert b (is_hex s)) (\<lambda>_.
       Inr (if length s = 1 then hex_to_u8 h (s ! 0) 0 else hex_to_u8 h (s ! 0) (s ! 1))))"

definition hex_to_u16_be :: "byte \<Rightarrow> byte \<Rightarrow> byte \<Rightarrow> byte \<Rightarrow> u16" where
  "hex_to_u16_be c1 c2 c3 c4 = push_bit 8 (ucast (hex_to_u8_be c3 c4)) + ucast (hex_to_u8_be c1 c2)"

definition hex_to_u16_le :: "byte \<Rightarrow> byte \<Rightarrow> byte \<Rightarrow> byte \<Rightarrow> u16" where
  "hex_to_u16_le c1 c2 c3 c4 = push_bit 8 (ucast (hex_to_u8_le c1 c2)) + ucast (hex_to_u8_le c3 c4)"

definition hex_to_u16 :: "endian \<Rightarrow> byte \<Rightarrow> byte \<Rightarrow> byte \<Rightarrow> byte \<Rightarrow> u16" where
  "hex_to_u16 h c1 c2 c3 c4 =
     (case h of Big \<Rightarrow> hex_to_u16_be c1 c2 c3 c4 | Little \<Rightarrow> hex_to_u16_le c1 c2 c3 c4)"

definition hex_to_u16_str :: "build \<Rightarrow> endian \<Rightarrow> byte list \<Rightarrow> u16 result" where
  "hex_to_u16_str b h s =
     rbind (boost_assert b (is_hex s)) (\<lambda>_.
     Inr (if length s = 4 then hex_to_u16 h (s ! 0) (s ! 1) (s ! 2) (s ! 3) else 0))"

section \<open>Buffers: buffer.cpp\<close>

fun hex_pairs :: "endian \<Rightarrow> byte list \<Rightarrow> byte list" where
  "hex_pairs h (c1 # c2 # cs) = hex_to_u8 h c1 c2 # hex_pairs h cs"
| "hex_pairs h cs = []"

definition hex_to_buffer :: "build \<Rightarrow> endian \<Rightarrow> byte list \<Rightarrow> byte list result" where
  "hex_to_buffer b h s =
     rbind (boost_assert b (length s mod 2 = 0)) (\<lambda>_.
     Inr (if length s mod 2 \<noteq> 0 then [] else hex_pairs h s))"

section \<open>MAC addresses: mac.cpp, ostream.cpp\<close>

definition to_mac48 :: "build \<Rightarrow> endian \<Rightarrow> splitter \<Rightarrow> byte list \<Rightarrow> mac48 result" where
  "to_mac48 b h spl s =
     (let parts = spl 58 s in
      if length parts = 6 then rbind (rmap (hex_to_u8_str b h) parts) (\<lambda>a. Inr (mac48_of_list a))
      else Inr (mac48_of_list (replicate 6 0)))"

definition to_mac64 :: "build \<Rightarrow> endian \<Rightarrow> splitter \<Rightarrow> byte list \<Rightarrow> mac64 result" where
  "to_mac64 b h spl s =
     (let parts = spl 58 s in
      if length parts = 4
      then rbind (rmap (hex_to_u16_str b h) parts) (\<lambda>a. Inr (Mac64 (a ! 0) (a ! 1) (a ! 2) (a ! 3)))
      else Inr (Mac64 0 0 0 0))"

definition show_mac48 :: "mac48 \<Rightarrow> byte list" where
  "show_mac48 v = join 58 (map (\<lambda>c. setw0 2 (show_base 16 (unat (c AND 0xFF)))) (get_octets v))"

definition show_mac64 :: "mac64 \<Rightarrow> byte list" where
  "show_mac64 v = join 58 (map (\<lambda>w. setw0 4 (show_base 16 (unat w))) (get_words v))"

section \<open>OBIS codes: string.cpp, obis.cpp, ostream.cpp\<close>

definition obis_to_string :: "obis \<Rightarrow> byte list" where
  "obis_to_string c = foldl (\<lambda>r x. r @ to_hex x) [] (obis_data c)"

definition to_obis :: "build \<Rightarrow> endian \<Rightarrow> byte list \<Rightarrow> obis result" where
  "to_obis b h s =
     rbind (hex_to_buffer b h s) (\<lambda>buffer.
     Inr (if length buffer = 6 then obis_of_data buffer else obis_of_data (replicate 6 0)))"

definition show_obis_path :: "obis_path \<Rightarrow> byte list" where
  "show_obis_path v = join 58 (map obis_to_string v)"

definition to_obis_path :: "build \<Rightarrow> endian \<Rightarrow> splitter \<Rightarrow> byte list \<Rightarrow> obis_path result" where
  "to_obis_path b h spl s = rmap (to_obis b h) (spl 58 s)"

definition show_edis :: "edis \<Rightarrow> byte list" where
  "show_edis e = join 46 (map (\<lambda>c. show_base 10 (unat c)) (edis_data e))"

text \<open>\<^verbatim>\<open>to_numeric<T, BASE>\<close>: no number, or one out of range of the library function, is 0.\<close>

definition to_numeric_unsigned :: "nat \<Rightarrow> byte list \<Rightarrow> 'a::len word" where
  "to_numeric_unsigned base s = (case stoul base s of Inr v \<Rightarrow> ucast v | Inl _ \<Rightarrow> 0)"

text \<open>
  The transformed range of \<^verbatim>\<open>to_edis\<close> is \<^verbatim>\<open>begin(v)\<close> to \<^verbatim>\<open>begin(v)\<close>, which is empty: the array stays as it is.
\<close>

definition transform_into :: "('a \<Rightarrow> 'b) \<Rightarrow> 'a list \<Rightarrow> 'b list \<Rightarrow> 'b list" where
  "transform_into f xs out = map f xs @ drop (length xs) out"

definition parse_edis :: "splitter \<Rightarrow> byte list \<Rightarrow> edis" where
  "parse_edis spl s =
     (let a = replicate 3 0; v = spl 46 s;
          a = (if length v = 3 then transform_into (to_numeric_unsigned 10) (take 0 v) a else a)
      in Edis (a ! 0) (a ! 1) (a ! 2))"

section \<open>Versions: version.cpp, ostream.cpp\<close>

definition show_version :: "endian \<Rightarrow> version \<Rightarrow> byte list" where
  "show_version h v =
     show_base 10 (unat (version_major h v)) @ [46] @ show_base 10 (unat (version_minor h v))"

definition show_revision :: "endian \<Rightarrow> revision \<Rightarrow> byte list" where
  "show_revision h r =
     (let v_maj = Version (revision_major h r); v_min = Version (revision_minor h r) in
      show_version h v_maj @ [46] @ show_version h v_min)"

definition stou16 :: "byte list \<Rightarrow> u16 result" where
  "stou16 s = rbind (stoul 10 s) (\<lambda>v. Inr (ucast v))"

definition to_version :: "endian \<Rightarrow> splitter \<Rightarrow> byte list \<Rightarrow> version result" where
  "to_version h spl s =
     (let parts = spl 46 s in
      if length parts = 2 then
        rbind (stou16 (parts ! 0)) (\<lambda>a. rbind (stou16 (parts ! 1)) (\<lambda>c. Inr (make_version h a c)))
      else Inr (make_version h 0 0))"

definition to_revision :: "endian \<Rightarrow> splitter \<Rightarrow> byte list \<Rightarrow> revision result" where
  "to_revision h spl s =
     (let parts = spl 58 s in
      if length parts = 4 then
        rbind (rmap stou16 parts) (\<lambda>a. Inr (make_revision4 h (a ! 0) (a ! 1) (a ! 2) (a ! 3)))
      else Inr (make_revision4 h 0 0 0 0))"


section \<open>Instants and durations: timestamp.cpp, duration.cpp\<close>

text \<open>The pieces between the separators as numbers of 32 bits; another number of pieces gives zeros.\<close>

definition stou32 :: "byte list \<Rightarrow> u32 result" where
  "stou32 s = rbind (stoul 10 s) (\<lambda>v. Inr (ucast v))"

definition split3 :: "splitter \<Rightarrow> byte \<Rightarrow> byte list \<Rightarrow> (u32 \<times> u32 \<times> u32) result" where
  "split3 spl sep s =
     (let parts = spl sep s in
      if length parts = 3 then
        rbind (rmap stou32 parts) (\<lambda>a. Inr (a ! 0, a ! 1, a ! 2))
      else Inr (0, 0, 0))"

definition split2 :: "splitter \<Rightarrow> byte list \<Rightarrow> (u32 \<times> u32) result" where
  "split2 spl s =
     (let parts = spl 58 s in
      if length parts = 2 then rbind (rmap stou32 parts) (\<lambda>a. Inr (a ! 0, a ! 1)) else Inr (0, 0))"

text \<open>
  \<^verbatim>\<open>timegm\<close> of the C library is a parameter: year minus 1900, month from 0 and day of the month, at
  midnight.  Instants and offsets are seconds, kept in 64 bits.
\<close>

type_synonym calendar = "int \<Rightarrow> int \<Rightarrow> int \<Rightarrow> u64"

definition to_timestamp_date :: "splitter \<Rightarrow> calendar \<Rightarrow> byte list \<Rightarrow> u64 result" where
  "to_timestamp_date spl timegm s =
     rbind (split3 spl 45 s) (\<lambda>(year, month, day).
     Inr (timegm (sint (year - 1900)) (sint (month - 1)) (sint day)))"

definition to_timestamp_offset :: "splitter \<Rightarrow> byte list \<Rightarrow> u64 result" where
  "to_timestamp_offset spl s =
     rbind (split3 spl 58 s) (\<lambda>(h, m, s). Inr (ucast s + ucast m * 60 + ucast h * 60 * 60))"

text \<open>In minutes.\<close>

definition to_tz_offset :: "splitter \<Rightarrow> byte list \<Rightarrow> u64 result" where
  "to_tz_offset spl s = rbind (split2 spl s) (\<lambda>(h, m). Inr (ucast m + ucast h * 60))"

definition with_zone :: "splitter \<Rightarrow> calendar \<Rightarrow> byte list \<Rightarrow> (u64 \<Rightarrow> u64 \<Rightarrow> u64) \<Rightarrow> u64 result" where
  "with_zone spl timegm s f =
     rbind (to_timestamp_date spl timegm (take 10 s)) (\<lambda>d.
     rbind (to_timestamp_offset spl (take 8 (drop 11 s))) (\<lambda>t.
     rbind (to_tz_offset spl (drop 20 s)) (\<lambda>z. Inr (f (d + t) (60 * z)))))"

text \<open>
  \<^verbatim>\<open>to_timestamp\<close>: the size selects the form, and the case of 20 characters falls through to the one
  of 25.  Whatever fits no form is the epoch.
\<close>

definition to_timestamp :: "splitter \<Rightarrow> calendar \<Rightarrow> byte list \<Rightarrow> u64 result" where
  "to_timestamp spl timegm s =
     (if length s = 10 then to_timestamp_date spl timegm s
      else if length s = 19 then
        if s ! 10 = 84 then
          rbind (to_timestamp_date spl timegm s) (\<lambda>d.
          rbind (to_timestamp_offset spl (drop 11 s)) (\<lambda>t. Inr (d + t)))
        else Inr 0
      else if length s = 20 \<and> s ! 10 = 84 \<and> s ! 19 = 90 then
        rbind (to_timestamp_date spl timegm (take 10 s)) (\<lambda>d.
        rbind (to_timestamp_offset spl (take 8 (drop 11 s))) (\<lambda>t. Inr (d + t)))
      else if length s = 20 \<or> length s = 25 then
        if s ! 10 = 84 \<and> s ! 19 = 43 then with_zone spl timegm s (+)
        else if s ! 10 = 84 \<and> s ! 19 = 45 then with_zone spl timegm s (-)
        else Inr 0
      else Inr 0)"

text \<open>
  Durations \<^verbatim>\<open>h:m:s\<close>: the seconds are a floating point number (\<^verbatim>\<open>std::stod\<close>), so their product with the
  scale, converted to the representation of the duration, is a parameter.
\<close>

definition duration_parts ::
  "splitter \<Rightarrow> (byte list \<Rightarrow> u64 result) \<Rightarrow> byte list \<Rightarrow> (u32 \<times> u32 \<times> u64) result" where
  "duration_parts spl scaled s =
     (let parts = spl 58 s in
      if length parts = 3 then
        rbind (stou32 (parts ! 0)) (\<lambda>h. rbind (stou32 (parts ! 1)) (\<lambda>m. rbind (scaled (parts ! 2)) (\<lambda>x.
        Inr (h, m, x))))
      else Inr (0, 0, 0))"

definition to_duration :: "splitter \<Rightarrow> (chrono \<Rightarrow> byte list \<Rightarrow> u64 result) \<Rightarrow> chrono \<Rightarrow> byte list \<Rightarrow> u64 result" where
  "to_duration spl scaled t s =
     rbind (duration_parts spl (scaled t) s) (\<lambda>(h, m, x). Inr (case t of
       NanoSecond \<Rightarrow> x + ucast m * 60 * 1000 * 1000 * 1000 + ucast h * 60 * 60 * 1000 * 1000 * 1000
     | MicroSecond \<Rightarrow> x + ucast m * 60 * 1000 * 1000 + ucast h * 60 * 60 * 1000 * 1000
     | MilliSecond \<Rightarrow> x + ucast m * 60 * 1000 + ucast h * 60 * 60 * 1000
     | Second \<Rightarrow> x + ucast m * 60 + ucast h * 60 * 60
     | Minute \<Rightarrow> x + ucast m + ucast h * 60
     | Hour \<Rightarrow> x + ucast m div 60 + ucast h
     | TimePoint \<Rightarrow> x))"

section \<open>Colors, endpoints and numbers: color.h, string.h\<close>

text \<open>For the signed types, with the number of bits of \<^verbatim>\<open>stoi\<close> (32) or of \<^verbatim>\<open>stol\<close> and \<^verbatim>\<open>stoll\<close> (64).\<close>

definition to_numeric_signed :: "nat \<Rightarrow> nat \<Rightarrow> byte list \<Rightarrow> 'a::len word" where
  "to_numeric_signed n base s = (case stol n base s of Inr i \<Rightarrow> word_of_int i | Inl _ \<Rightarrow> 0)"

fun chunks :: "nat \<Rightarrow> byte list \<Rightarrow> byte list list" where
  "chunks n [] = []"
| "chunks n (c # cs) = take n (c # cs) # chunks n (drop (n - 1) cs)"

definition to_color :: "byte list \<Rightarrow> 'a::len word color" where
  "to_color s =
     (let channels = (if length s = 6 \<or> length s = 8 then chunks 2 s
                      else if length s = 12 \<or> length s = 16 then chunks 4 s else []);
          rgba = map (to_numeric_unsigned 16) channels @ replicate (4 - length channels) 0
      in Color (rgba ! 0) (rgba ! 1) (rgba ! 2) (rgba ! 3))"

text \<open>\<^verbatim>\<open>to_ip_endpoint\<close>: what follows the last colon is the port; the address is Boost's to read.\<close>

definition to_ip_endpoint :: "(byte list \<Rightarrow> byte list) \<Rightarrow> byte list \<Rightarrow> u16 \<times> byte list" where
  "to_ip_endpoint address s =
     (let service = rev (takeWhile (\<lambda>c. c \<noteq> 58) (rev s)) in
      if 58 \<in> set s \<and> service \<noteq> []
      then (to_numeric_unsigned 10 service, address (take (length s - length service - 1) s))
      else (0, str ''0.0.0.0''))"

definition to_fs_path :: "byte list \<Rightarrow> byte list" where
  "to_fs_path s = filter (\<lambda>c. c \<noteq> 34) s"

definition is_dec_number :: "byte list \<Rightarrow> bool" where
  "is_dec_number s \<longleftrightarrow> list_all (\<lambda>c. 48 \<le> c \<and> c \<le> 57) s"

definition is_hex_number :: "byte list \<Rightarrow> bool" where
  "is_hex_number s \<longleftrightarrow>
     list_all (\<lambda>c. (48 \<le> c \<and> c \<le> 57) \<or> (97 \<le> c \<and> c \<le> 102) \<or> (65 \<le> c \<and> c \<le> 70)) s"

text \<open>\<^verbatim>\<open>to_ipv6\<close>: the sixteen bytes of an address.\<close>

definition to_ipv6 :: "build \<Rightarrow> endian \<Rightarrow> byte list \<Rightarrow> byte list result" where
  "to_ipv6 b h s =
     rbind (boost_assert b (length s = 32)) (\<lambda>_.
     rbind (hex_to_buffer b h s) (\<lambda>addr. Inr (if length addr = 16 then addr else replicate 16 0)))"

section \<open>Objects from unparsed values: raw.cpp\<close>

text \<open>
  What construction leaves to the standard library and to Boost: floating point numbers, ISO 8601 with
  \<^verbatim>\<open>std::get_time\<close>, UUIDs and addresses; and what is generic over them here.
\<close>

record parsers =
  p_split :: splitter
  p_float :: "byte list \<Rightarrow> u32"
  p_double :: "byte list \<Rightarrow> u64"
  p_float80 :: "byte list \<Rightarrow> 128 word"
  p_scaled :: "chrono \<Rightarrow> byte list \<Rightarrow> u64 result"
  p_time_point :: "byte list \<Rightarrow> u64"
  p_uuid :: "byte list \<Rightarrow> byte list"
  p_address :: "byte list \<Rightarrow> byte list"

definition is_constructable :: "u16 \<Rightarrow> bool" where
  "is_constructable tc \<longleftrightarrow>
     tc \<in> {0, 1} \<union> {3, 4, 5, 6, 7, 8, 9, 10, 11, 12, 13, 14, 15} \<union> {16, 17, 18, 19, 20, 21, 22, 23, 24, 25, 26}
        \<union> {28, 29} \<union> {30, 31, 32, 33} \<union> {34, 35, 36, 37, 38, 39, 40, 41, 42} \<union> {56, 57, 58, 59, 60, 61}"

text \<open>\<^verbatim>\<open>to_digest\<close> and \<^verbatim>\<open>to_aes_key\<close> with \<^verbatim>\<open>make_digest\<close> and \<^verbatim>\<open>make_aes_key\<close>: \<open>n\<close> bytes, or zeros.\<close>

definition octets_of_hex :: "build \<Rightarrow> endian \<Rightarrow> octets \<Rightarrow> byte list \<Rightarrow> object result" where
  "octets_of_hex b h t s =
     (let n = octets_size t in
      rbind (boost_assert b (length s = 2 * n)) (\<lambda>_.
      rbind (hex_to_buffer b h s) (\<lambda>buffer.
      Inr (OOctets t (if length buffer \<ge> n then take n buffer else replicate n 0)))))"

definition rapply :: "('a \<Rightarrow> 'b) \<Rightarrow> 'a result \<Rightarrow> 'b result" where
  "rapply f m = rbind m (\<lambda>x. Inr (f x))"

definition char_of_byte :: "byte \<Rightarrow> char" where
  "char_of_byte c = char_of (unat c)"

definition construct_object :: "build \<Rightarrow> endian \<Rightarrow> parsers \<Rightarrow> raw \<Rightarrow> object result" where
  "construct_object b h p r =
     (let tc = raw_code r; s = raw_literal r; spl = p_split p in
      if tc = 1 then Inr (OBool (s = str ''true''))
      else if tc = 3 then Inr (OFloat (p_float p s))
      else if tc = 4 then Inr (ODouble (p_double p s))
      else if tc = 5 then Inr (OFloat80 (p_float80 p s))
      else if tc = 6 then Inr (OU8 (to_numeric_unsigned 10 s))
      else if tc = 7 then Inr (OU16 (to_numeric_unsigned 10 s))
      else if tc = 8 then Inr (OU32 (to_numeric_unsigned 10 s))
      else if tc = 9 then Inr (OU64 (to_numeric_unsigned 10 s))
      else if tc = 10 then Inr (OI8 (to_numeric_signed 32 10 s))
      else if tc = 11 then Inr (OI16 (to_numeric_signed 32 10 s))
      else if tc = 12 then Inr (OI32 (to_numeric_signed 64 10 s))
      else if tc = 13 then Inr (OI64 (to_numeric_signed 64 10 s))
      else if tc = 14 then Inr (OString s)
      else if tc = 15 then Inr (OPath (to_fs_path s))
      else if tc = 16 then Inr (OChrono TimePoint (p_time_point p s))
      else if tc = 17 then rapply (OChrono NanoSecond) (to_duration spl (p_scaled p) NanoSecond s)
      else if tc = 18 then rapply (OChrono MicroSecond) (to_duration spl (p_scaled p) MicroSecond s)
      else if tc = 19 then rapply (OChrono MilliSecond) (to_duration spl (p_scaled p) MilliSecond s)
      else if tc = 20 then rapply (OChrono Second) (to_duration spl (p_scaled p) Second s)
      else if tc = 21 then rapply (OChrono Minute) (to_duration spl (p_scaled p) Minute s)
      else if tc = 22 then rapply (OChrono Hour) (to_duration spl (p_scaled p) Hour s)
      else if tc = 23 then rapply OBuffer (hex_to_buffer b h s)
      else if tc = 24 then rapply OVersion (to_version h spl s)
      else if tc = 25 then rapply ORevision (to_revision h spl s)
      else if tc = 26 then Inr (OOp (op_code (to_op (map char_of_byte s))))
      else if tc = 28 then rapply OMac48 (to_mac48 b h spl s)
      else if tc = 29 then rapply OMac64 (to_mac64 b h spl s)
      else if tc = 30 then Inr (OPid (to_numeric_signed 64 10 s))
      else if tc = 31 then rapply OObis (to_obis b h s)
      else if tc = 32 then rapply OObisPath (to_obis_path b h spl s)
      else if tc = 33 then Inr (OEdis (parse_edis spl s))
      else if tc = 34 then Inr (OColor8 (to_color s))
      else if tc = 35 then Inr (OColor16 (to_color s))
      else if tc = 36 then octets_of_hex b h Md5 s
      else if tc = 37 then octets_of_hex b h Sha1 s
      else if tc = 38 then octets_of_hex b h Sha256 s
      else if tc = 39 then octets_of_hex b h Sha512 s
      else if tc = 40 then octets_of_hex b h Aes128 s
      else if tc = 41 then octets_of_hex b h Aes192 s
      else if tc = 42 then octets_of_hex b h Aes256 s
      else if tc = 44 then Inr (ORaw r)
      else if tc = 56 then Inr (OOctets Uuid (p_uuid p s))
      else if tc = 57 then Inr (OIpAddress (p_address p s))
      else if tc = 58 then Inr (case_prod (OEndpoint Tcp) (to_ip_endpoint (p_address p) s))
      else if tc = 59 then Inr (case_prod (OEndpoint Udp) (to_ip_endpoint (p_address p) s))
      else if tc = 60 then Inr (case_prod (OEndpoint Icmp) (to_ip_endpoint (p_address p) s))
      else if tc = 61 then Inr OEod
      else Inr ONull)"

section \<open>Digits\<close>

lemma digits_16: "(\<forall>d < 16. P d) \<longleftrightarrow> list_all P [0, 1, 2, 3, 4, 5, 6, 7, 8, 9, 10, 11, 12, 13, 14, 15 :: nat]"
proof -
  have "[0, 1, 2, 3, 4, 5, 6, 7, 8, 9, 10, 11, 12, 13, 14, 15] = [0..<16 :: nat]" by (simp add: upt_rec)
  then show ?thesis by (simp only: list_all_iff set_upt) auto
qed

lemma digit_chars:
  "map digit_char [0, 1, 2, 3, 4, 5, 6, 7, 8, 9, 10, 11, 12, 13, 14, 15]
    = [48, 49, 50, 51, 52, 53, 54, 55, 56, 57, 97, 98, 99, 100, 101, 102]"
  by (simp add: digit_char_def)

lemma on_digits: "(\<forall>d < 16. P d (digit_char d)) \<longleftrightarrow>
  list_all2 P [0, 1, 2, 3, 4, 5, 6, 7, 8, 9, 10, 11, 12, 13, 14, 15]
    [48, 49, 50, 51, 52, 53, 54, 55, 56, 57, 97, 98, 99, 100, 101, 102]"
  unfolding digit_chars [symmetric] digits_16 by simp

lemma digit_value_all: "\<forall>d < 16. digit_value (digit_char d) = Some d"
  unfolding on_digits by code_simp

lemma hex_digit_all: "\<forall>d < 16. hex_digit (digit_char d) = of_nat d \<and> is_hex_char (digit_char d)"
  unfolding on_digits by code_simp

lemma plain_all: "\<forall>d < 16. digit_char d \<noteq> 58 \<and> digit_char d \<noteq> 46 \<and> digit_char d \<noteq> 45 \<and> digit_char d \<noteq> 43 \<and>
    \<not> is_space (digit_char d)"
  unfolding on_digits by code_simp

lemma digit_value_char [simp]: "d < 16 \<Longrightarrow> digit_value (digit_char d) = Some d"
  and hex_digit_char [simp]: "d < 16 \<Longrightarrow> hex_digit (digit_char d) = of_nat d"
  and is_hex_digit_char [simp]: "d < 16 \<Longrightarrow> is_hex_char (digit_char d)"
  using digit_value_all hex_digit_all by blast+

lemma digit_char_plain [simp]:
  "d < 16 \<Longrightarrow> digit_char d \<noteq> 58" "d < 16 \<Longrightarrow> digit_char d \<noteq> 46" "d < 16 \<Longrightarrow> digit_char d \<noteq> 45"
  "d < 16 \<Longrightarrow> digit_char d \<noteq> 43" "d < 16 \<Longrightarrow> \<not> is_space (digit_char d)"
  "d < 16 \<Longrightarrow> 58 \<noteq> digit_char d" "d < 16 \<Longrightarrow> 46 \<noteq> digit_char d"
  using plain_all by metis+

lemma digit_in_char [simp]: "d < base \<Longrightarrow> base \<le> 16 \<Longrightarrow> digit_in base (digit_char d) = Some d"
  by (simp add: digit_in_def)

lemma digit_char_mod: "0 < base \<Longrightarrow> \<exists>d < base. digit_char (k mod base) = digit_char d"
  by (rule exI [of _ "k mod base"]) simp

text \<open>A number in a field of fixed width.\<close>

fun fixed :: "nat \<Rightarrow> nat \<Rightarrow> nat \<Rightarrow> byte list" where
  "fixed base 0 k = []"
| "fixed base (Suc n) k = fixed base n (k div base) @ [digit_char (k mod base)]"

lemma length_fixed [simp]: "length (fixed base n k) = n"
  by (induction n arbitrary: k) auto

lemma fixed_0: "0 < base \<Longrightarrow> fixed base n 0 = replicate n 48"
  by (induction n) (auto simp: digit_char_def replicate_append_same)

lemma setw0_snoc: "s \<noteq> [] \<Longrightarrow> setw0 (Suc n) (s @ [c]) = setw0 n s @ [c]"
  by (simp add: setw0_def)

lemma show_base_not_Nil [simp]: "show_base base n \<noteq> []"
  by (subst show_base.simps) simp

lemma setw0_show_base: "1 < base \<Longrightarrow> k < base ^ n \<Longrightarrow> 0 < n \<Longrightarrow> setw0 n (show_base base k) = fixed base n k"
proof (induction n arbitrary: k)
  case 0
  then show ?case by simp
next
  case (Suc n)
  show ?case
  proof (cases "k < base")
    case True
    with Suc.prems show ?thesis by (simp add: show_base.simps fixed_0) (simp add: setw0_def)
  next
    case False
    have "n \<noteq> 0" using Suc.prems False by (cases n) auto
    have "k div base < base ^ n" using Suc.prems by (simp add: less_mult_imp_div_less mult.commute)
    with Suc.IH [of "k div base"] Suc.prems False \<open>n \<noteq> 0\<close> show ?thesis
      by (subst show_base.simps) (simp add: setw0_snoc)
  qed
qed

lemma set_fixed: "c \<in> set (fixed base n k) \<Longrightarrow> 0 < base \<Longrightarrow> \<exists>d < base. c = digit_char d"
  by (induction n arbitrary: k) (auto intro: digit_char_mod)

lemma set_show_base: "c \<in> set (show_base base k) \<Longrightarrow> 1 < base \<Longrightarrow> \<exists>d < base. c = digit_char d"
proof (induction base k rule: show_base.induct)
  case (1 base n)
  then show ?case
    using digit_char_mod [of base n] by (subst (asm) (2) show_base.simps) (auto split: if_splits)
qed

text \<open>Reading back what was printed.\<close>

lemma read_digits_append:
  "\<forall>c \<in> set xs. digit_in base c \<noteq> None \<Longrightarrow>
   read_digits base acc n (xs @ ys) = (case read_digits base acc n xs of (acc', n') \<Rightarrow> read_digits base acc' n' ys)"
  by (induction xs arbitrary: acc n) auto

lemma read_digits_show_base:
  "1 < base \<Longrightarrow> base \<le> 16 \<Longrightarrow> \<exists>m>0. read_digits base 0 0 (show_base base k) = (k, m)"
proof (induction base k rule: show_base.induct)
  case (1 base n)
  show ?case
  proof (cases "n < base")
    case True
    with 1 show ?thesis by (simp add: show_base.simps [of base n])
  next
    case False
    with 1 obtain m where m: "m > 0" "read_digits base 0 0 (show_base base (n div base)) = (n div base, m)" by auto
    have "\<forall>c \<in> set (show_base base (n div base)). digit_in base c \<noteq> None"
      using set_show_base [of _ base "n div base"] 1 by fastforce
    with m 1 False show ?thesis
      by (simp add: show_base.simps [of base n] read_digits_append mult.commute)
  qed
qed

lemma show_base_Cons:
  assumes "1 < base"
  shows "\<exists>d cs. d < base \<and> show_base base k = digit_char d # cs"
  using set_show_base [of "hd (show_base base k)" base k] assms show_base_not_Nil [of base k]
  by (cases "show_base base k") auto

lemma str_to_number_show_base: "str_to_number 10 (show_base 10 k) = Some (False, k)"
proof -
  obtain d cs where c: "d < 10" "show_base 10 k = digit_char d # cs"
    using show_base_Cons [of 10 k] by auto
  obtain m where m: "m > 0" "read_digits 10 0 0 (show_base 10 k) = (k, m)"
    using read_digits_show_base [of 10 k] by auto
  have "hex_prefix 10 (show_base 10 k) = show_base 10 k"
    by (auto simp: hex_prefix_def split: list.split)
  with c m show ?thesis by (simp add: str_to_number_def Let_def)
qed

lemma stoul_show_base [simp]: "k < 2 ^ 64 \<Longrightarrow> stoul 10 (show_base 10 k) = Inr (of_nat k)"
  by (simp add: stoul_def str_to_number_show_base)

lemma stou16_show_base [simp]: "stou16 (show_base 10 (unat (w :: u16))) = Inr w"
proof -
  have "unat w < 2 ^ 16" using unsigned_less [of w, where 'a = nat] by simp
  then show ?thesis
    by (simp add: stou16_def unsigned_of_nat take_bit_nat_eq_self) (rule bit_word_eqI, simp add: bit_simps)
qed

section \<open>Hexadecimal digits of bytes and words\<close>

lemma unat_nibble: "4 \<le> LENGTH('a) \<Longrightarrow> unat (w AND 0x0F :: 'a::len word) = unat w mod 16"
proof -
  assume l: "4 \<le> LENGTH('a)"
  have m: "(0x0F :: 'a word) = mask 4" by (simp add: mask_eq_exp_minus_1)
  show ?thesis
    unfolding m take_bit_eq_mask [symmetric] unsigned_take_bit_eq using l by (simp add: take_bit_eq_mod)
qed

lemma to_hex_byte: "to_hex (c :: byte) = fixed 16 2 (unat c)"
proof -
  have "unat (drop_bit 4 c) = unat c div 16"
    using unsigned_less [of c, where 'a = nat]
    by (simp only: unsigned_drop_bit_eq) (simp add: drop_bit_eq_div take_bit_eq_mod)
  then show ?thesis
    by (simp add: to_hex_def unat_nibble upt_rec numeral_2_eq_2)
qed

lemma four: "(4 :: nat) = Suc (Suc (Suc (Suc 0)))"
  by simp

lemma fixed_2: "fixed 16 2 k = [digit_char (k div 16 mod 16), digit_char (k mod 16)]"
  and fixed_4: "fixed 16 4 k = [digit_char (k div 4096 mod 16), digit_char (k div 256 mod 16),
    digit_char (k div 16 mod 16), digit_char (k mod 16)]"
  by (simp_all add: numeral_2_eq_2 four div_mult2_eq [symmetric])

text \<open>The other host reads the two digits of a byte in the wrong order.\<close>

definition swap_nibbles :: "byte \<Rightarrow> byte" where
  "swap_nibbles c = push_bit 4 c + drop_bit 4 c"

definition host_byte :: "endian \<Rightarrow> byte \<Rightarrow> byte" where
  "host_byte h c = (case h of Little \<Rightarrow> c | Big \<Rightarrow> swap_nibbles c)"

lemma host_byte_Little [simp]: "host_byte Little c = c"
  by (simp add: host_byte_def)

lemma hex_to_u8_fixed:
  "hex_to_u8 h (digit_char (unat c div 16 mod 16)) (digit_char (unat c mod 16)) = host_byte h c"
proof -
  have b: "unat c < 256" using unsigned_less [of c, where 'a = nat] by simp
  have "of_nat (unat c div 16 * 16 + unat c mod 16) = c" by (simp only: div_mult_mod_eq) simp
  then have 1: "push_bit 4 (of_nat (unat c div 16) :: byte) + of_nat (unat c mod 16) = c"
    by (simp only: of_nat_add of_nat_mult push_bit_eq_mult) simp
  have "drop_bit 4 c = of_nat (unat c div 16)"
    by (rule unsigned_word_eqI [where 'a = nat])
      (use le_less_trans [OF div_le_dividend b] in
        \<open>simp only: unsigned_drop_bit_eq, simp add: drop_bit_eq_div take_bit_eq_mod unat_of_nat\<close>)
  moreover have "push_bit 4 c = push_bit 4 (of_nat (unat c mod 16))"
    by (rule unsigned_word_eqI [where 'a = nat])
      (use b in \<open>simp add: push_bit_eq_mult unat_word_ariths unat_of_nat mult_mod_left\<close>)
  moreover have "unat c div 16 mod 16 = unat c div 16"
    using b by (simp add: less_mult_imp_div_less)
  ultimately show ?thesis using 1
    by (cases h) (simp_all add: hex_to_u8_def hex_to_u8_le_def hex_to_u8_be_def host_byte_def swap_nibbles_def)
qed


section \<open>Round trips\<close>

lemma hex_pairs_append: "length xs mod 2 = 0 \<Longrightarrow> hex_pairs h (xs @ ys) = hex_pairs h xs @ hex_pairs h ys"
proof (induction h xs rule: hex_pairs.induct)
  case (1 h c1 c2 cs)
  then show ?case by simp
qed simp_all

lemma length_to_hex_byte [simp]: "length (to_hex (c :: byte)) = 2"
  by (simp add: to_hex_byte)

lemma hex_pairs_to_hex [simp]: "hex_pairs h (to_hex c) = [host_byte h c]"
  by (simp add: to_hex_byte fixed_2 hex_to_u8_fixed)

lemma hex_pairs_to_hex_buffer: "hex_pairs h (concat (map to_hex cs)) = map (host_byte h) cs"
  by (induction cs) (simp_all add: hex_pairs_append)

lemma length_to_hex_buffer [simp]: "length (concat (map to_hex (cs :: byte list))) = 2 * length cs"
  by (induction cs) simp_all

lemma hex_to_buffer_to_hex: "hex_to_buffer b h (to_hex_buffer cs) = Inr (map (host_byte h) cs)"
  by (simp add: hex_to_buffer_def to_hex_buffer_def hex_pairs_to_hex_buffer)

lemma foldl_append_map: "foldl (\<lambda>r x. r @ f x) acc xs = acc @ concat (map f xs)"
  by (induction xs arbitrary: acc) simp_all

lemma obis_to_string: "obis_to_string c = to_hex_buffer (obis_data c)"
  by (simp add: obis_to_string_def to_hex_buffer_def foldl_append_map)

lemma to_obis_to_string: "to_obis b h (obis_to_string c) = Inr (obis_of_data (map (host_byte h) (obis_data c)))"
  by (simp add: to_obis_def obis_to_string hex_to_buffer_to_hex)

lemma to_hex_no_sep: "58 \<notin> set (to_hex (c :: byte))"
  using set_fixed [of 58 16 2 "unat c"] by (auto simp: to_hex_byte)

lemma splitsD: "splits spl \<Longrightarrow> parts \<noteq> [] \<Longrightarrow> (\<And>p. p \<in> set parts \<Longrightarrow> p \<noteq> [] \<and> d \<notin> set p) \<Longrightarrow>
  spl d (join d parts) = parts"
  by (simp add: splits_def)

text \<open>The text of an octet and of a word of a MAC address.\<close>

lemma octet_text: "setw0 2 (show_base 16 (unat ((c :: byte) AND 0xFF))) = to_hex c"
proof -
  have "(0xFF :: byte) = mask 8" by (simp add: mask_eq_exp_minus_1)
  then have m: "c AND 0xFF = c"
    by (simp only: take_bit_eq_mask [symmetric]) (rule bit_word_eqI, auto simp: bit_simps)
  have "unat c < 16 ^ 2" using unsigned_less [of c, where 'a = nat] by simp
  with m show ?thesis by (simp only:) (simp add: setw0_show_base to_hex_byte)
qed

lemma word_text: "setw0 4 (show_base 16 (unat (w :: u16))) = fixed 16 4 (unat w)"
  using unsigned_less [of w, where 'a = nat] by (simp add: setw0_show_base)

lemma is_hex_fixed [simp]: "is_hex (fixed 16 n k)"
  by (induction n arbitrary: k) (auto simp: is_hex_def)

lemma is_hex_to_hex [simp]: "is_hex (to_hex (c :: byte))"
  by (simp add: to_hex_byte)

lemma hex_to_u8_str_to_hex: "hex_to_u8_str b h (to_hex c) = Inr (host_byte h c)"
proof -
  have "to_hex c \<noteq> []" using length_to_hex_byte [of c] by fastforce
  then show ?thesis by (simp add: hex_to_u8_str_def) (simp add: to_hex_byte fixed_2 hex_to_u8_fixed)
qed

text \<open>A word as the host reads it.\<close>

definition host_word :: "endian \<Rightarrow> u16 \<Rightarrow> u16" where
  "host_word h w = (case h of Little \<Rightarrow> w | Big \<Rightarrow>
     push_bit 8 (ucast (swap_nibbles (ucast w))) + ucast (swap_nibbles (ucast (drop_bit 8 w))))"

lemma byte_of_nat: "unat (of_nat n :: byte) = n mod 256"
  by (simp add: unat_of_nat)

lemma hex_to_u8_digits:
  "hex_to_u8 h (digit_char (n div 16 mod 16)) (digit_char (n mod 16)) = host_byte h (of_nat n)"
proof -
  have "n div 16 mod 16 = (n mod 256) div 16 mod 16" "n mod 16 = n mod 256 mod 16"
    using mod_mult2_eq [of n 16 16] by (simp_all add: mod_mod_cancel)
  then show ?thesis using hex_to_u8_fixed [of h "of_nat n"] by (simp add: byte_of_nat)
qed

lemma hex_to_u16_str_word: "hex_to_u16_str b h (fixed 16 4 (unat w)) = Inr (host_word h w)"
proof -
  have hx: "is_hex (fixed 16 4 (unat w))" by simp
  have d: "unat w div 4096 mod 16 = unat w div 256 div 16 mod 16"
    by (simp add: div_mult2_eq [symmetric])
  have lo: "(of_nat (unat w) :: byte) = ucast w" by simp
  have hi: "(of_nat (unat w div 256) :: byte) = ucast (drop_bit 8 w)"
    by (rule unsigned_word_eqI [where 'a = nat])
      (use unsigned_less [of w, where 'a = nat] in
        \<open>simp only: unsigned_ucast_eq unsigned_drop_bit_eq, simp add: drop_bit_eq_div take_bit_eq_mod unat_of_nat\<close>)
  have whole: "push_bit 8 (ucast (ucast (drop_bit 8 w) :: byte)) + ucast (ucast w :: byte) = w"
    by (subst disjunctive_add_eq_or) (rule bit_word_eqI, auto simp: bit_simps)+
  show ?thesis
  proof (cases h)
    case Little
    with hex_to_u8_digits [of Little] d lo hi hx whole show ?thesis
      by (simp add: hex_to_u16_str_def fixed_4 hex_to_u16_def hex_to_u16_le_def host_word_def hex_to_u8_def)
  next
    case Big
    with hex_to_u8_digits [of Big] d lo hi hx show ?thesis
      by (simp add: hex_to_u16_str_def fixed_4 hex_to_u16_def hex_to_u16_be_def host_word_def hex_to_u8_def host_byte_def)
  qed
qed

lemma mac48_text: "splits spl \<Longrightarrow>
  to_mac48 b h spl (show_mac48 m) = Inr (mac48_of_list (map (host_byte h) (get_octets m)))"
proof -
  assume s: "splits spl"
  have "spl 58 (show_mac48 m) = map to_hex (get_octets m)"
    unfolding show_mac48_def octet_text
    by (rule splitsD [OF s]) (auto simp: to_hex_no_sep dest: arg_cong [where f = length] simp flip: length_greater_0_conv)
  then show ?thesis
    by (cases m) (simp add: to_mac48_def Let_def hex_to_u8_str_to_hex)
qed

lemma mac64_text: "splits spl \<Longrightarrow> to_mac64 b h spl (show_mac64 (Mac64 w1 w2 w3 w4)) =
  Inr (Mac64 (host_word h w1) (host_word h w2) (host_word h w3) (host_word h w4))"
proof -
  assume s: "splits spl"
  have "spl 58 (show_mac64 (Mac64 w1 w2 w3 w4)) = map (\<lambda>w. fixed 16 4 (unat w)) [w1, w2, w3, w4]"
    unfolding show_mac64_def word_text get_words.simps
  proof (rule splitsD [OF s])
    fix p assume "p \<in> set (map (\<lambda>w. fixed 16 4 (unat w)) [w1, w2, w3, w4])"
    then obtain w :: u16 where p: "p = fixed 16 4 (unat w)" by auto
    then have "length p = 4" by simp
    moreover have "58 \<notin> set p" using set_fixed [of 58 16 4 "unat w"] p by auto
    ultimately show "p \<noteq> [] \<and> 58 \<notin> set p" by auto
  qed simp
  then show ?thesis by (simp add: to_mac64_def Let_def hex_to_u16_str_word)
qed

text \<open>The program's own splitting loop has the property asked of \<^verbatim>\<open>boost::split\<close>.\<close>

lemma split_view_join:
  "parts \<noteq> [] \<Longrightarrow> \<forall>p \<in> set parts. p \<noteq> [] \<and> d \<notin> set p \<Longrightarrow> split_view [d] (join d parts) = parts"
proof (induction d parts rule: join.induct)
  case (1 sep)
  then show ?case by simp
next
  case (2 sep x)
  then have "dropWhile (\<lambda>c. c \<notin> set [sep]) x = []" by (auto simp: dropWhile_eq_Nil_conv)
  with 2 show ?case by (subst split_view.simps) simp
next
  case (3 sep x y ys)
  let ?rest = "join sep (y # ys)"
  have t: "takeWhile (\<lambda>c. c \<notin> set [sep]) (x @ sep # ?rest) = x"
    and d: "dropWhile (\<lambda>c. c \<notin> set [sep]) (x @ sep # ?rest) = sep # ?rest"
    using 3 by (auto simp: takeWhile_append dropWhile_append)
  from 3 show ?case by (subst split_view.simps) (simp only: join.simps t d, simp add: Let_def)
qed

lemma splits_split_view: "splits (\<lambda>d. split_view [d])"
  by (simp add: splits_def split_view_join)


section \<open>Types of constructed objects\<close>

lemma rapply_eq_Inr [simp]: "rapply f m = Inr y \<longleftrightarrow> (\<exists>x. m = Inr x \<and> y = f x)"
  by (cases m) (auto simp: rapply_def)

lemma octets_of_hex_type: "octets_of_hex b h t s = Inr obj \<Longrightarrow> type_tag obj = octets_tag t"
  by (auto simp: octets_of_hex_def Let_def rbind_eq_Inr)

lemma type_tag_endpoint [simp]: "type_tag (case_prod (OEndpoint t) x) = endpoint_tag t"
  by (cases x) simp

text \<open>C24. The object constructed from a raw value has the type code of the raw value when that code is
  constructable; a raw value nested in a raw value stays one, and every other code gives the null object.\<close>

theorem construct_object_type:
  assumes "construct_object b h p r = Inr obj"
  shows "type_tag obj = (if is_constructable (raw_code r) then raw_code r else if raw_code r = 44 then 44 else 0)"
proof -
  have "is_constructable (raw_code r) \<or> \<not> is_constructable (raw_code r)" by blast
  then show ?thesis
    using assms unfolding construct_object_def Let_def is_constructable_def
    by (auto split: if_splits dest!: octets_of_hex_type)
qed

theorem construct_object_type_witness:
  "type_tag (case construct_object Release Little
     \<lparr>p_split = (\<lambda>d. split_view [d]), p_float = (\<lambda>_. 0), p_double = (\<lambda>_. 0), p_float80 = (\<lambda>_. 0),
      p_scaled = (\<lambda>_ _. Inr 0), p_time_point = (\<lambda>_. 0), p_uuid = id, p_address = id\<rparr>
     (Raw (str ''127'') 9) of Inr obj \<Rightarrow> obj | Inl _ \<Rightarrow> ONull) = 9"
proof -
  let ?p = "\<lparr>p_split = (\<lambda>d. split_view [d]), p_float = (\<lambda>_. 0), p_double = (\<lambda>_. 0), p_float80 = (\<lambda>_. 0),
      p_scaled = (\<lambda>_ _. Inr 0), p_time_point = (\<lambda>_. 0), p_uuid = id, p_address = id\<rparr>"
  have c: "construct_object Release Little ?p (Raw (str ''127'') 9) = Inr (OU64 (to_numeric_unsigned 10 (str ''127'')))"
    by (simp add: construct_object_def)
  show ?thesis using construct_object_type [OF c] by (simp add: c is_constructable_def)
qed

section \<open>Dates and times\<close>

lemma read_digits_fixed:
  "1 < base \<Longrightarrow> base \<le> 16 \<Longrightarrow> k < base ^ n \<Longrightarrow> read_digits base 0 0 (fixed base n k) = (k, n)"
proof (induction n arbitrary: k)
  case 0
  then show ?case by simp
next
  case (Suc n)
  have "k div base < base ^ n" using Suc.prems by (simp add: less_mult_imp_div_less mult.commute)
  moreover have "\<forall>c \<in> set (fixed base n (k div base)). digit_in base c \<noteq> None"
    using set_fixed [of _ base n "k div base"] Suc.prems by fastforce
  ultimately show ?case using Suc.IH [of "k div base"] Suc.prems by (simp add: read_digits_append)
qed

lemma fixed_Cons: "fixed base (Suc n) k = digit_char (k div base ^ n mod base) # fixed base n k"
proof (induction n arbitrary: k)
  case 0
  then show ?case by simp
next
  case (Suc n)
  have "fixed base (Suc (Suc n)) k = fixed base (Suc n) (k div base) @ [digit_char (k mod base)]"
    by (simp only: fixed.simps)
  also have "\<dots> = digit_char (k div base div base ^ n mod base) # fixed base (Suc n) k"
    by (subst Suc.IH) simp
  finally show ?case by (simp only: div_mult2_eq power_Suc)
qed

lemma stou32_fixed [simp]:
  assumes "k < 10 ^ n" "0 < n" "n \<le> 4"
  shows "stou32 (fixed 10 n k) = Inr (of_nat k)"
proof -
  obtain m where m: "n = Suc m" using assms by (cases n) auto
  have "fixed 10 n k = digit_char (k div 10 ^ m mod 10) # fixed 10 m k"
    using fixed_Cons [of 10 m k] m by simp
  moreover have "hex_prefix 10 (fixed 10 n k) = fixed 10 n k"
    by (auto simp: hex_prefix_def split: list.split)
  ultimately have 1: "str_to_number 10 (fixed 10 n k) = Some (False, k)"
    using read_digits_fixed [of 10 k n] assms by (simp add: str_to_number_def Let_def)
  have "(10 :: nat) ^ n \<le> 10 ^ 4" by (rule power_increasing) (use assms in auto)
  with assms have "k < 10000" by simp
  with 1 show ?thesis by (simp add: stou32_def stoul_def unsigned_of_nat take_bit_nat_eq_self)
qed

definition date_text :: "nat \<Rightarrow> nat \<Rightarrow> nat \<Rightarrow> byte list" where
  "date_text y m d = join 45 [fixed 10 4 y, fixed 10 2 m, fixed 10 2 d]"

definition time_text :: "nat \<Rightarrow> nat \<Rightarrow> nat \<Rightarrow> byte list" where
  "time_text h m s = join 58 [fixed 10 2 h, fixed 10 2 m, fixed 10 2 s]"

definition zone_text :: "nat \<Rightarrow> nat \<Rightarrow> byte list" where
  "zone_text h m = join 58 [fixed 10 2 h, fixed 10 2 m]"

lemma fixed_plain: "0 < n \<Longrightarrow> fixed 10 n k \<noteq> [] \<and> 45 \<notin> set (fixed 10 n k) \<and> 58 \<notin> set (fixed 10 n k)"
proof -
  assume "0 < n"
  then have "fixed 10 n k \<noteq> []" using length_fixed [of 10 n k] by (metis less_irrefl list.size(3))
  moreover have "c \<noteq> 45 \<and> c \<noteq> 58" if c: "c \<in> set (fixed 10 n k)" for c
  proof -
    obtain d where "d < 10" "c = digit_char d" using set_fixed [OF c] by auto
    then show ?thesis by simp
  qed
  ultimately show ?thesis by blast
qed

lemma split_fixed:
  assumes "splits spl" "c = 45 \<or> c = 58" "ks \<noteq> []" "\<forall>(n, k) \<in> set ks. 0 < n"
  shows "spl c (join c (map (\<lambda>(n, k). fixed 10 n k) ks)) = map (\<lambda>(n, k). fixed 10 n k) ks"
proof (rule splitsD [OF assms(1)])
  show "map (\<lambda>(n, k). fixed 10 n k) ks \<noteq> []" using assms by simp
  fix p assume "p \<in> set (map (\<lambda>(n, k). fixed 10 n k) ks)"
  then obtain n k where "p = fixed 10 n k" "0 < n" using assms(4) by fastforce
  with assms(2) fixed_plain [of n k] show "p \<noteq> [] \<and> c \<notin> set p" by metis
qed

lemma widen_nat [simp]: "k < 10000 \<Longrightarrow> ucast (of_nat k :: u32) = (of_nat k :: u64)"
  by (simp add: unsigned_of_nat take_bit_nat_eq_self)

lemma lengths [simp]: "length (date_text y m d) = 10" "length (time_text h m s) = 8" "length (zone_text h m) = 5"
  by (simp_all add: date_text_def time_text_def zone_text_def)

lemma sint_minus: "y < 10000 \<Longrightarrow> k < 10000 \<Longrightarrow> sint (of_nat y - of_nat k :: u32) = int y - int k"
proof -
  assume a: "y < 10000" "k < 10000"
  have "(of_nat y - of_nat k :: u32) = word_of_int (int y - int k)" by simp
  then show ?thesis using a by (simp only: sint_sbintrunc') (simp add: signed_take_bit_int_eq_self)
qed

lemma date_value:
  assumes "splits spl" "y < 10000" "m < 100" "d < 100"
  shows "to_timestamp_date spl timegm (date_text y m d) = Inr (timegm (int y - 1900) (int m - 1) (int d))"
proof -
  have p: "spl 45 (date_text y m d) = [fixed 10 4 y, fixed 10 2 m, fixed 10 2 d]"
    using split_fixed [OF assms(1), of 45 "[(4, y), (2, m), (2, d)]"] by (simp add: date_text_def)
  have "split3 spl 45 (date_text y m d) = Inr (of_nat y, of_nat m, of_nat d)"
    using assms(2-) by (simp add: split3_def p)
  with assms(2-) sint_minus [of y 1900] sint_minus [of m 1] sint_minus [of d 0] show ?thesis
    by (simp add: to_timestamp_date_def)
qed

lemma time_value:
  assumes "splits spl" "h < 100" "m < 100" "s < 100"
  shows "to_timestamp_offset spl (time_text h m s) = Inr (of_nat (3600 * h + 60 * m + s))"
proof -
  have p: "spl 58 (time_text h m s) = [fixed 10 2 h, fixed 10 2 m, fixed 10 2 s]"
    using split_fixed [OF assms(1), of 58 "[(2, h), (2, m), (2, s)]"] by (simp add: time_text_def)
  have "split3 spl 58 (time_text h m s) = Inr (of_nat h, of_nat m, of_nat s)"
    using assms(2-) by (simp add: split3_def p)
  with assms(2-) show ?thesis by (simp add: to_timestamp_offset_def)
qed

lemma zone_value:
  assumes "splits spl" "h < 100" "m < 100"
  shows "to_tz_offset spl (zone_text h m) = Inr (of_nat (60 * h + m))"
proof -
  have p: "spl 58 (zone_text h m) = [fixed 10 2 h, fixed 10 2 m]"
    using split_fixed [OF assms(1), of 58 "[(2, h), (2, m)]"] by (simp add: zone_text_def)
  have "split2 spl (zone_text h m) = Inr (of_nat h, of_nat m)"
    using assms(2-) by (simp add: split2_def p)
  with assms(2-) show ?thesis by (simp add: to_tz_offset_def)
qed

text \<open>A date and time with a zone \<^verbatim>\<open>YYYY-MM-DDThh:mm:ss+HH:MM\<close> is read as the date and time taken for
  UTC, plus the offset for \<^verbatim>\<open>+\<close> and minus the offset for \<^verbatim>\<open>-\<close>: the opposite of ISO 8601.\<close>

theorem timestamp_zone:
  assumes "splits spl" "y < 10000" "mo < 100" "d < 100" "hh < 100" "mm < 100" "ss < 100" "zh < 100" "zm < 100"
  shows "let utc = timegm (int y - 1900) (int mo - 1) (int d) + of_nat (3600 * hh + 60 * mm + ss);
             text = (\<lambda>sign. date_text y mo d @ 84 # time_text hh mm ss @ sign # zone_text zh zm) in
    to_timestamp spl timegm (text 43) = Inr (utc + 60 * of_nat (60 * zh + zm)) \<and>
    to_timestamp spl timegm (text 45) = Inr (utc - 60 * of_nat (60 * zh + zm))"
  using date_value [OF assms(1-4)] time_value [OF assms(1,5-7)] zone_value [OF assms(1,8,9)]
  by (simp add: to_timestamp_def with_zone_def nth_append drop_Cons')

theorem timestamp_zone_witness:
  "to_timestamp (\<lambda>d. split_view [d]) (\<lambda>y m d. of_int (86400 * (365 * (y - 70) + 13)))
     (date_text 2021 1 1 @ 84 # time_text 12 0 0 @ 43 # zone_text 1 0) = Inr (1609459200 + 13 * 3600)"
  using timestamp_zone [OF splits_split_view, of 2021 1 1 12 0 0 1 0 "\<lambda>y m d. of_int (86400 * (365 * (y - 70) + 13))"]
  by (simp add: Let_def)

section \<open>Printing and reading\<close>

lemma host_byte_map [simp]: "map (host_byte Little) xs = xs"
  by (induction xs) simp_all

lemma obis_path_text:
  assumes "splits spl" "path \<noteq> []"
  shows "to_obis_path b Little spl (show_obis_path path) = Inr path"
proof -
  have "spl 58 (show_obis_path path) = map obis_to_string path"
    unfolding show_obis_path_def
  proof (rule splitsD [OF assms(1)])
    fix p assume "p \<in> set (map obis_to_string path)"
    then obtain c where p: "p = concat (map to_hex (obis_data c))"
      by (auto simp: obis_to_string to_hex_buffer_def)
    have "length p = 12" by (simp only: p length_to_hex_buffer length_obis_data)
    moreover have "58 \<notin> set p" using to_hex_no_sep by (auto simp: p)
    ultimately show "p \<noteq> [] \<and> 58 \<notin> set p" by auto
  qed (use assms in simp)
  moreover have "rmap (to_obis b Little) (map obis_to_string path) = Inr path"
    by (induction path) (simp_all add: to_obis_to_string)
  ultimately show ?thesis by (simp add: to_obis_path_def)
qed

lemma show_base_10_no: "c \<in> {46, 58} \<Longrightarrow> c \<notin> set (show_base 10 k)"
  using set_show_base [of c 10 k] by auto

lemma version_text:
  assumes "splits spl"
  shows "to_version h spl (show_version h (make_version h a c)) = Inr (make_version h a c)"
proof -
  have "spl 46 (show_version h (make_version h a c)) = [show_base 10 (unat a), show_base 10 (unat c)]"
  proof -
    have "spl 46 (join 46 [show_base 10 (unat a), show_base 10 (unat c)]) = [show_base 10 (unat a), show_base 10 (unat c)]"
      by (rule splitsD [OF assms]) (auto simp: show_base_10_no)
    then show ?thesis by (simp add: show_version_def)
  qed
  then show ?thesis by (simp add: to_version_def)
qed

text \<open>C23. On a little-endian host the text of MAC addresses of both sizes, OBIS codes, OBIS paths, buffers
  and versions is read back as the value it was printed from; a path must not be empty.\<close>

theorem text_roundtrip:
  assumes "splits spl" "path \<noteq> []"
  shows "to_mac48 b Little spl (show_mac48 m48) = Inr m48 \<and>
    to_mac64 b Little spl (show_mac64 m64) = Inr m64 \<and>
    to_obis b Little (obis_to_string c) = Inr c \<and>
    to_obis_path b Little spl (show_obis_path path) = Inr path \<and>
    hex_to_buffer b Little (to_hex_buffer buffer) = Inr buffer \<and>
    to_version h spl (show_version h (make_version h v1 v2)) = Inr (make_version h v1 v2)"
  using mac48_text [OF assms(1), of b Little m48] obis_path_text [OF assms] version_text [OF assms(1)]
  by (cases m64) (simp add: mac64_text [OF assms(1)] host_word_def to_obis_to_string hex_to_buffer_to_hex)

theorem text_roundtrip_witness:
  "to_obis_path Debug Little (\<lambda>d. split_view [d]) (show_obis_path [Obis 1 0 1 8 0 255, Obis 129 129 17 6 1 255]) =
     Inr [Obis 1 0 1 8 0 255, Obis 129 129 17 6 1 255]"
  using text_roundtrip [OF splits_split_view, of "[Obis 1 0 1 8 0 255, Obis 129 129 17 6 1 255]" Debug] by blast

text \<open>On a big-endian host every byte read from hexadecimal digits has its two digits exchanged, so the
  text of MAC addresses, OBIS codes and buffers is not read back.\<close>

theorem big_endian_hex:
  assumes "splits spl"
  shows "to_mac48 b Big spl (show_mac48 m) = Inr (mac48_of_list (map swap_nibbles (get_octets m))) \<and>
    to_obis b Big (obis_to_string c) = Inr (obis_of_data (map swap_nibbles (obis_data c))) \<and>
    hex_to_buffer b Big (to_hex_buffer buffer) = Inr (map swap_nibbles buffer) \<and>
    hex_to_buffer b Big (to_hex_buffer [0x12]) = Inr [0x21]"
proof -
  have "host_byte Big = swap_nibbles" by (rule ext) (simp add: host_byte_def)
  then show ?thesis
    using mac48_text [OF assms, of b Big m] by (simp add: to_obis_to_string hex_to_buffer_to_hex swap_nibbles_def)
qed

theorem big_endian_hex_witness:
  "to_mac48 Debug Big (\<lambda>d. split_view [d]) (show_mac48 (Mac48 0 0xC 0x29 0xCC 0xE3 0xD4)) =
     Inr (Mac48 0 0xC0 0x92 0xCC 0x3E 0x4D)"
  using big_endian_hex [OF splits_split_view, of Debug "Mac48 0 0xC 0x29 0xCC 0xE3 0xD4"]
  by (simp add: swap_nibbles_def mac48_of_list_def)

text \<open>The parsers for EDIS codes and revisions lose what was printed: \<^verbatim>\<open>to_edis\<close> transforms an empty
  range and gives 0.0.0 for every text, and \<^verbatim>\<open>to_revision\<close> splits at colons while revisions are printed
  with points, so it gives the zero revision.\<close>

theorem edis_revision_lost:
  "parse_edis spl s = Edis 0 0 0 \<and>
   (splits spl \<longrightarrow> to_revision h spl (show_revision h r) = Inr (make_revision4 h 0 0 0 0))"
proof (intro conjI impI)
  show "parse_edis spl s = Edis 0 0 0"
    by (simp add: parse_edis_def transform_into_def Let_def)
  assume s: "splits spl"
  have "spl 58 (show_revision h r) = [show_revision h r]"
    using splitsD [OF s, of "[show_revision h r]" 58]
    by (simp add: show_revision_def show_version_def Let_def show_base_10_no)
  then show "to_revision h spl (show_revision h r) = Inr (make_revision4 h 0 0 0 0)"
    by (simp add: to_revision_def)
qed

theorem edis_revision_lost_witness:
  "to_revision Little (\<lambda>d. split_view [d]) (show_revision Little (make_revision4 Little 1 2 3 4)) =
     Inr (make_revision4 Little 0 0 0 0)"
  using edis_revision_lost splits_split_view by blast


end
