(* ===== verification/Plain.thy ===== *)
theory Plain
  imports Text
begin

unbundle bit_operations_syntax

text \<open>
  The plain serializer: \<^verbatim>\<open>src/io/src/serializer/plain.cpp\<close>, \<^verbatim>\<open>include/cyng/io/serializer/plain.hpp\<close> and the
  stream operators of \<^verbatim>\<open>src/io/src/ostream.cpp\<close> and \<^verbatim>\<open>include/cyng/io/ostream.h\<close> it falls back to.

  A stream is its text and whether it is good: printing a severity without a name sets \<^verbatim>\<open>failbit\<close>, and
  nothing printed later reaches the stream.  The operators restore the flags of the stream, and each
  output with a width sets the fill character before.  Floating point numbers, calendar times,
  durations and error codes are printed by the standard library and by Boost; their texts are
  parameters.  The element counts of \<^verbatim>\<open>_DEBUG\<close> builds are left out.
\<close>

section \<open>Streams\<close>

type_synonym ostream = "byte list \<times> bool"

definition put_text :: "byte list \<Rightarrow> ostream \<Rightarrow> ostream" where
  "put_text s os = (if snd os then (fst os @ s, True) else os)"

definition set_failbit :: "ostream \<Rightarrow> ostream" where
  "set_failbit os = (fst os, False)"

record printers =
  pr_float :: "u32 \<Rightarrow> byte list"
  pr_double :: "u64 \<Rightarrow> byte list"
  pr_float80 :: "128 word \<Rightarrow> byte list"
  pr_chrono :: "chrono \<Rightarrow> u64 \<Rightarrow> byte list"
  pr_ec :: "u32 \<Rightarrow> byte list \<Rightarrow> byte list"

section \<open>Values\<close>

definition show_dec :: "'a::len word \<Rightarrow> byte list" where
  "show_dec w = show_base 10 (unat w)"

definition show_int :: "int \<Rightarrow> byte list" where
  "show_int i = (if i < 0 then 45 # show_base 10 (nat (- i)) else show_base 10 (nat i))"

definition show_bool :: "bool \<Rightarrow> byte list" where
  "show_bool v = str (if v then ''true'' else ''false'')"

definition show_op :: "u16 \<Rightarrow> byte list" where
  "show_op c = str ''op:'' @
     (case op_of_code c of
        Some x \<Rightarrow> (case op_name x of Some name \<Rightarrow> str name | None \<Rightarrow> str ''CODE'' @ show_dec c @ str ''!'')
      | None \<Rightarrow> str ''CODE'' @ show_dec c @ str ''!'')"

definition severity_text :: "byte \<Rightarrow> byte list option" where
  "severity_text s =
     (if s = severity_code LEVEL_TRACE then Some (str ''TRACE'')
      else if s = severity_code LEVEL_DEBUG then Some (str ''DEBUG'')
      else if s = severity_code LEVEL_INFO then Some (str ''INFO '')
      else if s = severity_code LEVEL_WARNING then Some (str ''WARN '')
      else if s = severity_code LEVEL_ERROR then Some (str ''ERROR'')
      else if s = severity_code LEVEL_FATAL then Some (str ''FATAL'')
      else None)"

definition put_severity :: "byte \<Rightarrow> ostream \<Rightarrow> ostream" where
  "put_severity s os = (case severity_text s of Some t \<Rightarrow> put_text t os | None \<Rightarrow> set_failbit os)"

text \<open>\<^verbatim>\<open>pid_t\<close> is signed and is widened to 64 bits before it is printed.\<close>

definition show_pid :: "u32 \<Rightarrow> byte list" where
  "show_pid p = setw0 6 (show_dec (scast p :: u64))"

definition show_buffer :: "byte list \<Rightarrow> byte list" where
  "show_buffer v = concat (map (\<lambda>c. setw0 2 (show_base 16 (unat (c AND 0xFF)))) v)"

definition show_color :: "'a::len word color \<Rightarrow> byte list" where
  "show_color c = str ''#'' @ concat (map (\<lambda>x. setw0 (LENGTH('a) div 4) (show_base 16 (unat x))) [red c, green c, blue c])"

definition show_raw :: "raw \<Rightarrow> byte list" where
  "show_raw r = str ''<'' @ show_dec (raw_code r) @ str '':'' @ raw_literal r @ str ''>''"

definition show_uuid :: "byte list \<Rightarrow> byte list" where
  "show_uuid v =
     concat (map (\<lambda>i. show_buffer [v ! i] @ (if Suc i \<in> {4, 6, 8, 10} then str ''-'' else [])) [0..<length v])"

definition show_octets :: "octets \<Rightarrow> byte list \<Rightarrow> byte list" where
  "show_octets t v = (if t = Uuid then show_uuid v else show_buffer v)"

text \<open>A \<^verbatim>\<open>std::filesystem::path\<close> is printed with \<^verbatim>\<open>std::quoted\<close>.\<close>

definition show_path :: "byte list \<Rightarrow> byte list" where
  "show_path v = [34] @ concat (map (\<lambda>c. if c = 34 \<or> c = 92 then [92, c] else [c]) v) @ [34]"

definition show_prg :: "byte list list \<Rightarrow> byte list" where
  "show_prg prg = str ''('' @ join 44 (map show_buffer prg) @ str '')''"

text \<open>The values that are not containers and not severities, with \<^verbatim>\<open>operator<<\<close>.\<close>

definition show_value :: "printers \<Rightarrow> endian \<Rightarrow> object \<Rightarrow> byte list option" where
  "show_value p h obj = (case obj of
      ONull \<Rightarrow> Some (str ''null'')
    | OEod \<Rightarrow> Some (str ''eod'')
    | OChar v \<Rightarrow> Some [v]
    | OFloat v \<Rightarrow> Some (pr_float p v)
    | OFloat80 v \<Rightarrow> Some (pr_float80 p v)
    | OString v \<Rightarrow> Some v
    | OPath v \<Rightarrow> Some (show_path v)
    | OChrono t v \<Rightarrow> Some (pr_chrono p t v)
    | OBuffer v \<Rightarrow> Some (show_buffer v)
    | OVersion v \<Rightarrow> Some (show_version h v)
    | ORevision v \<Rightarrow> Some (show_revision h v)
    | OOp v \<Rightarrow> Some (show_op v)
    | OMac48 v \<Rightarrow> Some (show_mac48 v)
    | OMac64 v \<Rightarrow> Some (show_mac64 v)
    | OPid v \<Rightarrow> Some (show_pid v)
    | OObis v \<Rightarrow> Some (obis_to_string v)
    | OObisPath v \<Rightarrow> Some (show_obis_path v)
    | OEdis v \<Rightarrow> Some (show_edis v)
    | OColor8 v \<Rightarrow> Some (show_color v)
    | OColor16 v \<Rightarrow> Some (show_color v)
    | OOctets t v \<Rightarrow> Some (show_octets t v)
    | ORaw v \<Rightarrow> Some (show_raw v)
    | OPrg v \<Rightarrow> Some (show_prg v)
    | OEc v category \<Rightarrow> Some (pr_ec p v category)
    | OIpAddress v \<Rightarrow> Some v
    | OEndpoint t port address \<Rightarrow> Some (address @ str '':'' @ show_dec port)
    | _ \<Rightarrow> None)"

text \<open>The types with a \<^verbatim>\<open>write\<close> of their own: unsigned numbers are printed in hexadecimal.\<close>

definition show_number :: "printers \<Rightarrow> object \<Rightarrow> byte list option" where
  "show_number p obj = (case obj of
      OBool v \<Rightarrow> Some (show_bool v)
    | ODouble v \<Rightarrow> Some (pr_double p v)
    | OU8 v \<Rightarrow> Some (show_base 16 (unat v))
    | OU16 v \<Rightarrow> Some (setw0 4 (show_base 16 (unat v)))
    | OU32 v \<Rightarrow> Some (setw0 8 (show_base 16 (unat v)))
    | OU64 v \<Rightarrow> Some (setw0 16 (show_base 16 (unat v)))
    | OI8 v \<Rightarrow> Some (show_int (sint v))
    | OI16 v \<Rightarrow> Some (show_int (sint v))
    | OI32 v \<Rightarrow> Some (show_int (sint v))
    | OI64 v \<Rightarrow> Some (show_int (sint v))
    | _ \<Rightarrow> None)"

definition put_value :: "printers \<Rightarrow> endian \<Rightarrow> object \<Rightarrow> ostream \<Rightarrow> ostream" where
  "put_value p h obj os =
     (case show_number p obj of Some s \<Rightarrow> put_text s os
      | None \<Rightarrow> (case show_value p h obj of Some s \<Rightarrow> put_text s os
          | None \<Rightarrow> (case obj of OSeverity s \<Rightarrow> put_severity s os | _ \<Rightarrow> os)))"

section \<open>Containers\<close>

text \<open>The loops print the separator before every element but the first.\<close>

fun separated :: "byte list \<Rightarrow> (ostream \<Rightarrow> ostream) list \<Rightarrow> ostream \<Rightarrow> ostream" where
  "separated sep [] os = os"
| "separated sep [f] os = f os"
| "separated sep (f # g # fs) os = separated sep (g # fs) (put_text sep (f os))"

definition enclosed :: "string \<Rightarrow> string \<Rightarrow> (ostream \<Rightarrow> ostream) \<Rightarrow> ostream \<Rightarrow> ostream" where
  "enclosed l r f os = put_text (str r) (f (put_text (str l) os))"

definition quoted :: "byte list \<Rightarrow> byte list" where
  "quoted s = [34] @ s @ [34]"

definition put_pair :: "byte list \<Rightarrow> (ostream \<Rightarrow> ostream) \<Rightarrow> ostream \<Rightarrow> ostream" where
  "put_pair k f = enclosed ''('' '')'' (\<lambda>os. f (put_text (k @ str '':'') os))"

fun serialize_plain :: "printers \<Rightarrow> endian \<Rightarrow> object \<Rightarrow> ostream \<Rightarrow> ostream" where
  "serialize_plain p h (OTuple v) = enclosed ''{'' ''}'' (separated (str '','') (map (serialize_plain p h) v))"
| "serialize_plain p h (OVector v) = enclosed ''['' '']'' (separated (str '','') (map (serialize_plain p h) v))"
| "serialize_plain p h (ODeque v) = enclosed ''<'' ''>'' (separated (str '','') (map (serialize_plain p h) v))"
| "serialize_plain p h (OAttrMap m) = enclosed ''#('' '')''
     (separated (str '','') (map (\<lambda>a. put_pair (show_dec (fst a)) (serialize_plain p h (snd a))) m))"
| "serialize_plain p h (OAttr k v) = put_pair (show_dec k) (serialize_plain p h v)"
| "serialize_plain p h (OParamMap m) = enclosed ''%('' '')''
     (separated (str '','') (map (\<lambda>a. put_pair (quoted (fst a)) (serialize_plain p h (snd a))) m))"
| "serialize_plain p h (OParam k v) = put_pair (quoted k) (serialize_plain p h v)"
| "serialize_plain p h (OPropMap m) = enclosed ''$('' '')''
     (separated (str '','') (map (\<lambda>a. put_pair (quoted (obis_to_string (fst a))) (serialize_plain p h (snd a))) m))"
| "serialize_plain p h (OProp k v) = put_pair (quoted (obis_to_string k) @ str ''obis'') (serialize_plain p h v)"
| "serialize_plain p h obj = put_value p h obj"

definition to_plain :: "printers \<Rightarrow> endian \<Rightarrow> object \<Rightarrow> byte list" where
  "to_plain p h obj = fst (serialize_plain p h obj ([], True))"

section \<open>A stream that fails\<close>

lemma put_text_bad [simp]: "put_text s (t, False) = (t, False)"
  by (simp add: put_text_def)

lemma put_value_bad: "put_value p h obj (t, False) = (t, False)"
  by (auto simp: put_value_def put_severity_def set_failbit_def split: option.split object.split)

lemma separated_bad: "\<forall>f \<in> set fs. f (t, False) = (t, False) \<Longrightarrow> separated sep fs (t, False) = (t, False)"
  by (induction sep fs "(t, False)" rule: separated.induct) simp_all

lemma enclosed_bad: "f (t, False) = (t, False) \<Longrightarrow> enclosed l r f (t, False) = (t, False)"
  by (simp add: enclosed_def)

lemma serialize_plain_bad: "serialize_plain p h obj (t, False) = (t, False)"
proof (induction obj rule: serialize_plain.induct)
  case (1 p h v)
  then show ?case by (simp add: enclosed_bad separated_bad)
next
  case (2 p h v)
  then show ?case by (simp add: enclosed_bad separated_bad)
next
  case (3 p h v)
  then show ?case by (simp add: enclosed_bad separated_bad)
next
  case (4 p h m)
  then show ?case by (auto simp: put_pair_def intro!: enclosed_bad separated_bad)
next
  case (5 p h k v)
  then show ?case by (auto simp: put_pair_def intro!: enclosed_bad)
next
  case (6 p h m)
  then show ?case by (auto simp: put_pair_def intro!: enclosed_bad separated_bad)
next
  case (7 p h k v)
  then show ?case by (auto simp: put_pair_def intro!: enclosed_bad)
next
  case (8 p h m)
  then show ?case by (auto simp: put_pair_def intro!: enclosed_bad separated_bad)
next
  case (9 p h k v)
  then show ?case by (auto simp: put_pair_def intro!: enclosed_bad)
qed (simp_all add: put_value_bad)

lemma separated_cut:
  assumes "\<And>os. snd (g os) = False" "\<And>f t. f \<in> set gs \<Longrightarrow> f (t, False) = (t, False)"
  shows "separated sep (fs @ g # gs) os = separated sep (fs @ [g]) os \<and> snd (separated sep (fs @ [g]) os) = False"
proof (induction fs arbitrary: os)
  case Nil
  have g: "g os = (fst (g os), False)" using assms(1) [of os] by (cases "g os") simp
  show ?case
  proof (cases gs)
    case (Cons f fs)
    have "separated sep (f # fs) (fst (g os), False) = (fst (g os), False)"
      by (rule separated_bad) (use assms(2) Cons in auto)
    with g Cons show ?thesis by (metis append_Nil put_text_bad separated.simps(2,3) snd_conv)
  qed (use assms(1) in simp)
next
  case (Cons f fs)
  then show ?case by (cases fs) simp_all
qed

text \<open>A severity without a name ends the output: whatever follows it in a vector, the closing bracket
  included, is not printed.\<close>

theorem severity_truncates:
  assumes "severity_text s = None"
  shows "to_plain p h (OVector (xs @ OSeverity s # ys)) = to_plain p h (OVector (xs @ OSeverity s # zs))"
proof -
  let ?w = "serialize_plain p h"
  have bad: "snd (?w (OSeverity s) os) = False \<and> fst (?w (OSeverity s) os) = fst os" for os
    using assms by (simp add: put_value_def show_number_def show_value_def put_severity_def set_failbit_def)
  have "separated sep (map ?w (xs @ OSeverity s # us)) os = separated sep (map ?w (xs @ [OSeverity s])) os \<and>
      snd (separated sep (map ?w (xs @ [OSeverity s])) os) = False" for sep os us
    using separated_cut [where g = "?w (OSeverity s)" and gs = "map ?w us" and sep = sep and fs = "map ?w xs" and os = os]
      bad serialize_plain_bad by (metis (no_types, lifting) imageE list.map(2) list.set_map map_append map_is_Nil_conv)
  then show ?thesis by (simp add: to_plain_def enclosed_def)
qed

theorem severity_truncates_witness:
  "\<forall>p h. to_plain p h (OVector [OBool True, OSeverity 6, OBool False]) = to_plain p h (OVector [OBool True, OSeverity 6])"
  using severity_truncates [of 6 _ _ "[OBool True]" "[OBool False]" "[]"]
  by (simp add: severity_text_def del: serialize_plain.simps)

end
