(* ===== verification/Json.thy ===== *)
theory Json
  imports Object Utf8
begin

unbundle bit_operations_syntax

text \<open>
  The JSON parser: \<^verbatim>\<open>src/parse/src/json/json_tokenizer.cpp\<close>, \<^verbatim>\<open>json_symbol.cpp\<close>, \<^verbatim>\<open>json_parser.cpp\<close>,
  \<^verbatim>\<open>include/cyng/parse/json/json_parser.h\<close> and \<^verbatim>\<open>json.cpp\<close>.  Bytes go through the UTF-8 decoder to the
  tokenizer, whose symbols drive a parser with two stacks; a complete value is passed to the callback.

  The conversion of UTF-32 text to UTF-8 and \<^verbatim>\<open>lexical_cast\<close> are Boost's; they are parameters.  The stacks
  are lists with the top at the head.  The line counter is used in messages only and is left out.
\<close>

section \<open>Symbols\<close>

datatype symbol_type =
  SYM_EOF | UNKNOWN | STRING | LITERAL | NUMBER | FLOAT | BOOLEAN | NOTHING | SYMBOL | WS

datatype symbol = Symbol (sym_type: symbol_type) (sym_value: "byte list")

record json_env =
  to_u8 :: "u32 list \<Rightarrow> byte list result"
  u8_error :: "byte list"
  lexical_i64 :: "byte list \<Rightarrow> u64 option"
  lexical_double :: "byte list \<Rightarrow> u64 option"

text \<open>
  What is asked of the conversion: on code points that have a UTF-8 form of at most four bytes and are
  not surrogates it gives that form.
\<close>

definition scalar_values :: "u32 list \<Rightarrow> bool" where
  "scalar_values cs \<longleftrightarrow> (\<forall>c \<in> set cs. c < 0xD800 \<or> (0xE000 \<le> c \<and> c < 0x110000))"

definition converts :: "(u32 list \<Rightarrow> byte list result) \<Rightarrow> bool" where
  "converts u8 \<longleftrightarrow> (\<forall>cs. scalar_values cs \<longrightarrow> u8 cs = encode_all Release cs)"

section \<open>The tokenizer\<close>

datatype tstate = IN_ERROR | IN_START | IN_STRING | IN_LITERAL | IN_NUMBER | IN_FRACTION | IN_EXPONENT | IN_DIGITS | IN_ESCAPE | IN_UNICODE

record tokenizer =
  tk_state :: tstate
  tk_buffer :: "u32 list"

definition tokenizer_init :: tokenizer where
  "tokenizer_init = \<lparr>tk_state = IN_START, tk_buffer = []\<rparr>"

text \<open>
  A step gives the symbols passed to the callback, and the tokenizer with the flag \<open>advance\<close> (the code
  point is used up) or the exception the conversion of the buffer threw.
\<close>

type_synonym tstep = "symbol list \<times> (tokenizer \<times> bool) result"

definition goto :: "tokenizer \<Rightarrow> tstate \<Rightarrow> bool \<Rightarrow> tstep" where
  "goto t s advance = ([], Inr (t\<lparr>tk_state := s\<rparr>, advance))"

definition append_goto :: "tokenizer \<Rightarrow> u32 list \<Rightarrow> tstate \<Rightarrow> tstep" where
  "append_goto t cs s = ([], Inr (t\<lparr>tk_state := s, tk_buffer := tk_buffer t @ cs\<rparr>, True))"

text \<open>Callback with the buffer as a symbol, and a cleared buffer.\<close>

definition emit_buffer :: "json_env \<Rightarrow> tokenizer \<Rightarrow> symbol_type \<Rightarrow> tstate \<Rightarrow> bool \<Rightarrow> tstep" where
  "emit_buffer e t ty s advance =
     (case to_u8 e (tk_buffer t) of
        Inl f \<Rightarrow> ([], Inl f)
      | Inr v \<Rightarrow> ([Symbol ty v], Inr (t\<lparr>tk_state := s, tk_buffer := []\<rparr>, advance)))"

definition cp :: "char \<Rightarrow> u32" where
  "cp c = ucast (byte_of_char c)"

definition is_digit :: "u32 \<Rightarrow> bool" where
  "is_digit c \<longleftrightarrow> 48 \<le> c \<and> c \<le> 57"

definition is_hex_cp :: "u32 \<Rightarrow> bool" where
  "is_hex_cp c \<longleftrightarrow> is_digit c \<or> (97 \<le> c \<and> c \<le> 102) \<or> (65 \<le> c \<and> c \<le> 70)"

definition state_start :: "tokenizer \<Rightarrow> u32 \<Rightarrow> tstep" where
  "state_start t c =
     (if c \<in> {cp CHR '','', cp CHR '':'', cp CHR ''['', cp CHR '']'', cp CHR ''{'', cp CHR ''}''}
      then ([Symbol SYMBOL [ucast c]], Inr (t, True))
      else if c \<in> {32, 10, 13, 9} then ([], Inr (t, True))
      else if c = 34 then goto t IN_STRING True
      else if c = 48 then goto t IN_EXPONENT True
      else if c = 45 \<or> is_digit c then append_goto t [c] IN_NUMBER
      else append_goto t [c] IN_LITERAL)"

definition state_string :: "json_env \<Rightarrow> tokenizer \<Rightarrow> u32 \<Rightarrow> tstep" where
  "state_string e t c =
     (if c = 34 then emit_buffer e t STRING IN_START True
      else if c = 92 then goto t IN_ESCAPE True
      else append_goto t [c] (tk_state t))"

text \<open>
  A literal that is no keyword becomes a string; when its conversion throws, the text of the exception
  takes its place.
\<close>

definition build_literal :: "json_env \<Rightarrow> u32 list \<Rightarrow> symbol result" where
  "build_literal e buf =
     (if buf = map cp ''null'' then rbind (to_u8 e buf) (\<lambda>v. Inr (Symbol NOTHING v))
      else if buf = map cp ''true'' \<or> buf = map cp ''false'' then rbind (to_u8 e buf) (\<lambda>v. Inr (Symbol BOOLEAN v))
      else (case to_u8 e buf of
          Inr v \<Rightarrow> Inr (Symbol STRING v)
        | Inl Exception \<Rightarrow> Inr (Symbol STRING (u8_error e))
        | Inl f \<Rightarrow> Inl f))"

definition end_literal :: "json_env \<Rightarrow> tokenizer \<Rightarrow> bool \<Rightarrow> tstep" where
  "end_literal e t advance =
     (case build_literal e (tk_buffer t) of
        Inl f \<Rightarrow> ([], Inl f)
      | Inr s \<Rightarrow> ([s], Inr (t\<lparr>tk_state := IN_START, tk_buffer := []\<rparr>, advance)))"

definition state_literal :: "json_env \<Rightarrow> tokenizer \<Rightarrow> u32 \<Rightarrow> tstep" where
  "state_literal e t c =
     (if c \<in> {32, 10, 13, 9} then end_literal e t True
      else if c \<in> {34, 39, cp CHR ''['', cp CHR '']'', cp CHR ''{'', cp CHR ''}'', cp CHR '','', cp CHR '':''}
      then end_literal e t False
      else append_goto t [c] (tk_state t))"

text \<open>An unknown escape sequence is dropped.  The code point 1 marks the start of a \<^verbatim>\<open>\u\<close> sequence.\<close>

definition state_escape :: "tokenizer \<Rightarrow> u32 \<Rightarrow> tstep" where
  "state_escape t c =
     (if c \<in> {34, 92, 47} then append_goto t [c] IN_STRING
      else if c = cp CHR ''b'' then append_goto t [8] IN_STRING
      else if c = cp CHR ''f'' then append_goto t [12] IN_STRING
      else if c = cp CHR ''n'' then append_goto t [10] IN_STRING
      else if c = cp CHR ''r'' then append_goto t [13] IN_STRING
      else if c = cp CHR ''t'' then append_goto t [9] IN_STRING
      else if c = cp CHR ''u'' then append_goto t [1] IN_UNICODE
      else goto t IN_STRING True)"

text \<open>
  The digits after the last mark: \<^verbatim>\<open>find_last_of\<close>, and four digits read as a hexadecimal number.  There is
  a mark in the buffer whenever the state is \<open>IN_UNICODE\<close>.
\<close>

definition hex_value :: "u32 \<Rightarrow> u32" where
  "hex_value c = (if is_digit c then c - 48 else if 97 \<le> c then c - 87 else c - 55)"

definition hex_number :: "u32 list \<Rightarrow> u32" where
  "hex_number cs = foldl (\<lambda>n c. 16 * n + hex_value c) 0 cs"

definition convert_to_unicode :: "tokenizer \<Rightarrow> tstep" where
  "convert_to_unicode t =
     (let buf = tk_buffer t;
          sub = rev (takeWhile (\<lambda>c. c \<noteq> 1) (rev buf));
          pos = length buf - length sub - 1 in
      if length buf - pos > 4
      then ([], Inr (t\<lparr>tk_state := IN_STRING, tk_buffer := take pos buf @ [hex_number sub]\<rparr>, True))
      else ([], Inr (t, True)))"

definition state_unicode :: "tokenizer \<Rightarrow> u32 \<Rightarrow> tstep" where
  "state_unicode t c =
     (if is_hex_cp c then convert_to_unicode (t\<lparr>tk_buffer := tk_buffer t @ [c]\<rparr>)
      else goto t IN_ERROR True)"

definition state_number :: "json_env \<Rightarrow> tokenizer \<Rightarrow> u32 \<Rightarrow> tstep" where
  "state_number e t c =
     (if c = 46 then append_goto t [c] IN_FRACTION
      else if is_digit c then append_goto t [c] (tk_state t)
      else if c = 101 \<or> c = 69 then append_goto t [46, 48, c] IN_EXPONENT
      else emit_buffer e t NUMBER IN_START False)"

definition state_fraction :: "json_env \<Rightarrow> tokenizer \<Rightarrow> u32 \<Rightarrow> tstep" where
  "state_fraction e t c =
     (if is_digit c then append_goto t [c] (tk_state t)
      else if c = 101 \<or> c = 69 then append_goto t [c] IN_EXPONENT
      else emit_buffer e t FLOAT IN_START False)"

definition state_exponent :: "tokenizer \<Rightarrow> u32 \<Rightarrow> tstep" where
  "state_exponent t c = (if c = 45 \<or> c = 43 then append_goto t [c] IN_DIGITS else goto t IN_DIGITS False)"

definition state_digits :: "json_env \<Rightarrow> tokenizer \<Rightarrow> u32 \<Rightarrow> tstep" where
  "state_digits e t c =
     (if is_digit c then append_goto t [c] (tk_state t) else emit_buffer e t FLOAT IN_START False)"

definition tk_put :: "build \<Rightarrow> json_env \<Rightarrow> tokenizer \<Rightarrow> u32 \<Rightarrow> tstep" where
  "tk_put b e t c =
     (case tk_state t of
        IN_START \<Rightarrow> state_start t c
      | IN_STRING \<Rightarrow> state_string e t c
      | IN_LITERAL \<Rightarrow> state_literal e t c
      | IN_ESCAPE \<Rightarrow> state_escape t c
      | IN_NUMBER \<Rightarrow> state_number e t c
      | IN_FRACTION \<Rightarrow> state_fraction e t c
      | IN_EXPONENT \<Rightarrow> state_exponent t c
      | IN_DIGITS \<Rightarrow> state_digits e t c
      | IN_UNICODE \<Rightarrow> state_unicode t c
      | IN_ERROR \<Rightarrow> ([], rbind (boost_assert b False) (\<lambda>_. Inr (t, True))))"

section \<open>The parser\<close>

datatype pstate = ARRAY | OBJECT | VALUE

record stacks =
  states :: "pstate list"
  operands :: "object list"

definition push :: "object \<Rightarrow> stacks \<Rightarrow> stacks" where
  "push obj p = p\<lparr>operands := obj # operands p\<rparr>"

definition swap_state :: "pstate \<Rightarrow> stacks \<Rightarrow> stacks" where
  "swap_state s p = (if states p \<noteq> [] then p\<lparr>states := s # tl (states p)\<rparr> else p)"

definition build_object :: "build \<Rightarrow> stacks \<Rightarrow> stacks result" where
  "build_object b p =
     rbind (defined_if (states p \<noteq> [])) (\<lambda>_.
     if hd (states p) = VALUE then
       if length (operands p) > 2 then
         (let obj = hd (operands p); rest = tl (operands p) in
          rbind (boost_assert b (type_tag (hd rest) = 14)) (\<lambda>_.
          let name = value_cast cast_string (hd rest) [] in
          Inr (swap_state OBJECT (p\<lparr>operands := OParam name obj # tl rest\<rparr>))))
       else Inr (swap_state OBJECT p)
     else Inr p)"

text \<open>The values above the mark, the topmost first.\<close>

definition above_mark :: "object list \<Rightarrow> object list" where
  "above_mark vs = takeWhile (\<lambda>obj. type_tag obj \<noteq> 61) vs"

definition below_values :: "object list \<Rightarrow> object list" where
  "below_values vs = dropWhile (\<lambda>obj. type_tag obj \<noteq> 61) vs"

text \<open>\<^verbatim>\<open>swap(vec)\<close> and \<^verbatim>\<open>swap(pm)\<close>: the container takes the place of the mark.\<close>

definition swap_mark :: "build \<Rightarrow> object \<Rightarrow> stacks \<Rightarrow> stacks result" where
  "swap_mark b obj p =
     rbind (defined_if (b = Debug \<longrightarrow> operands p \<noteq> [])) (\<lambda>_.
     rbind (boost_assert b (type_tag (hd (operands p)) = 61)) (\<lambda>_.
     rbind (defined_if (operands p \<noteq> [])) (\<lambda>_.
     Inr (p\<lparr>operands := obj # tl (operands p)\<rparr>))))"

text \<open>The end of a container: pop the state; the outermost container goes to the callback.\<close>

definition pop_state :: "build \<Rightarrow> stacks \<Rightarrow> object list \<times> stacks result" where
  "pop_state b p =
     (case states p of
        [] \<Rightarrow> ([], Inl Undefined)
      | _ # ss \<Rightarrow>
          if ss = [] then
            (case rbind (boost_assert b (length (operands p) = 1)) (\<lambda>_. defined_if (operands p \<noteq> [])) of
               Inl f \<Rightarrow> ([], Inl f)
             | Inr _ \<Rightarrow> ([hd (operands p)], Inr (p\<lparr>states := ss, operands := tl (operands p)\<rparr>)))
          else ([], Inr (p\<lparr>states := ss\<rparr>)))"

definition build_array :: "build \<Rightarrow> stacks \<Rightarrow> object list \<times> stacks result" where
  "build_array b p =
     (let vec = above_mark (operands p) in
      after ([], rbind (boost_assert b (operands p \<noteq> [])) (\<lambda>_.
                 swap_mark b (OVector (rev vec)) (p\<lparr>operands := below_values (operands p)\<rparr>)))
        (pop_state b))"

definition build_member :: "build \<Rightarrow> stacks \<Rightarrow> object list \<times> stacks result" where
  "build_member b p =
     (let param = (\<lambda>obj. case cast_param obj of Some kv \<Rightarrow> kv | None \<Rightarrow> ([], ONull));
          pm = foldl (\<lambda>m obj. map_emplace (fst (param obj)) (snd (param obj)) m) [] (above_mark (operands p)) in
      after ([], rbind (boost_assert b (operands p \<noteq> [])) (\<lambda>_.
                 swap_mark b (OParamMap pm) (p\<lparr>operands := below_values (operands p)\<rparr>)))
        (pop_state b))"

definition process_symbol :: "build \<Rightarrow> stacks \<Rightarrow> byte list \<Rightarrow> object list \<times> stacks result" where
  "process_symbol b p v =
     after ([], rbind (boost_assert b (length v = 1)) (\<lambda>_. throw_unless (v \<noteq> []))) (\<lambda>_.
     let c = hd v in
     if c = byte_of_char CHR ''['' then ([], Inr (p\<lparr>states := ARRAY # states p, operands := OEod # operands p\<rparr>))
     else if c = byte_of_char CHR ''{'' then ([], Inr (p\<lparr>states := OBJECT # states p, operands := OEod # operands p\<rparr>))
     else if c = byte_of_char CHR '':'' then
       ([], rbind (defined_if (b = Debug \<longrightarrow> states p \<noteq> [])) (\<lambda>_.
            rbind (boost_assert b (hd (states p) = OBJECT)) (\<lambda>_. Inr (swap_state VALUE p))))
     else if c = byte_of_char CHR '']'' then build_array b p
     else if c = byte_of_char CHR ''}'' then after ([], build_object b p) (build_member b)
     else if c = byte_of_char CHR '','' then ([], build_object b p)
     else ([], Inr p))"

definition process_number :: "json_env \<Rightarrow> stacks \<Rightarrow> byte list \<Rightarrow> stacks" where
  "process_number e p v = push (case lexical_i64 e v of Some n \<Rightarrow> OI64 n | None \<Rightarrow> OString v) p"

definition process_float :: "json_env \<Rightarrow> stacks \<Rightarrow> byte list \<Rightarrow> stacks" where
  "process_float e p v = push (case lexical_double e v of Some n \<Rightarrow> ODouble n | None \<Rightarrow> OString v) p"

definition next_symbol :: "build \<Rightarrow> json_env \<Rightarrow> stacks \<Rightarrow> symbol \<Rightarrow> object list \<times> stacks result" where
  "next_symbol b e p s =
     (case sym_type s of
        STRING \<Rightarrow> ([], Inr (push (OString (sym_value s)) p))
      | NUMBER \<Rightarrow> ([], Inr (process_number e p (sym_value s)))
      | FLOAT \<Rightarrow> ([], Inr (process_float e p (sym_value s)))
      | BOOLEAN \<Rightarrow> ([], Inr (push (OBool (sym_value s = str ''true'')) p))
      | NOTHING \<Rightarrow> ([], Inr (push ONull p))
      | SYMBOL \<Rightarrow> process_symbol b p (sym_value s)
      | _ \<Rightarrow> ([], rbind (boost_assert b False) (\<lambda>_. Inr p)))"

fun next_symbols :: "build \<Rightarrow> json_env \<Rightarrow> stacks \<Rightarrow> symbol list \<Rightarrow> object list \<times> stacks result" where
  "next_symbols b e p [] = ([], Inr p)"
| "next_symbols b e p (s # ss) = after (next_symbol b e p s) (\<lambda>p'. next_symbols b e p' ss)"

section \<open>Code points and bytes\<close>

record parser =
  decoder :: u8_to_u32
  lexer :: tokenizer
  stack :: stacks
  counter :: nat

definition parser_init :: parser where
  "parser_init = \<lparr>decoder = u8_to_u32_init, lexer = tokenizer_init, stack = \<lparr>states = [], operands = []\<rparr>, counter = 0\<rparr>"

text \<open>One call of the tokenizer; its symbols reach the parser before it returns.\<close>

definition tk_step :: "build \<Rightarrow> json_env \<Rightarrow> parser \<Rightarrow> u32 \<Rightarrow> object list \<times> (parser \<times> bool) result" where
  "tk_step b e s c =
     (case tk_put b e (lexer s) c of (syms, r) \<Rightarrow>
      after (next_symbols b e (stack s) syms) (\<lambda>p.
      ([], rbind r (\<lambda>(t, advance). Inr (s\<lparr>lexer := t, stack := p\<rparr>, advance)))))"

text \<open>The tokenizer may reject a code point up to 32 times.\<close>

fun next_code_point :: "build \<Rightarrow> json_env \<Rightarrow> nat \<Rightarrow> parser \<Rightarrow> u32 \<Rightarrow> object list \<times> parser result" where
  "next_code_point b e limit s c =
     after (tk_step b e s c) (\<lambda>(s', advance).
     if advance then ([], Inr s')
     else (case limit of 0 \<Rightarrow> ([], Inr s') | Suc n \<Rightarrow> next_code_point b e n s' c))"

fun next_code_points :: "build \<Rightarrow> json_env \<Rightarrow> parser \<Rightarrow> u32 list \<Rightarrow> object list \<times> parser result" where
  "next_code_points b e s [] = ([], Inr s)"
| "next_code_points b e s (c # cs) =
     after (next_code_point b e 32 s c) (\<lambda>s'. next_code_points b e s' cs)"

definition parser_put :: "build \<Rightarrow> json_env \<Rightarrow> parser \<Rightarrow> byte \<Rightarrow> object list \<times> parser result" where
  "parser_put b e s c =
     (case sanitizer_put (decoder s) c of
        (cs, Inr d) \<Rightarrow> next_code_points b e (s\<lparr>decoder := d\<rparr>) cs
      | (cs, Inl f) \<Rightarrow> ([], Inl f))"

fun parser_puts :: "build \<Rightarrow> json_env \<Rightarrow> parser \<Rightarrow> byte list \<Rightarrow> object list \<times> parser result" where
  "parser_puts b e s [] = ([], Inr s)"
| "parser_puts b e s (c # cs) = after (parser_put b e s c) (\<lambda>s'. parser_puts b e s' cs)"

text \<open>
  The loop of \<^verbatim>\<open>read\<close>: up to three bytes are held back as a possible byte order mark.  The flag and the
  bytes held back are variables of \<^verbatim>\<open>read\<close>, the counter is not.
\<close>

record reading =
  bom :: bool
  trailer :: "byte list"
  machine :: parser

definition read_byte :: "build \<Rightarrow> json_env \<Rightarrow> reading \<Rightarrow> byte \<Rightarrow> object list \<times> reading result" where
  "read_byte b e r c =
     (let n = counter (machine r); held = (bom r \<or> (n = 0 \<and> c = 0xEF)) in
      after
        (if held then
           (let tr = (trailer r)[n := c] in
            if n = 2 then
              after (if is_bom (tr ! 0) (tr ! 1) (tr ! 2) then ([], Inr (machine r))
                     else parser_puts b e (machine r) [tr ! 0, tr ! 1, tr ! 2])
                (\<lambda>m. ([], Inr (r\<lparr>bom := False, trailer := tr, machine := m\<rparr>)))
            else ([], Inr (r\<lparr>bom := True, trailer := tr\<rparr>)))
         else after (parser_put b e (machine r) c) (\<lambda>m. ([], Inr (r\<lparr>machine := m\<rparr>))))
        (\<lambda>r'. ([], Inr (r'\<lparr>machine := (machine r')\<lparr>counter := n + 1\<rparr>\<rparr>))))"

fun read_bytes :: "build \<Rightarrow> json_env \<Rightarrow> reading \<Rightarrow> byte list \<Rightarrow> object list \<times> reading result" where
  "read_bytes b e r [] = ([], Inr r)"
| "read_bytes b e r (c # cs) = after (read_byte b e r c) (\<lambda>r'. read_bytes b e r' cs)"

definition json_read :: "build \<Rightarrow> json_env \<Rightarrow> parser \<Rightarrow> byte list \<Rightarrow> object list \<times> parser result" where
  "json_read b e s cs =
     after (read_bytes b e \<lparr>bom = False, trailer = [0, 0, 0], machine = s\<rparr> cs) (\<lambda>r. ([], Inr (machine r)))"

interpretation json_puts: feeder "parser_put b e" "parser_puts b e" for b e
  by unfold_locales simp_all

interpretation json_bytes: feeder "read_byte b e" "read_bytes b e" for b e
  by unfold_locales simp_all

interpretation json_points: feeder "next_code_point b e 32" "next_code_points b e" for b e
  by unfold_locales simp_all

interpretation json_symbols: feeder "next_symbol b e" "next_symbols b e" for b e
  by unfold_locales simp_all

text \<open>\<^verbatim>\<open>parse\<close> drops its result; \<^verbatim>\<open>parse_file\<close> returns the last value of the file.\<close>

definition parse :: "build \<Rightarrow> json_env \<Rightarrow> byte list \<Rightarrow> object result" where
  "parse b e inp = (case json_read b e parser_init inp of (_, Inl f) \<Rightarrow> Inl f | (_, Inr _) \<Rightarrow> Inr ONull)"

definition parse_file :: "build \<Rightarrow> json_env \<Rightarrow> byte list option \<Rightarrow> object result" where
  "parse_file b e file = (case file of
      None \<Rightarrow> Inr ONull
    | Some inp \<Rightarrow> (case json_read b e parser_init inp of
        (_, Inl f) \<Rightarrow> Inl f | (objs, Inr _) \<Rightarrow> Inr (if objs = [] then ONull else last objs)))"

end
