(* ===== verification/Json_Text.thy ===== *)
theory Json_Text
  imports Plain Json
begin

unbundle bit_operations_syntax

text \<open>
  The JSON serializer, \<^verbatim>\<open>src/io/src/serializer/json.cpp\<close> and \<^verbatim>\<open>include/cyng/io/serializer/json.hpp\<close>, and
  what the JSON parser makes of its output.
\<close>

section \<open>The serializer\<close>

text \<open>
  Calendar time and the endpoints of Boost.Asio are printed by the libraries: \<open>to_time_t\<close> gives the
  seconds of an instant, \<open>js_time\<close> its text.
\<close>

record json_printers = printers +
  js_time_t :: "u64 \<Rightarrow> u64"
  js_time :: "u64 \<Rightarrow> byte list"
  js_endpoint :: "u16 \<Rightarrow> byte list \<Rightarrow> byte list"

definition backslash :: "char \<Rightarrow> byte list" where
  "backslash c = [92, byte_of_char c]"

definition json_char :: "u32 \<Rightarrow> byte list" where
  "json_char c =
     (if c = 7 then backslash CHR ''a''
      else if c = 8 then backslash CHR ''b''
      else if c = 12 then backslash CHR ''f''
      else if c = 10 then backslash CHR ''n''
      else if c = 13 then backslash CHR ''r''
      else if c = 9 then backslash CHR ''t''
      else if c = 11 then backslash CHR ''v''
      else if c = 92 then [92, 92]
      else if c = 39 then [92, 39]
      else if c = 34 then [92, 34]
      else if c > 30 \<and> c < 127 then [ucast c]
      else backslash CHR ''u'' @ setw0 4 (show_base 16 (unat c)))"

definition json_string :: "build \<Rightarrow> byte list \<Rightarrow> byte list result" where
  "json_string b s = rbind (iterate b s) (\<lambda>cs. Inr (quoted (concat (map json_char cs))))"

definition json_severity :: "byte \<Rightarrow> byte list" where
  "json_severity s = quoted
     (if s = severity_code LEVEL_TRACE then str ''TRACE''
      else if s = severity_code LEVEL_DEBUG then str ''DEBUG''
      else if s = severity_code LEVEL_INFO then str ''INFO''
      else if s = severity_code LEVEL_WARNING then str ''WARNING''
      else if s = severity_code LEVEL_ERROR then str ''ERROR''
      else if s = severity_code LEVEL_FATAL then str ''FATAL''
      else [])"

text \<open>
  The values that are neither strings nor containers; a type without a serializer of its own is printed
  with its stream operator between quotation marks.
\<close>

definition json_value :: "'a json_printers_scheme \<Rightarrow> endian \<Rightarrow> object \<Rightarrow> byte list option" where
  "json_value p h obj = (case obj of
      OBool v \<Rightarrow> Some (show_bool v)
    | ONull \<Rightarrow> Some (str ''null'')
    | OI8 v \<Rightarrow> Some (show_int (sint v))
    | OI16 v \<Rightarrow> Some (show_int (sint v))
    | OI32 v \<Rightarrow> Some (show_int (sint v))
    | OI64 v \<Rightarrow> Some (show_int (sint v))
    | OU8 v \<Rightarrow> Some (show_dec v)
    | OU16 v \<Rightarrow> Some (show_dec v)
    | OU32 v \<Rightarrow> Some (show_dec v)
    | OU64 v \<Rightarrow> Some (show_dec v)
    | ODouble v \<Rightarrow> Some (pr_double p v)
    | OBuffer v \<Rightarrow> Some (quoted (show_buffer v))
    | OChrono t v \<Rightarrow>
        if t = TimePoint then
          Some (if js_time_t p v = 0 then str ''null'' else quoted (js_time p v))
        else Some (quoted (pr_chrono p t v))
    | OPath v \<Rightarrow> Some v
    | OSeverity s \<Rightarrow> Some (json_severity s)
    | OEndpoint t port address \<Rightarrow> Some (quoted (js_endpoint p port address))
    | _ \<Rightarrow> map_option quoted (show_value (printers.truncate p) h obj))"

text \<open>Writing may fault in the middle, in the iterator over the code points of a string.\<close>

type_synonym writer = "ostream \<Rightarrow> ostream result"

definition w_text :: "byte list \<Rightarrow> writer" where
  "w_text s os = Inr (put_text s os)"

definition w_then :: "writer \<Rightarrow> writer \<Rightarrow> writer" where
  "w_then f g os = rbind (f os) g"

fun w_separated :: "byte list \<Rightarrow> writer list \<Rightarrow> writer" where
  "w_separated sep [] = w_text []"
| "w_separated sep [f] = f"
| "w_separated sep (f # g # fs) = w_then f (w_then (w_text sep) (w_separated sep (g # fs)))"

definition w_enclosed :: "string \<Rightarrow> string \<Rightarrow> writer \<Rightarrow> writer" where
  "w_enclosed l r f = w_then (w_text (str l)) (w_then f (w_text (str r)))"

text \<open>Attributes and parameters are put in braces where they stand alone.\<close>

definition w_braced :: "object \<Rightarrow> writer \<Rightarrow> writer" where
  "w_braced obj f = (if type_tag obj = 49 \<or> type_tag obj = 51 then w_enclosed ''{'' ''}'' f else f)"

definition w_container :: "string \<Rightarrow> string \<Rightarrow> string \<Rightarrow> writer list \<Rightarrow> writer" where
  "w_container l sep r fs = (if fs = [] then w_text (str ''null'') else w_enclosed l r (w_separated (str sep) fs))"

fun serialize_json :: "build \<Rightarrow> 'a json_printers_scheme \<Rightarrow> endian \<Rightarrow> object \<Rightarrow> writer" where
  "serialize_json b p h (OVector v) =
     w_container ''['' '', '' '']'' (map (\<lambda>x. w_braced x (serialize_json b p h x)) v)"
| "serialize_json b p h (OTuple v) = w_container ''{'' '', '' ''}'' (map (serialize_json b p h) v)"
| "serialize_json b p h (OParam k v) =
     w_then (w_text (quoted k @ str '': '')) (w_braced v (serialize_json b p h v))"
| "serialize_json b p h (OParamMap m) =
     w_container ''{'' '','' ''}''
       (map (\<lambda>a. w_then (w_text (quoted (fst a) @ str '':'')) (serialize_json b p h (snd a))) m)"
| "serialize_json b p h (OProp k v) =
     w_then (w_text (quoted (obis_to_string k) @ str '': '')) (w_braced v (serialize_json b p h v))"
| "serialize_json b p h (OPropMap m) =
     w_container ''{'' '','' ''}''
       (map (\<lambda>a. w_then (w_text (quoted (obis_to_string (fst a)) @ str '':'')) (serialize_json b p h (snd a))) m)"
| "serialize_json b p h (OPrg v) =
     w_container ''['' '', '' '']'' (map (\<lambda>buf. w_text (quoted (show_buffer buf))) v)"
| "serialize_json b p h (OString s) = (\<lambda>os. rbind (json_string b s) (\<lambda>t. w_text t os))"
| "serialize_json b p h obj =
     (case json_value p h obj of
        Some t \<Rightarrow> w_text t
      | None \<Rightarrow> (\<lambda>os. Inr (enclosed [CHR 0x22] [CHR 0x22] (serialize_plain (printers.truncate p) h obj) os)))"

definition to_json :: "build \<Rightarrow> 'a json_printers_scheme \<Rightarrow> endian \<Rightarrow> object \<Rightarrow> byte list result" where
  "to_json b p h obj = rbind (serialize_json b p h obj ([], True)) (\<lambda>os. Inr (fst os))"


section \<open>Runs of the tokenizer and the parser\<close>

text \<open>
  Code points take the tokenizer and the stacks from one configuration to another; the decoder and the
  counter play no part.
\<close>

type_synonym config = "tokenizer \<times> stacks"

definition steps :: "build \<Rightarrow> json_env \<Rightarrow> config \<Rightarrow> u32 list \<Rightarrow> object list \<Rightarrow> config \<Rightarrow> bool" where
  "steps b e A cs os B \<longleftrightarrow> (\<forall>s. lexer s = fst A \<and> stack s = snd A \<longrightarrow>
     next_code_points b e s cs = (os, Inr (s\<lparr>lexer := fst B, stack := snd B\<rparr>)))"

lemma steps_Nil: "steps b e A [] [] A"
  by (cases A) (auto simp: steps_def)

lemma steps_append:
  "steps b e A cs os B \<Longrightarrow> steps b e B cs' os' C \<Longrightarrow> steps b e A (cs @ cs') (os @ os') C"
  by (simp add: steps_def json_points.read_append)

lemma steps_Cons:
  "steps b e A [c] os B \<Longrightarrow> steps b e B cs os' C \<Longrightarrow> steps b e A (c # cs) (os @ os') C"
  using steps_append [of b e A "[c]" os B cs os' C] by simp

lemma steps_silent:
  "steps b e A cs [] B \<Longrightarrow> steps b e B cs' os C \<Longrightarrow> steps b e A (cs @ cs') os C"
  using steps_append [of b e A cs "[]" B cs' os C] by simp

lemma steps_silent_Cons:
  "steps b e A [c] [] B \<Longrightarrow> steps b e B cs os C \<Longrightarrow> steps b e A (c # cs) os C"
  using steps_append [of b e A "[c]" "[]" B cs os C] by simp

lemma next_code_point_Suc: "next_code_point b e (Suc n) s c =
    after (tk_step b e s c) (\<lambda>(s', advance). if advance then ([], Inr s') else next_code_point b e n s' c)"
  by (subst next_code_point.simps) (simp cong: if_cong)

lemma next_code_point_0: "next_code_point b e 0 s c =
    after (tk_step b e s c) (\<lambda>(s', advance). ([], Inr s'))"
  by (subst next_code_point.simps) (simp add: if_distrib cong: if_cong)

declare next_code_point.simps [simp del] next_code_point_0 [simp]

lemma tk_step_ok:
  fixes s :: parser
  shows "tk_put b e (lexer s) c = (syms, Inr (t', a)) \<Longrightarrow> next_symbols b e (stack s) syms = (os, Inr p') \<Longrightarrow>
   tk_step b e s c = (os, Inr (s\<lparr>lexer := t', stack := p'\<rparr>, a))"
  by (simp add: tk_step_def)

text \<open>A code point that is taken, and one that is rejected once and then taken.\<close>

lemma step_take:
  assumes "tk_put b e t c = (syms, Inr (t', True))" "next_symbols b e p syms = (os, Inr p')"
  shows "steps b e (t, p) [c] os (t', p')"
  unfolding steps_def
proof (intro allI impI)
  fix s :: parser assume "lexer s = fst (t, p) \<and> stack s = snd (t, p)"
  then have "tk_step b e s c = (os, Inr (s\<lparr>lexer := t', stack := p'\<rparr>, True))"
    using tk_step_ok assms by simp
  then show "next_code_points b e s [c] = (os, Inr (s\<lparr>lexer := fst (t', p'), stack := snd (t', p')\<rparr>))"
    by (simp add: numeral_eq_Suc next_code_point_Suc)
qed

lemma step_retry:
  assumes "tk_put b e t c = (syms, Inr (t', False))" "next_symbols b e p syms = (os, Inr p')"
    and "tk_put b e t' c = (syms', Inr (t'', True))" "next_symbols b e p' syms' = (os', Inr p'')"
  shows "steps b e (t, p) [c] (os @ os') (t'', p'')"
  unfolding steps_def
proof (intro allI impI)
  fix s :: parser assume a: "lexer s = fst (t, p) \<and> stack s = snd (t, p)"
  let ?s' = "s\<lparr>lexer := t', stack := p'\<rparr>"
  have "tk_step b e s c = (os, Inr (?s', False))" using a assms tk_step_ok by simp
  moreover have "tk_step b e ?s' c = (os', Inr (?s'\<lparr>lexer := t'', stack := p''\<rparr>, True))"
    using assms tk_step_ok [of b e ?s'] by simp
  ultimately show "next_code_points b e s [c] = (os @ os', Inr (s\<lparr>lexer := fst (t'', p''), stack := snd (t'', p'')\<rparr>))"
    by (simp add: numeral_eq_Suc next_code_point_Suc)
qed

text \<open>The decoder and the counter of the parser take no part in a step.\<close>

lemma tk_step_other:
  "tk_step b e (s\<lparr>decoder := d\<rparr>) c = after (tk_step b e s c) (\<lambda>(s', a). ([], Inr (s'\<lparr>decoder := d\<rparr>, a)))"
  "tk_step b e (s\<lparr>counter := n\<rparr>) c = after (tk_step b e s c) (\<lambda>(s', a). ([], Inr (s'\<lparr>counter := n\<rparr>, a)))"
  by (auto simp: tk_step_def after_def rbind_def emit_def split: prod.splits sum.splits)

lemma after_cong: "(\<And>x. k x = k' x) \<Longrightarrow> after m k = after m k'"
  by presburger

lemma next_code_point_decoder:
  "next_code_point b e n (s\<lparr>decoder := d\<rparr>) c = after (next_code_point b e n s c) (\<lambda>s'. ([], Inr (s'\<lparr>decoder := d\<rparr>)))"
proof (induction n arbitrary: s)
  case 0
  then show ?case by (simp add: tk_step_other after_assoc split_beta)
next
  case (Suc n)
  show ?case
    by (simp only: next_code_point_Suc tk_step_other after_assoc)
      (rule after_cong, auto simp: Suc.IH)
qed

lemma next_code_point_counter:
  "next_code_point b e n (s\<lparr>counter := m\<rparr>) c = after (next_code_point b e n s c) (\<lambda>s'. ([], Inr (s'\<lparr>counter := m\<rparr>)))"
proof (induction n arbitrary: s)
  case 0
  then show ?case by (simp add: tk_step_other after_assoc split_beta)
next
  case (Suc n)
  show ?case
    by (simp only: next_code_point_Suc tk_step_other after_assoc)
      (rule after_cong, auto simp: Suc.IH)
qed

lemma next_code_points_decoder:
  "next_code_points b e (s\<lparr>decoder := d\<rparr>) cs = after (next_code_points b e s cs) (\<lambda>s'. ([], Inr (s'\<lparr>decoder := d\<rparr>)))"
  by (induction cs arbitrary: s) (simp_all add: next_code_point_decoder after_assoc)

lemma next_code_points_counter:
  "next_code_points b e (s\<lparr>counter := n\<rparr>) cs = after (next_code_points b e s cs) (\<lambda>s'. ([], Inr (s'\<lparr>counter := n\<rparr>)))"
  by (induction cs arbitrary: s) (simp_all add: next_code_point_counter after_assoc)

section \<open>ASCII text\<close>

definition ascii :: "byte list \<Rightarrow> bool" where
  "ascii bs \<longleftrightarrow> (\<forall>c \<in> set bs. c < 0x80)"

lemma ascii_simps [simp]: "ascii []" "ascii (c # bs) \<longleftrightarrow> c < 0x80 \<and> ascii bs" "ascii (xs @ ys) \<longleftrightarrow> ascii xs \<and> ascii ys"
  by (auto simp: ascii_def)

definition seen :: "byte list \<Rightarrow> u8_to_u32 \<Rightarrow> u8_to_u32" where
  "seen bs d = foldl (\<lambda>d c. d\<lparr>cp_value := ucast c\<rparr>) d bs"

lemma seen_simps [simp]: "seen [] d = d" "seen (c # bs) d = seen bs (d\<lparr>cp_value := ucast c\<rparr>)"
  by (simp_all add: seen_def)

lemma glyph_size_seen [simp]: "glyph_size (seen bs d) = glyph_size d"
  by (induction bs arbitrary: d) simp_all

lemma sanitizer_ascii:
  "c < 0x80 \<Longrightarrow> glyph_size d = 0 \<Longrightarrow> sanitizer_put d c = ([ucast c], Inr (d\<lparr>cp_value := ucast c\<rparr>))"
  by (auto simp: sanitizer_put_def put_u8_def word_less_nat_alt)

text \<open>The decoder passes ASCII on as it is.\<close>

lemma parser_puts_ascii:
  "ascii bs \<Longrightarrow> glyph_size (decoder s) = 0 \<Longrightarrow>
   parser_puts b e s bs = after (next_code_points b e s (map ucast bs)) (\<lambda>s'. ([], Inr (s'\<lparr>decoder := seen bs (decoder s)\<rparr>)))"
proof (induction bs arbitrary: s)
  case Nil
  then show ?case by simp
next
  case (Cons c bs)
  let ?d = "(decoder s)\<lparr>cp_value := ucast c\<rparr>"
  have "parser_puts b e s (c # bs) =
      after (next_code_point b e 32 s (ucast c)) (\<lambda>s'. parser_puts b e (s'\<lparr>decoder := ?d\<rparr>) bs)"
    using Cons.prems by (simp add: parser_put_def sanitizer_ascii next_code_point_decoder after_assoc)
  also have "\<dots> = after (next_code_point b e 32 s (ucast c)) (\<lambda>s'. after (next_code_points b e s' (map ucast bs))
      (\<lambda>s'. ([], Inr (s'\<lparr>decoder := seen bs ?d\<rparr>))))"
    using Cons.IH Cons.prems by (simp add: next_code_points_decoder after_assoc)
  finally show ?case by (simp add: after_assoc)
qed

lemma parser_puts_counter:
  "parser_puts b e (s\<lparr>counter := n\<rparr>) bs = after (parser_puts b e s bs) (\<lambda>s'. ([], Inr (s'\<lparr>counter := n\<rparr>)))"
proof (induction bs arbitrary: s)
  case Nil
  then show ?case by simp
next
  case (Cons c bs)
  have "parser_put b e (s\<lparr>counter := n\<rparr>) c = after (parser_put b e s c) (\<lambda>s'. ([], Inr (s'\<lparr>counter := n\<rparr>)))"
  proof -
    have "s\<lparr>counter := n, decoder := d\<rparr> = s\<lparr>decoder := d, counter := n\<rparr>" for d by simp
    then have "next_code_points b e (s\<lparr>counter := n, decoder := d\<rparr>) cs =
        after (next_code_points b e (s\<lparr>decoder := d\<rparr>) cs) (\<lambda>s'. ([], Inr (s'\<lparr>counter := n\<rparr>)))" for d cs
      using next_code_points_counter [of b e n "s\<lparr>decoder := d\<rparr>" cs] by metis
    then show ?thesis by (auto simp: parser_put_def split: prod.split sum.split)
  qed
  with Cons.IH show ?case by (simp add: after_assoc)
qed

text \<open>Without a byte that could start a mark, \<^verbatim>\<open>read\<close> puts one byte after the other.\<close>

lemma read_bytes_ascii:
  "ascii bs \<Longrightarrow> \<not> bom r \<Longrightarrow>
   read_bytes b e r bs = after (parser_puts b e (machine r) bs)
     (\<lambda>m. ([], Inr (r\<lparr>machine := m\<lparr>counter := counter (machine r) + length bs\<rparr>\<rparr>)))"
proof (induction bs arbitrary: r)
  case Nil
  then show ?case by simp
next
  case (Cons c bs)
  have "c \<noteq> 0xEF" using Cons.prems by auto
  let ?n = "counter (machine r)"
  have "read_bytes b e r (c # bs) = after (parser_put b e (machine r) c)
      (\<lambda>m. read_bytes b e (r\<lparr>machine := m\<lparr>counter := ?n + 1\<rparr>\<rparr>) bs)"
    using Cons.prems \<open>c \<noteq> 0xEF\<close> by (simp add: read_byte_def Let_def after_assoc)
  also have "\<dots> = after (parser_put b e (machine r) c) (\<lambda>m. after (parser_puts b e m bs)
      (\<lambda>m. ([], Inr (r\<lparr>machine := m\<lparr>counter := ?n + length (c # bs)\<rparr>\<rparr>))))"
    using Cons.IH Cons.prems by (simp add: parser_puts_counter after_assoc)
  finally show ?case by (simp add: after_assoc)
qed

lemma json_read_ascii:
  assumes "ascii bs" "glyph_size (decoder s) = 0"
    and "steps b e (lexer s, stack s) (map ucast bs) os (t, p)"
  shows "json_read b e s bs = (os, Inr (s\<lparr>decoder := seen bs (decoder s), lexer := t, stack := p,
    counter := counter s + length bs\<rparr>))"
  using assms by (simp add: json_read_def read_bytes_ascii parser_puts_ascii steps_def)


section \<open>The tokenizer on the text of a value\<close>

lemma structural_bytes [simp]:
  "byte_of_char CHR '','' = 44" "byte_of_char CHR '':'' = 58" "byte_of_char CHR ''['' = 91"
  "byte_of_char CHR '']'' = 93" "byte_of_char CHR ''{'' = 123" "byte_of_char CHR ''}'' = 125"
  by (simp_all add: byte_of_char_def)

lemma structural_points [simp]:
  "cp CHR '','' = 44" "cp CHR '':'' = 58" "cp CHR ''['' = 91" "cp CHR '']'' = 93" "cp CHR ''{'' = 123" "cp CHR ''}'' = 125"
  by (simp_all add: cp_def)

lemma escape_points [simp]:
  "cp CHR ''b'' = 98" "cp CHR ''f'' = 102" "cp CHR ''n'' = 110" "cp CHR ''r'' = 114" "cp CHR ''t'' = 116" "cp CHR ''u'' = 117"
  by (simp_all add: cp_def byte_of_char_def)

abbreviation T0 :: tokenizer where "T0 \<equiv> tokenizer_init"

lemma T0_simps [simp]: "tk_state T0 = IN_START" "tk_buffer T0 = []"
  by (simp_all add: tokenizer_init_def)

text \<open>Structural characters at the start of a token.\<close>

definition accepts :: "build \<Rightarrow> json_env \<Rightarrow> stacks \<Rightarrow> u32 \<Rightarrow> object list \<Rightarrow> stacks \<Rightarrow> bool" where
  "accepts b e p c os p' \<longleftrightarrow> c \<in> {44, 58, 91, 93, 123, 125} \<and>
     next_symbol b e p (Symbol SYMBOL [ucast c]) = (os, Inr p')"

lemma tk_structural:
  "c \<in> {44, 58, 91, 93, 123, 125} \<Longrightarrow> tk_put b e T0 c = ([Symbol SYMBOL [ucast c]], Inr (T0, True))"
  by (auto simp: tk_put_def state_start_def)

lemma accepts_step: "accepts b e p c os p' \<Longrightarrow> steps b e (T0, p) [c] os (T0, p')"
  by (rule step_take [where syms = "[Symbol SYMBOL [ucast c]]"]) (auto simp: accepts_def tk_structural)

lemma space_step: "steps b e (T0, p) [32] [] (T0, p)"
  by (rule step_take [where syms = "[]"]) (auto simp: tk_put_def state_start_def)

lemma comma_array:
  "states p = ARRAY # ss \<Longrightarrow> accepts b e p 44 [] p"
  by (auto simp: accepts_def next_symbol_def process_symbol_def build_object_def Let_def)

lemma open_array:
  "accepts b e p 91 [] (p\<lparr>states := ARRAY # states p, operands := OEod # operands p\<rparr>)"
  by (auto simp: accepts_def next_symbol_def process_symbol_def Let_def)

lemma open_object:
  "accepts b e p 123 [] (p\<lparr>states := OBJECT # states p, operands := OEod # operands p\<rparr>)"
  by (auto simp: accepts_def next_symbol_def process_symbol_def Let_def)

lemma colon_object:
  "states p = OBJECT # ss \<Longrightarrow> accepts b e p 58 [] (p\<lparr>states := VALUE # ss\<rparr>)"
  by (auto simp: accepts_def next_symbol_def process_symbol_def Let_def swap_state_def)

lemma comma_object:
  "states p = VALUE # ss \<Longrightarrow> operands p = v # OString k # x # vs \<Longrightarrow>
   accepts b e p 44 [] (p\<lparr>states := OBJECT # ss, operands := OParam k v # x # vs\<rparr>)"
  by (auto simp: accepts_def next_symbol_def process_symbol_def Let_def build_object_def swap_state_def
      value_cast_def cast_string_def)

text \<open>The end of an array and of an object, inside and at the outermost level.\<close>

definition finish :: "stacks \<Rightarrow> object \<Rightarrow> pstate list \<Rightarrow> object list \<Rightarrow> object list \<times> stacks" where
  "finish p obj ss vs = (if ss = [] then ([obj], p\<lparr>states := [], operands := vs\<rparr>)
                         else ([], p\<lparr>states := ss, operands := obj # vs\<rparr>))"

lemma takeWhile_marked:
  "list_all (\<lambda>x. type_tag x \<noteq> 61) xs \<Longrightarrow> takeWhile (\<lambda>x. type_tag x \<noteq> 61) (xs @ OEod # vs) = xs"
  "list_all (\<lambda>x. type_tag x \<noteq> 61) xs \<Longrightarrow> dropWhile (\<lambda>x. type_tag x \<noteq> 61) (xs @ OEod # vs) = OEod # vs"
  by (simp_all add: takeWhile_append2 dropWhile_append2 list_all_iff)

lemma close_array:
  assumes "states p = ARRAY # ss" "operands p = rev xs @ OEod # vs" "list_all (\<lambda>x. type_tag x \<noteq> 61) xs"
    and "ss = [] \<Longrightarrow> vs = []"
  shows "accepts b e p 93 (fst (finish p (OVector xs) ss vs)) (snd (finish p (OVector xs) ss vs))"
proof (unfold accepts_def, intro conjI)
  have "list_all (\<lambda>x. type_tag x \<noteq> 61) (rev xs)" using assms(3) by (simp add: list_all_iff)
  from takeWhile_marked [OF this, of vs] show "next_symbol b e p (Symbol SYMBOL [ucast (93 :: u32)]) =
      (fst (finish p (OVector xs) ss vs), Inr (snd (finish p (OVector xs) ss vs)))"
    using assms
    by (cases "ss = []")
      (auto simp: next_symbol_def process_symbol_def Let_def build_array_def swap_mark_def pop_state_def
        above_mark_def below_values_def finish_def)
qed simp

abbreviation params :: "(byte list \<times> object) list \<Rightarrow> object list" where
  "params m \<equiv> map (\<lambda>(k, v). OParam k v) m"

lemma collect_params:
  "foldl (\<lambda>m obj. map_emplace (fst (case cast_param obj of Some kv \<Rightarrow> kv | None \<Rightarrow> ([], ONull)))
      (snd (case cast_param obj of Some kv \<Rightarrow> kv | None \<Rightarrow> ([], ONull))) m) acc (params ps) = std.emplace_all ps acc"
  by (induction ps arbitrary: acc) (auto simp: std.emplace_all_def cast_param_def)

lemma build_member_params:
  assumes "operands p = params (rev m) @ OEod # vs" "sorted_keys m" "states p = s # ss" "ss = [] \<Longrightarrow> vs = []"
  shows "build_member b p = (fst (finish p (OParamMap m) ss vs), Inr (snd (finish p (OParamMap m) ss vs)))"
proof -
  have t: "list_all (\<lambda>x. type_tag x \<noteq> 61) (params (rev m))" by (auto simp: list_all_iff)
  have "above_mark (operands p) = params (rev m)" "below_values (operands p) = OEod # vs"
    using takeWhile_marked [OF t] assms(1) by (simp_all add: above_mark_def below_values_def)
  then show ?thesis
    using assms emplace_all_rev [OF assms(2)]
    by (cases "ss = []") (simp_all add: build_member_def Let_def collect_params swap_mark_def pop_state_def finish_def)
qed

lemma build_object_value:
  "states p = VALUE # ss \<Longrightarrow> operands p = v # OString k # x # vs \<Longrightarrow>
   build_object b p = Inr (p\<lparr>states := OBJECT # ss, operands := OParam k v # x # vs\<rparr>)"
  by (simp add: build_object_def Let_def swap_state_def value_cast_def cast_string_def)

lemma close_object:
  assumes "states p = VALUE # ss" "operands p = v # OString k # params (rev m) @ OEod # vs"
    and "sorted_keys (m @ [(k, v)])" "ss = [] \<Longrightarrow> vs = []"
  shows "accepts b e p 125 (fst (finish p (OParamMap (m @ [(k, v)])) ss vs))
    (snd (finish p (OParamMap (m @ [(k, v)])) ss vs))"
proof (unfold accepts_def, intro conjI)
  let ?p = "p\<lparr>states := OBJECT # ss, operands := OParam k v # params (rev m) @ OEod # vs\<rparr>"
  obtain x xs where x: "params (rev m) @ OEod # vs = x # xs" by (cases "params (rev m) @ OEod # vs") auto
  have 1: "build_object b p = Inr ?p"
    using build_object_value [OF assms(1), of v k x xs b] assms(2) x by simp
  have 2: "build_member b ?p = (fst (finish p (OParamMap (m @ [(k, v)])) ss vs),
      Inr (snd (finish p (OParamMap (m @ [(k, v)])) ss vs)))"
    using build_member_params [of ?p "m @ [(k, v)]" vs OBJECT ss b] assms by (simp add: finish_def)
  show "next_symbol b e p (Symbol SYMBOL [ucast (125 :: u32)]) =
      (fst (finish p (OParamMap (m @ [(k, v)])) ss vs), Inr (snd (finish p (OParamMap (m @ [(k, v)])) ss vs)))"
    by (simp add: next_symbol_def process_symbol_def Let_def 1 2)
qed simp

section \<open>Strings, numbers and literals\<close>

text \<open>Code points that come back from their text in a JSON string.\<close>

definition good_cp :: "u32 \<Rightarrow> bool" where
  "good_cp c \<longleftrightarrow> c \<notin> {7, 11, 39} \<and> (c < 0xD800 \<or> (0xE000 \<le> c \<and> c < 0x10000))"

abbreviation in_string :: "u32 list \<Rightarrow> tokenizer" where
  "in_string buf \<equiv> \<lparr>tk_state = IN_STRING, tk_buffer = buf\<rparr>"

lemma open_string: "steps b e (T0, p) [34] [] (in_string [], p)"
  by (rule step_take [where syms = "[]"])
    (auto simp: tk_put_def state_start_def goto_def tokenizer_init_def is_digit_def)

lemma close_string:
  "to_u8 e buf = Inr s \<Longrightarrow> steps b e (in_string buf, p) [34] [] (T0, push (OString s) p)"
  by (rule step_take [where syms = "[Symbol STRING s]"])
    (auto simp: tk_put_def state_string_def emit_buffer_def next_symbol_def tokenizer_init_def)

lemma plain_point: "c \<noteq> 34 \<Longrightarrow> c \<noteq> 92 \<Longrightarrow> steps b e (in_string buf, p) [c] [] (in_string (buf @ [c]), p)"
  by (rule step_take [where syms = "[]"]) (auto simp: tk_put_def state_string_def append_goto_def)

lemma plain_points:
  "\<forall>c \<in> set cs. c \<noteq> 34 \<and> c \<noteq> 92 \<Longrightarrow> steps b e (in_string buf, p) cs [] (in_string (buf @ cs), p)"
proof (induction cs arbitrary: buf)
  case Nil
  then show ?case by (simp add: steps_Nil)
next
  case (Cons c cs)
  from steps_silent_Cons [OF plain_point Cons.IH [of "buf @ [c]"]] Cons.prems show ?case by simp
qed

abbreviation in_escape :: "u32 list \<Rightarrow> tokenizer" where
  "in_escape buf \<equiv> \<lparr>tk_state = IN_ESCAPE, tk_buffer = buf\<rparr>"

lemma start_escape: "steps b e (in_string buf, p) [92] [] (in_escape buf, p)"
  by (rule step_take [where syms = "[]"]) (auto simp: tk_put_def state_string_def goto_def)

lemma end_escape:
  assumes "state_escape (in_escape buf) d = ([], Inr (in_string (buf @ [c]), True))"
  shows "steps b e (in_string buf, p) [92, d] [] (in_string (buf @ [c]), p)"
proof -
  have "steps b e (in_escape buf, p) [d] [] (in_string (buf @ [c]), p)"
    by (rule step_take [where syms = "[]"]) (use assms in \<open>simp_all add: tk_put_def\<close>)
  from steps_silent_Cons [OF start_escape this] show ?thesis .
qed

lemma tk_escape: "c \<in> {34, 92} \<Longrightarrow> steps b e (in_string buf, p) [92, c] [] (in_string (buf @ [c]), p)"
  by (rule end_escape) (auto simp: state_escape_def append_goto_def)

lemma tk_escapes:
  "steps b e (in_string buf, p) [92, 98] [] (in_string (buf @ [8]), p)"
  "steps b e (in_string buf, p) [92, 102] [] (in_string (buf @ [12]), p)"
  "steps b e (in_string buf, p) [92, 110] [] (in_string (buf @ [10]), p)"
  "steps b e (in_string buf, p) [92, 114] [] (in_string (buf @ [13]), p)"
  "steps b e (in_string buf, p) [92, 116] [] (in_string (buf @ [9]), p)"
  by (rule end_escape; simp add: state_escape_def append_goto_def)+

text \<open>Four hexadecimal digits.\<close>

abbreviation in_unicode :: "u32 list \<Rightarrow> u32 list \<Rightarrow> tokenizer" where
  "in_unicode buf ds \<equiv> \<lparr>tk_state = IN_UNICODE, tk_buffer = buf @ 1 # ds\<rparr>"

lemma hex_cp_not_mark: "is_hex_cp d \<Longrightarrow> d \<noteq> 1"
  by (auto simp: is_hex_cp_def is_digit_def word_le_nat_alt)

lemma unicode_digit:
  assumes "is_hex_cp d" "1 \<notin> set ds"
  shows "steps b e (in_unicode buf ds, p) [d] []
    (if length ds \<ge> 3 then in_string (buf @ [hex_number (ds @ [d])]) else in_unicode buf (ds @ [d]), p)"
proof (rule step_take [where syms = "[]"])
  have d: "d \<noteq> 1" using assms(1) hex_cp_not_mark by blast
  have tw: "takeWhile (\<lambda>c. c \<noteq> 1) (rev ds @ 1 # rev buf) = rev ds"
    using assms(2) by (subst takeWhile_append2) auto
  show "tk_put b e (in_unicode buf ds) d = ([], Inr
      (if length ds \<ge> 3 then in_string (buf @ [hex_number (ds @ [d])]) else in_unicode buf (ds @ [d]), True))"
    using assms(1) d by (auto simp: tk_put_def state_unicode_def convert_to_unicode_def Let_def tw)
qed simp

lemma hex_point_all: "\<forall>d < 16. is_hex_cp (ucast (digit_char d)) \<and> hex_value (ucast (digit_char d)) = of_nat d"
  unfolding on_digits by code_simp

lemma hex_point [simp]:
  "d < 16 \<Longrightarrow> is_hex_cp (ucast (digit_char d))"
  "d < 16 \<Longrightarrow> hex_value (ucast (digit_char d)) = of_nat d"
  using hex_point_all by blast+

lemma hex_number_fixed:
  assumes "k < 65536"
  shows "hex_number (map ucast (fixed 16 4 k)) = of_nat k"
proof -
  let ?a = "k div 4096" and ?b = "k div 256 mod 16" and ?c = "k div 16 mod 16" and ?d = "k mod 16"
  have "?a < 16" using assms by (simp add: less_mult_imp_div_less)
  have e: "16 * ?a + ?b = k div 256" "16 * (k div 256) + ?c = k div 16" "16 * (k div 16) + ?d = k"
    using div_mult_mod_eq [of "k div 256" 16] div_mult_mod_eq [of "k div 16" 16] div_mult_mod_eq [of k 16]
    by (simp_all add: div_mult2_eq [symmetric] mult.commute)
  have "hex_number (map ucast (fixed 16 4 k)) = 16 * (16 * (16 * of_nat ?a + of_nat ?b) + of_nat ?c) + of_nat ?d"
    using \<open>?a < 16\<close> by (simp add: hex_number_def fixed_4)
  also have "\<dots> = of_nat (16 * (16 * (16 * ?a + ?b) + ?c) + ?d)"
    by (simp only: of_nat_add of_nat_mult of_nat_numeral)
  finally show ?thesis by (simp only: e)
qed

lemma unicode_steps:
  assumes "k < 65536"
  shows "steps b e (in_string buf, p) (map ucast ([92, 117] @ fixed 16 4 k)) [] (in_string (buf @ [of_nat k]), p)"
proof -
  obtain d1 d2 d3 d4 where f: "fixed 16 4 k = [digit_char d1, digit_char d2, digit_char d3, digit_char d4]"
    and d: "d1 < 16" "d2 < 16" "d3 < 16" "d4 < 16" by (simp add: fixed_4)
  have u: "steps b e (in_escape buf, p) [117] [] (in_unicode buf [], p)"
    by (rule step_take [where syms = "[]"]) (simp_all add: tk_put_def state_escape_def append_goto_def)
  let ?x = "\<lambda>d. ucast (digit_char d) :: u32"
  have h: "is_hex_cp (?x d1)" "is_hex_cp (?x d2)" "is_hex_cp (?x d3)" "is_hex_cp (?x d4)" using d by simp_all
  then have n: "?x d1 \<noteq> 1" "?x d2 \<noteq> 1" "?x d3 \<noteq> 1" using hex_cp_not_mark by blast+
  have "steps b e (in_unicode buf [], p) [?x d1, ?x d2, ?x d3, ?x d4] [] (in_string (buf @ [hex_number [?x d1, ?x d2, ?x d3, ?x d4]]), p)"
    using steps_silent_Cons [OF _ steps_silent_Cons [OF _ steps_silent_Cons], of b e "(in_unicode buf [], p)" "?x d1"
        "(in_unicode buf [?x d1], p)" "?x d2" "(in_unicode buf [?x d1, ?x d2], p)" "?x d3" "(in_unicode buf [?x d1, ?x d2, ?x d3], p)"
        "[?x d4]" "[]"]
      unicode_digit [of "?x d1" "[]" b e buf p] unicode_digit [of "?x d2" "[?x d1]" b e buf p]
      unicode_digit [of "?x d3" "[?x d1, ?x d2]" b e buf p] unicode_digit [of "?x d4" "[?x d1, ?x d2, ?x d3]" b e buf p] h n
    by auto
  with steps_silent_Cons [OF start_escape steps_silent_Cons [OF u]] hex_number_fixed [OF assms] show ?thesis
    by (simp add: f)
qed

lemma json_char_steps:
  assumes "good_cp c"
  shows "steps b e (in_string buf, p) (map ucast (json_char c)) [] (in_string (buf @ [c]), p)"
proof (cases "c \<in> {8, 9, 10, 12, 13, 34, 92}")
  case True
  then show ?thesis using tk_escape [of c b e buf p] tk_escapes [of b e buf p]
    by (auto simp: json_char_def backslash_def byte_of_char_def)
next
  case False
  show ?thesis
  proof (cases "c > 30 \<and> c < 127")
    case True
    then have "ucast (ucast c :: byte) = c"
      by (intro unsigned_word_eqI [where 'a = nat]) (simp add: unat_byte word_less_nat_alt)
    with True False assms plain_point [of c b e buf p] show ?thesis
      by (simp add: json_char_def good_cp_def)
  next
    case 2: False
    have k: "unat c < 65536" using assms by (auto simp: good_cp_def word_less_nat_alt)
    then have "setw0 4 (show_base 16 (unat c)) = fixed 16 4 (unat c)" by (simp add: setw0_show_base)
    then have "json_char c = [92, 117] @ fixed 16 4 (unat c)"
      using False 2 assms by (auto simp: json_char_def good_cp_def backslash_def byte_of_char_def)
    with unicode_steps [OF k, of b e buf p] show ?thesis by simp
  qed
qed


section \<open>Values that survive\<close>

definition plain_key :: "byte list \<Rightarrow> bool" where
  "plain_key k \<longleftrightarrow> list_all (\<lambda>c. c < 0x80 \<and> c \<noteq> 34 \<and> c \<noteq> 92) k"

definition plain_string :: "build \<Rightarrow> byte list \<Rightarrow> bool" where
  "plain_string b s \<longleftrightarrow> (case iterate b s of
      Inr cs \<Rightarrow> list_all good_cp cs \<and> encode_all Release cs = Inr s | Inl _ \<Rightarrow> False)"

fun jsonable :: "build \<Rightarrow> object \<Rightarrow> bool" where
  "jsonable b ONull \<longleftrightarrow> True"
| "jsonable b (OBool v) \<longleftrightarrow> True"
| "jsonable b (OI8 n) \<longleftrightarrow> n \<noteq> 0"
| "jsonable b (OI16 n) \<longleftrightarrow> n \<noteq> 0"
| "jsonable b (OI32 n) \<longleftrightarrow> n \<noteq> 0"
| "jsonable b (OI64 n) \<longleftrightarrow> n \<noteq> 0"
| "jsonable b (OU8 n) \<longleftrightarrow> n \<noteq> 0"
| "jsonable b (OU16 n) \<longleftrightarrow> n \<noteq> 0"
| "jsonable b (OU32 n) \<longleftrightarrow> n \<noteq> 0"
| "jsonable b (OU64 n) \<longleftrightarrow> n \<noteq> 0 \<and> unat n < 2 ^ 63"
| "jsonable b (OString s) \<longleftrightarrow> plain_string b s"
| "jsonable b (OVector vs) \<longleftrightarrow> list_all (jsonable b) vs"
| "jsonable b (OParamMap m) \<longleftrightarrow> sorted_keys m \<and> list_all (\<lambda>a. plain_key (fst a) \<and> jsonable b (snd a)) m"
| "jsonable b _ \<longleftrightarrow> False"

text \<open>What the parser makes of them: one integer type, and null for an empty container.\<close>

fun canon :: "object \<Rightarrow> object" where
  "canon (OI8 n) = OI64 (scast n)"
| "canon (OI16 n) = OI64 (scast n)"
| "canon (OI32 n) = OI64 (scast n)"
| "canon (OI64 n) = OI64 n"
| "canon (OU8 n) = OI64 (ucast n)"
| "canon (OU16 n) = OI64 (ucast n)"
| "canon (OU32 n) = OI64 (ucast n)"
| "canon (OU64 n) = OI64 n"
| "canon (OVector vs) = (if vs = [] then ONull else OVector (map canon vs))"
| "canon (OParamMap m) = (if m = [] then ONull else OParamMap (map (\<lambda>a. (fst a, canon (snd a))) m))"
| "canon obj = obj"

fun joined :: "'a list \<Rightarrow> 'a list list \<Rightarrow> 'a list" where
  "joined sep [] = []"
| "joined sep [x] = x"
| "joined sep (x # y # ys) = x @ sep @ joined sep (y # ys)"

definition string_text :: "build \<Rightarrow> byte list \<Rightarrow> byte list" where
  "string_text b s = quoted (concat (map json_char (projr (iterate b s))))"

fun integer :: "object \<Rightarrow> int option" where
  "integer (OI8 n) = Some (sint n)"
| "integer (OI16 n) = Some (sint n)"
| "integer (OI32 n) = Some (sint n)"
| "integer (OI64 n) = Some (sint n)"
| "integer (OU8 n) = Some (uint n)"
| "integer (OU16 n) = Some (uint n)"
| "integer (OU32 n) = Some (uint n)"
| "integer (OU64 n) = Some (uint n)"
| "integer _ = None"

fun json_text :: "build \<Rightarrow> object \<Rightarrow> byte list" where
  "json_text b ONull = str ''null''"
| "json_text b (OBool v) = show_bool v"
| "json_text b (OString s) = string_text b s"
| "json_text b (OVector vs) =
     (if vs = [] then str ''null'' else [91] @ joined [44, 32] (map (json_text b) vs) @ [93])"
| "json_text b (OParamMap m) =
     (if m = [] then str ''null''
      else [123] @ joined [44] (map (\<lambda>a. quoted (fst a) @ [58] @ json_text b (snd a)) m) @ [125])"
| "json_text b v = (case integer v of Some i \<Rightarrow> show_int i | None \<Rightarrow> [])"

text \<open>The serializer writes this text.\<close>

lemma w_simps [simp]:
  "w_text t (s, True) = Inr (s @ t, True)"
  "w_then f g os = rbind (f os) g"
  by (simp_all add: w_text_def put_text_def w_then_def)

lemma w_separated_text:
  "list_all2 (\<lambda>f t. \<forall>s. f (s, True) = Inr (s @ t, True)) fs ts \<Longrightarrow>
   w_separated sep fs (s, True) = Inr (s @ joined sep ts, True)"
proof (induction sep fs arbitrary: s ts rule: w_separated.induct)
  case (3 sep f g fs)
  then obtain t u us where ts: "ts = t # u # us" by (auto simp: list_all2_Cons1)
  from "3.IH" [of "u # us" "s @ t @ sep"] "3.prems" ts show ?case by simp
qed (auto simp: list_all2_Cons1)

lemma str_brackets [simp]: "str ''['' = [91]" "str '']'' = [93]" "str ''{'' = [123]" "str ''}'' = [125]"
  "str '', '' = [44, 32]" "str '','' = [44]" "str '':'' = [58]" "str '': '' = [58, 32]"
  by (simp_all add: str_def byte_of_char_def)

lemma show_dec_int: "show_dec w = show_int (uint w)"
  by (simp add: show_dec_def show_int_def not_less)

lemma serialize_json_text:
  "jsonable b v \<Longrightarrow> serialize_json b p h v (s, True) = Inr (s @ json_text b v, True)"
proof (induction v arbitrary: s)
  case (OString x)
  then show ?case
    by (auto simp: plain_string_def json_string_def string_text_def split: sum.splits)
next
  case (OVector vs)
  have "w_separated [44, 32] (map (\<lambda>x. w_braced x (serialize_json b p h x)) vs) (s', True) =
      Inr (s' @ joined [44, 32] (map (json_text b) vs), True)" for s'
  proof (rule w_separated_text, simp add: list_all2_map1 list_all2_map2, rule list.rel_refl_strong)
    fix x assume "x \<in> set vs"
    with OVector have j: "jsonable b x" by (auto simp: list_all_iff)
    then have "type_tag x \<noteq> 49 \<and> type_tag x \<noteq> 51" by (cases x) auto
    with OVector.IH [OF \<open>x \<in> set vs\<close> j]
    show "\<forall>s. w_braced x (serialize_json b p h x) (s, True) = Inr (s @ json_text b x, True)"
      by (simp add: w_braced_def)
  qed
  then show ?case by (simp add: w_container_def w_enclosed_def)
next
  case (OParamMap m)
  have f: "\<forall>s. w_then (w_text (quoted (fst a) @ [58])) (serialize_json b p h (snd a)) (s, True) =
      Inr (s @ (quoted (fst a) @ [58] @ json_text b (snd a)), True)" if a: "a \<in> set m" for a
  proof -
    have "jsonable b (snd a)" using OParamMap.prems a by (auto simp: list_all_iff)
    with OParamMap.IH [of a "snd a"] a show ?thesis by (cases a) auto
  qed
  have "w_separated [44] (map (\<lambda>a. w_then (w_text (quoted (fst a) @ [58])) (serialize_json b p h (snd a))) m) (s', True) =
      Inr (s' @ joined [44] (map (\<lambda>a. quoted (fst a) @ [58] @ json_text b (snd a)) m), True)" for s'
    by (rule w_separated_text, unfold list_all2_map1 list_all2_map2, rule list.rel_refl_strong, rule f)
  then show ?case by (simp add: w_container_def w_enclosed_def)
qed (auto simp: json_value_def show_dec_int)

lemma to_json_text: "jsonable b v \<Longrightarrow> to_json b p h v = Inr (json_text b v)"
  by (simp add: to_json_def serialize_json_text)


section \<open>Reading the text\<close>

text \<open>
  What is assumed of Boost: the conversion to UTF-8, and \<^verbatim>\<open>lexical_cast\<close> of the decimal digits of a
  64-bit integer.
\<close>

definition boost_ok :: "json_env \<Rightarrow> bool" where
  "boost_ok e \<longleftrightarrow> converts (to_u8 e) \<and>
     (\<forall>i. - (2 ^ 63) \<le> i \<and> i < 2 ^ 63 \<longrightarrow> lexical_i64 e (show_int i) = Some (word_of_int i))"

lemma ascii_encode: "ascii bs \<Longrightarrow> encode_all b (map ucast bs) = Inr bs"
proof (induction bs)
  case Nil
  then show ?case by simp
next
  case (Cons c bs)
  then have "(ucast c :: u32) < 0x80" by (simp add: word_less_nat_alt)
  then have "encode_u32 b (ucast c) = Inr [ucast (ucast c :: u32)]" by (rule utf8_bytes(1))
  moreover have "ucast (ucast c :: u32) = c"
    by (rule unsigned_word_eqI [where 'a = nat]) (use byte_bound [of c] in \<open>simp add: unat_byte\<close>)
  ultimately show ?case using Cons by simp
qed

lemma to_u8_ascii: "boost_ok e \<Longrightarrow> ascii bs \<Longrightarrow> to_u8 e (map ucast bs) = Inr bs"
proof -
  assume "boost_ok e" "ascii bs"
  moreover from \<open>ascii bs\<close> have "scalar_values (map ucast bs)"
    by (auto simp: scalar_values_def ascii_def word_less_nat_alt)
  ultimately show ?thesis by (simp add: boost_ok_def converts_def ascii_encode)
qed

text \<open>A token whose end is seen at the next structural character.\<close>

lemma lookahead_step:
  assumes "tk_put b e t c = ([sy], Inr (T0, False))" "next_symbol b e p sy = ([], Inr p1)"
    and "accepts b e p1 c os p'"
  shows "steps b e (t, p) [c] os (T0, p')"
proof -
  have "c \<in> {44, 58, 91, 93, 123, 125}" using assms(3) by (simp add: accepts_def)
  from step_retry [OF assms(1) _ tk_structural [OF this], of p "[]" p1 os p'] assms show ?thesis
    by (simp add: accepts_def)
qed

abbreviation in_literal :: "u32 list \<Rightarrow> tokenizer" where
  "in_literal buf \<equiv> \<lparr>tk_state = IN_LITERAL, tk_buffer = buf\<rparr>"

definition letter :: "byte \<Rightarrow> bool" where
  "letter c \<longleftrightarrow> 97 \<le> c \<and> c \<le> 122"

lemma letter_point: "letter c \<Longrightarrow> \<not> (ucast c :: u32) \<in> {32, 10, 13, 9} \<and> \<not> (ucast c :: u32) \<in> {34, 39, 91, 93, 123, 125, 44, 58}
    \<and> (ucast c :: u32) \<noteq> 48 \<and> (ucast c :: u32) \<noteq> 45 \<and> \<not> is_digit (ucast c)"
  by (auto simp: letter_def is_digit_def word_le_nat_alt word_eq_unat)

lemma literal_points:
  "list_all letter bs \<Longrightarrow> steps b e (in_literal buf, p) (map ucast bs) [] (in_literal (buf @ map ucast bs), p)"
proof (induction bs arbitrary: buf)
  case Nil
  then show ?case by (simp add: steps_Nil)
next
  case (Cons c bs)
  have "steps b e (in_literal buf, p) [ucast c] [] (in_literal (buf @ [ucast c]), p)"
    by (rule step_take [where syms = "[]"])
      (use letter_point [of c] Cons.prems in \<open>simp_all add: tk_put_def state_literal_def append_goto_def\<close>)
  from steps_silent_Cons [OF this Cons.IH] Cons.prems show ?case by simp
qed

lemma literal_steps:
  "list_all letter (c # bs) \<Longrightarrow> steps b e (T0, p) (map ucast (c # bs)) [] (in_literal (map ucast (c # bs)), p)"
proof -
  assume l: "list_all letter (c # bs)"
  have "steps b e (T0, p) [ucast c] [] (in_literal [ucast c], p)"
    by (rule step_take [where syms = "[]"])
      (use letter_point [of c] l in \<open>simp_all add: tk_put_def state_start_def append_goto_def\<close>)
  from steps_silent_Cons [OF this literal_points] l show ?thesis by simp
qed

lemma end_literal_step:
  assumes "c \<in> {44, 93, 125}" "build_literal e buf = Inr sy" "next_symbol b e p sy = ([], Inr p1)"
    and "accepts b e p1 c os p'"
  shows "steps b e (in_literal buf, p) [c] os (T0, p')"
  by (rule lookahead_step [OF _ assms(3,4)])
    (use assms in \<open>auto simp: tk_put_def state_literal_def end_literal_def tokenizer_init_def\<close>)

lemma map_cp: "map cp s = map ucast (str s)"
  by (simp add: str_def cp_def)

lemma keyword_letters:
  "str ''null'' = [110, 117, 108, 108]" "str ''true'' = [116, 114, 117, 101]" "str ''false'' = [102, 97, 108, 115, 101]"
  by (simp_all add: str_def byte_of_char_def)

lemma keyword_steps:
  assumes "boost_ok e" "c \<in> {44, 93, 125}"
  shows "accepts b e (push ONull p) c os p' \<Longrightarrow> steps b e (T0, p) (map ucast (str ''null'') @ [c]) os (T0, p')"
    and "accepts b e (push (OBool v) p) c os p' \<Longrightarrow> steps b e (T0, p) (map ucast (show_bool v) @ [c]) os (T0, p')"
proof -
  have l: "list_all letter (str ''null'')" "list_all letter (str ''true'')" "list_all letter (str ''false'')"
    by (simp_all add: keyword_letters letter_def)
  have a: "ascii (str ''null'')" "ascii (str ''true'')" "ascii (str ''false'')"
    by (simp_all add: keyword_letters)
  have u: "to_u8 e (map cp ''null'') = Inr (str ''null'')" "to_u8 e (map cp ''true'') = Inr (str ''true'')"
    "to_u8 e (map cp ''false'') = Inr (str ''false'')"
    using to_u8_ascii [OF assms(1)] a by (simp_all only: map_cp)
  have s: "steps b e (T0, p) (map ucast (str w)) [] (in_literal (map cp w), p)"
    if "list_all letter (str w)" "w \<noteq> []" for w
    using literal_steps [of "hd (str w)" "tl (str w)" b e p] that by (cases w) (auto simp: map_cp str_def cp_def)
  have n: "build_literal e (map cp ''null'') = Inr (Symbol NOTHING (str ''null''))"
    using u by (simp add: build_literal_def)
  show "steps b e (T0, p) (map ucast (str ''null'') @ [c]) os (T0, p')" if a: "accepts b e (push ONull p) c os p'"
  proof -
    have "next_symbol b e p (Symbol NOTHING (str ''null'')) = ([], Inr (push ONull p))"
      by (simp add: next_symbol_def)
    from steps_silent [OF s [OF l(1)] end_literal_step [OF assms(2) n this a]] show ?thesis by simp
  qed
  have d: "(map cp ''true'' = map cp ''null'') = False" "(map cp ''false'' = map cp ''null'') = False"
    by (simp_all add: cp_def byte_of_char_def)
  have t: "build_literal e (map cp ''true'') = Inr (Symbol BOOLEAN (str ''true''))"
    and f: "build_literal e (map cp ''false'') = Inr (Symbol BOOLEAN (str ''false''))"
    by (simp_all only: build_literal_def u d if_False if_True simp_thms rbind_simps)
  show "steps b e (T0, p) (map ucast (show_bool v) @ [c]) os (T0, p')" if "accepts b e (push (OBool v) p) c os p'"
  proof (cases v)
    case True
    from steps_silent [OF s [OF l(2)] end_literal_step [OF assms(2) t _ that]] True show ?thesis
      by (simp add: show_bool_def next_symbol_def)
  next
    case False
    from steps_silent [OF s [OF l(3)] end_literal_step [OF assms(2) f _ that]] False show ?thesis
      by (simp add: show_bool_def next_symbol_def keyword_letters)
  qed
qed


text \<open>Numbers.\<close>

abbreviation in_number :: "u32 list \<Rightarrow> tokenizer" where
  "in_number buf \<equiv> \<lparr>tk_state = IN_NUMBER, tk_buffer = buf\<rparr>"

lemma number_points:
  "list_all is_digit cs \<Longrightarrow> steps b e (in_number buf, p) cs [] (in_number (buf @ cs), p)"
proof (induction cs arbitrary: buf)
  case Nil
  then show ?case by (simp add: steps_Nil)
next
  case (Cons c cs)
  have "steps b e (in_number buf, p) [c] [] (in_number (buf @ [c]), p)"
    by (rule step_take [where syms = "[]"])
      (use Cons.prems in \<open>auto simp: tk_put_def state_number_def append_goto_def is_digit_def\<close>)
  from steps_silent_Cons [OF this Cons.IH] Cons.prems show ?case by simp
qed

lemma number_steps:
  assumes "c = 45 \<or> (is_digit c \<and> c \<noteq> 48)" "list_all is_digit cs"
  shows "steps b e (T0, p) (c # cs) [] (in_number (c # cs), p)"
proof -
  have "c \<notin> {44, 58, 91, 93, 123, 125}" "c \<notin> {32, 10, 13, 9}" "c \<noteq> 34" "c \<noteq> 48"
    using assms(1) by (auto simp: is_digit_def word_le_nat_alt)
  then have "steps b e (T0, p) [c] [] (in_number [c], p)"
    by (intro step_take [where syms = "[]"])
      (use assms(1) in \<open>auto simp: tk_put_def state_start_def append_goto_def\<close>)
  from steps_silent_Cons [OF this number_points] assms(2) show ?thesis by simp
qed

lemma end_number_step:
  assumes "c \<in> {44, 93, 125}" "to_u8 e buf = Inr v" "lexical_i64 e v = Some n"
    and "accepts b e (push (OI64 n) p) c os p'"
  shows "steps b e (in_number buf, p) [c] os (T0, p')"
  by (rule lookahead_step [OF _ _ assms(4), where sy = "Symbol NUMBER v"])
    (use assms in \<open>auto simp: tk_put_def state_number_def emit_buffer_def tokenizer_init_def is_digit_def
      word_le_nat_alt next_symbol_def process_number_def\<close>)

lemma decimal_digit_all: "\<forall>d < 16. d < 10 \<longrightarrow>
    is_digit (ucast (digit_char d)) \<and> digit_char d < 0x80 \<and> (0 < d \<longrightarrow> digit_char d \<noteq> 48)"
proof -
  have "list_all2 (\<lambda>d c. d < 10 \<longrightarrow> is_digit (ucast c) \<and> c < 0x80 \<and> (0 < d \<longrightarrow> c \<noteq> 48))
      [0, 1, 2, 3, 4, 5, 6, 7, 8, 9, 10, 11, 12, 13, 14, 15 :: nat]
      [48, 49, 50, 51, 52, 53, 54, 55, 56, 57, 97, 98, 99, 100, 101, 102 :: byte]"
    by (simp add: is_digit_def word_le_nat_alt)
  then show ?thesis by (subst (asm) on_digits [symmetric])
qed

lemma decimal_digit [simp]:
  "d < 10 \<Longrightarrow> is_digit (ucast (digit_char d))" "d < 10 \<Longrightarrow> digit_char d < 0x80"
  "d < 10 \<Longrightarrow> 0 < d \<Longrightarrow> digit_char d \<noteq> 48"
proof -
  assume "d < 10"
  moreover from this have "d < 16" by simp
  ultimately have "is_digit (ucast (digit_char d)) \<and> digit_char d < 0x80 \<and> (0 < d \<longrightarrow> digit_char d \<noteq> 48)"
    using decimal_digit_all by blast
  then show "is_digit (ucast (digit_char d))" "digit_char d < 0x80" "0 < d \<Longrightarrow> digit_char d \<noteq> 48" by simp_all
qed

lemma byte_eq_unat: "(x :: byte) = y \<longleftrightarrow> unat x = unat y"
  by (auto intro: unsigned_word_eqI)

lemma show_base_leading:
  "1 < base \<Longrightarrow> 0 < n \<Longrightarrow> \<exists>d cs. show_base base n = digit_char d # cs \<and> 0 < d \<and> d < base"
proof (induction base n rule: show_base.induct)
  case (1 base n)
  show ?case
  proof (cases "n < base")
    case True
    with 1 show ?thesis by (auto simp: show_base.simps [of base n])
  next
    case False
    with 1 have "0 < n div base" by (simp add: div_greater_zero_iff)
    with 1 False obtain d cs where "show_base base (n div base) = digit_char d # cs" "0 < d" "d < base" by auto
    with 1 False show ?thesis by (auto simp: show_base.simps [of base n])
  qed
qed

lemma show_int_shape:
  assumes "i \<noteq> 0"
  shows "ascii (show_int i)"
    and "\<exists>c cs. show_int i = c # cs \<and> (c = 45 \<or> (is_digit (ucast c) \<and> c \<noteq> 48)) \<and> list_all is_digit (map ucast cs)"
proof -
  let ?n = "nat \<bar>i\<bar>"
  have digits: "list_all is_digit (map ucast (show_base 10 ?n))" "ascii (show_base 10 ?n)"
    using set_show_base [of _ 10 ?n] by (auto simp: list_all_iff ascii_def) (metis decimal_digit(1), metis decimal_digit(2))
  from show_base_leading [of 10 ?n] assms obtain d cs where d: "show_base 10 ?n = digit_char d # cs" "0 < d" "d < 10"
    by auto
  have "show_int i = (if i < 0 then 45 # show_base 10 ?n else show_base 10 ?n)" by (simp add: show_int_def)
  moreover have "digit_char d \<noteq> 48" using decimal_digit(3) [of d] d by auto
  ultimately show "ascii (show_int i)"
    and "\<exists>c cs. show_int i = c # cs \<and> (c = 45 \<or> (is_digit (ucast c) \<and> c \<noteq> 48)) \<and> list_all is_digit (map ucast cs)"
    using digits d by auto
qed

lemma int_steps:
  assumes "boost_ok e" "c \<in> {44, 93, 125}" "i \<noteq> 0" "- (2 ^ 63) \<le> i" "i < 2 ^ 63"
    and "accepts b e (push (OI64 (word_of_int i)) p) c os p'"
  shows "steps b e (T0, p) (map ucast (show_int i) @ [c]) os (T0, p')"
proof -
  obtain x xs where x: "show_int i = x # xs" "x = 45 \<or> (is_digit (ucast x) \<and> x \<noteq> 48)" "list_all is_digit (map ucast xs)"
    using show_int_shape(2) [OF assms(3)] by auto
  have "(ucast x :: u32) = 45 \<or> (is_digit (ucast x) \<and> (ucast x :: u32) \<noteq> 48)"
    using x(2) by (auto simp: word_eq_unat byte_eq_unat)
  from number_steps [OF this x(3)] x(1)
  have "steps b e (T0, p) (map ucast (show_int i)) [] (in_number (map ucast (show_int i)), p)" by simp
  moreover have "to_u8 e (map ucast (show_int i)) = Inr (show_int i)"
    by (rule to_u8_ascii [OF assms(1) show_int_shape(1) [OF assms(3)]])
  moreover have "lexical_i64 e (show_int i) = Some (word_of_int i)"
    using assms(1,4,5) by (simp add: boost_ok_def)
  ultimately show ?thesis
    using end_number_step [OF assms(2) _ _ assms(6)] steps_silent by blast
qed

text \<open>Strings and keys.\<close>

lemma string_points:
  "list_all good_cp cs \<Longrightarrow> steps b e (in_string buf, p) (map ucast (concat (map json_char cs))) [] (in_string (buf @ cs), p)"
proof (induction cs arbitrary: buf)
  case Nil
  then show ?case by (simp add: steps_Nil)
next
  case (Cons c cs)
  from steps_silent [OF json_char_steps Cons.IH] Cons.prems show ?case by simp
qed

lemma string_steps:
  assumes "boost_ok e" "plain_string b s"
  shows "steps b e (T0, p) (map ucast (string_text b s)) [] (T0, push (OString s) p)"
proof -
  from assms(2) obtain cs where cs: "iterate b s = Inr cs" "list_all good_cp cs" "encode_all Release cs = Inr s"
    by (auto simp: plain_string_def split: sum.splits)
  have "scalar_values cs"
    using cs(2) by (auto simp: scalar_values_def list_all_iff good_cp_def word_less_nat_alt)
  then have "to_u8 e cs = Inr s" using assms(1) cs(3) by (simp add: boost_ok_def converts_def)
  from steps_silent_Cons [OF open_string steps_silent [OF string_points [OF cs(2)] close_string]] this
  show ?thesis by (simp add: string_text_def quoted_def cs(1))
qed

lemma key_steps:
  assumes "boost_ok e" "plain_key k"
  shows "steps b e (T0, p) (map ucast (quoted k)) [] (T0, push (OString k) p)"
proof -
  have a: "ascii k" using assms(2) by (auto simp: plain_key_def ascii_def list_all_iff)
  have "(ucast c :: u32) \<noteq> 34 \<and> (ucast c :: u32) \<noteq> 92" if "c \<in> set k" for c
    using assms(2) that by (auto simp: plain_key_def list_all_iff word_eq_unat byte_eq_unat)
  then have "\<forall>c \<in> set (map ucast k :: u32 list). c \<noteq> 34 \<and> c \<noteq> 92" by auto
  from steps_silent_Cons [OF open_string steps_silent [OF plain_points [OF this] close_string]]
    to_u8_ascii [OF assms(1) a]
  show ?thesis by (simp add: quoted_def)
qed


section \<open>Values inside containers\<close>

lemma canon_not_mark: "jsonable b v \<Longrightarrow> type_tag (canon v) \<noteq> 61"
  by (cases v) auto

lemma uint_low: "- (2 ^ 63) \<le> uint (n :: 'a::len word)"
  by (rule order_trans [of _ 0]) simp_all

lemma sint_nonzero [simp]: "sint (n :: 'a::len word) = 0 \<longleftrightarrow> n = 0"
  by (metis sint_0 of_int_0 of_int_sint scast_id)

lemma uint_nonzero [simp]: "uint (n :: 'a::len word) = 0 \<longleftrightarrow> n = 0"
  by (simp add: uint_0_iff)

lemma integer_text:
  assumes j: "jsonable b v" "integer v = Some i"
  shows "json_text b v = show_int i \<and> canon v = OI64 (word_of_int i) \<and> i \<noteq> 0 \<and> - (2 ^ 63) \<le> i \<and> i < 2 ^ 63"
proof (cases v)
  case (OI8 n)
  with j have "i = sint n" "n \<noteq> 0" by simp_all
  with OI8 show ?thesis using sint_ge [of n] sint_lt [of n] by simp
next
  case (OI16 n)
  with j have "i = sint n" "n \<noteq> 0" by simp_all
  with OI16 show ?thesis using sint_ge [of n] sint_lt [of n] by simp
next
  case (OI32 n)
  with j have "i = sint n" "n \<noteq> 0" by simp_all
  with OI32 show ?thesis using sint_ge [of n] sint_lt [of n] by simp
next
  case (OI64 n)
  with j have "i = sint n" "n \<noteq> 0" by simp_all
  with OI64 show ?thesis using sint_ge [of n] sint_lt [of n] by simp
next
  case (OU8 n)
  with j have "i = uint n" "n \<noteq> 0" by simp_all
  with OU8 show ?thesis using uint_low [of n] unsigned_less [of n, where 'a = int] by simp
next
  case (OU16 n)
  with j have "i = uint n" "n \<noteq> 0" by simp_all
  with OU16 show ?thesis using uint_low [of n] unsigned_less [of n, where 'a = int] by simp
next
  case (OU32 n)
  with j have "i = uint n" "n \<noteq> 0" by simp_all
  with OU32 show ?thesis using uint_low [of n] unsigned_less [of n, where 'a = int] by simp
next
  case (OU64 n)
  with j have "i = uint n" "n \<noteq> 0" by simp_all
  moreover have "unat n < 2 ^ 63" using j OU64 by simp
  then have "int (unat n) < int (2 ^ 63)" by (simp only: of_nat_less_iff)
  then have "uint n < 2 ^ 63" by simp
  ultimately show ?thesis using OU64 uint_low [of n] by simp
qed (use j in simp_all)

text \<open>
  The property of a value that containers need: before a structural character it is read, and the
  character then acts on the stacks with the value on top.
\<close>

definition readable :: "build \<Rightarrow> json_env \<Rightarrow> object \<Rightarrow> bool" where
  "readable b e v \<longleftrightarrow> (\<forall>p c os p'. states p \<noteq> [] \<longrightarrow> c \<in> {44, 93, 125} \<longrightarrow> accepts b e (push (canon v) p) c os p' \<longrightarrow>
     steps b e (T0, p) (map ucast (json_text b v) @ [c]) os (T0, p'))"

lemma readableD:
  "readable b e v \<Longrightarrow> states p \<noteq> [] \<Longrightarrow> c \<in> {44, 93, 125} \<Longrightarrow> accepts b e (push (canon v) p) c os p' \<Longrightarrow>
   steps b e (T0, p) (map ucast (json_text b v) @ [c]) os (T0, p')"
  unfolding readable_def by blast

lemma array_steps:
  assumes "vs \<noteq> []" "\<forall>v \<in> set vs. readable b e v" "states p = ARRAY # ss"
    and "accepts b e (p\<lparr>operands := rev (map canon vs) @ operands p\<rparr>) 93 os p'"
  shows "steps b e (T0, p) (map ucast (joined [44, 32] (map (json_text b) vs)) @ [93]) os (T0, p')"
  using assms
proof (induction vs arbitrary: p rule: induct_list012)
  case 1
  then show ?case by simp
next
  case (2 v)
  have "accepts b e (push (canon v) p) 93 os p'" using 2 by (simp add: push_def)
  with 2 show ?case by (simp add: readableD)
next
  case (3 v w vs)
  let ?p = "push (canon v) p"
  have "accepts b e ?p 44 [] ?p" using "3.prems" by (intro comma_array [of _ ss]) (simp add: push_def)
  then have 1: "steps b e (T0, p) (map ucast (json_text b v) @ [44]) [] (T0, ?p)"
    using "3.prems" by (intro readableD) auto
  have "accepts b e (?p\<lparr>operands := rev (map canon (w # vs)) @ operands ?p\<rparr>) 93 os p'"
    using "3.prems"(4) by (simp add: push_def)
  then have 2: "steps b e (T0, ?p) (map ucast (joined [44, 32] (map (json_text b) (w # vs))) @ [93]) os (T0, p')"
    using "3.prems" by (intro "3.IH"(2)) (auto simp: push_def)
  from steps_silent [OF 1 steps_silent_Cons [OF space_step 2]] show ?case by simp
qed

definition member_text :: "build \<Rightarrow> byte list \<times> object \<Rightarrow> byte list" where
  "member_text b a = quoted (fst a) @ [58] @ json_text b (snd a)"

definition canon_member :: "byte list \<times> object \<Rightarrow> byte list \<times> object" where
  "canon_member a = (fst a, canon (snd a))"

lemma member_steps:
  assumes "boost_ok e" "plain_key (fst a)" "readable b e (snd a)" "states p = OBJECT # ss" "c \<in> {44, 93, 125}"
    and "accepts b e (p\<lparr>states := VALUE # ss, operands := canon (snd a) # OString (fst a) # operands p\<rparr>) c os p'"
  shows "steps b e (T0, p) (map ucast (member_text b a) @ [c]) os (T0, p')"
proof -
  let ?p1 = "push (OString (fst a)) p" and ?p2 = "(push (OString (fst a)) p)\<lparr>states := VALUE # ss\<rparr>"
  have k: "steps b e (T0, p) (map ucast (quoted (fst a))) [] (T0, ?p1)" by (rule key_steps [OF assms(1,2)])
  have col: "steps b e (T0, ?p1) [58] [] (T0, ?p2)"
    by (rule accepts_step, rule colon_object) (use assms(4) in \<open>simp add: push_def\<close>)
  have "push (canon (snd a)) ?p2 = p\<lparr>states := VALUE # ss, operands := canon (snd a) # OString (fst a) # operands p\<rparr>"
    by (simp add: push_def)
  then have v: "steps b e (T0, ?p2) (map ucast (json_text b (snd a)) @ [c]) os (T0, p')"
    using assms(5,6) by (intro readableD [OF assms(3)]) auto
  from steps_silent [OF k steps_silent_Cons [OF col v]] show ?thesis by (simp add: member_text_def)
qed

lemma object_steps:
  assumes "boost_ok e" "m \<noteq> []" "\<forall>a \<in> set m. plain_key (fst a) \<and> readable b e (snd a)"
    and "states p = OBJECT # ss" "operands p = params (rev done) @ OEod # vs"
    and "sorted_keys (done @ map canon_member m)" "ss = [] \<Longrightarrow> vs = []"
  shows "steps b e (T0, p) (map ucast (joined [44] (map (member_text b) m)) @ [125])
    (fst (finish p (OParamMap (done @ map canon_member m)) ss vs))
    (T0, snd (finish p (OParamMap (done @ map canon_member m)) ss vs))"
  using assms
proof (induction m arbitrary: p "done" rule: induct_list012)
  case 1
  then show ?case by simp
next
  case (2 a)
  let ?q = "p\<lparr>states := VALUE # ss, operands := canon (snd a) # OString (fst a) # operands p\<rparr>"
  have "finish ?q obj ss vs = finish p obj ss vs" for obj by (simp add: finish_def)
  with close_object [of ?q ss "canon (snd a)" "fst a" "done" vs b e] 2
  have "accepts b e ?q 125 (fst (finish p (OParamMap (done @ map canon_member [a])) ss vs))
    (snd (finish p (OParamMap (done @ map canon_member [a])) ss vs))"
    by (simp add: canon_member_def)
  from member_steps [OF "2.prems"(1) _ _ "2.prems"(4) _ this] "2.prems"(3) show ?case by simp
next
  case (3 a a2 m)
  let ?q = "p\<lparr>states := VALUE # ss, operands := canon (snd a) # OString (fst a) # operands p\<rparr>"
  let ?p = "p\<lparr>states := OBJECT # ss, operands := params (rev (done @ [canon_member a])) @ OEod # vs\<rparr>"
  have "operands p \<noteq> []" using "3.prems"(5) by simp
  then obtain x xs where x: "operands p = x # xs" by (cases "operands p") auto
  have "accepts b e ?q 44 [] (?q\<lparr>states := OBJECT # ss, operands := OParam (fst a) (canon (snd a)) # x # xs\<rparr>)"
    by (rule comma_object) (simp_all add: x)
  moreover have "?q\<lparr>states := OBJECT # ss, operands := OParam (fst a) (canon (snd a)) # x # xs\<rparr> = ?p"
    using x "3.prems"(5) by (simp add: canon_member_def)
  ultimately have "accepts b e ?q 44 [] ?p" by simp
  from member_steps [OF "3.prems"(1) _ _ "3.prems"(4) _ this] "3.prems"(3)
  have 1: "steps b e (T0, p) (map ucast (member_text b a) @ [44]) [] (T0, ?p)" by simp
  have f: "finish ?p obj ss vs = finish p obj ss vs" for obj by (simp add: finish_def)
  have 2: "steps b e (T0, ?p) (map ucast (joined [44] (map (member_text b) (a2 # m))) @ [125])
    (fst (finish p (OParamMap (done @ map canon_member (a # a2 # m))) ss vs))
    (T0, snd (finish p (OParamMap (done @ map canon_member (a # a2 # m))) ss vs))"
    using "3.IH"(2) [of ?p "done @ [canon_member a]"] "3.prems" f by simp
  from steps_silent [OF 1 2] show ?case by simp
qed


section \<open>Round trip\<close>

lemma vector_steps:
  assumes "vs \<noteq> []" "\<forall>v \<in> set vs. readable b e v" "\<forall>v \<in> set vs. type_tag (canon v) \<noteq> 61"
    and "states p = [] \<Longrightarrow> operands p = []"
  shows "steps b e (T0, p) (map ucast (json_text b (OVector vs)))
    (fst (finish p (canon (OVector vs)) (states p) (operands p)))
    (T0, snd (finish p (canon (OVector vs)) (states p) (operands p)))"
proof -
  let ?p1 = "p\<lparr>states := ARRAY # states p, operands := OEod # operands p\<rparr>"
  let ?p2 = "?p1\<lparr>operands := rev (map canon vs) @ operands ?p1\<rparr>"
  let ?obj = "OVector (map canon vs)"
  have "finish ?p2 ?obj (states p) (operands p) = finish p ?obj (states p) (operands p)" by (simp add: finish_def)
  moreover have "accepts b e ?p2 93 (fst (finish ?p2 ?obj (states p) (operands p))) (snd (finish ?p2 ?obj (states p) (operands p)))"
    by (rule close_array) (use assms in \<open>auto simp: list_all_iff\<close>)
  ultimately have a: "accepts b e ?p2 93 (fst (finish p ?obj (states p) (operands p))) (snd (finish p ?obj (states p) (operands p)))"
    by simp
  have "steps b e (T0, ?p1) (map ucast (joined [44, 32] (map (json_text b) vs)) @ [93])
      (fst (finish p ?obj (states p) (operands p))) (T0, snd (finish p ?obj (states p) (operands p)))"
    by (rule array_steps [OF assms(1,2) _ a]) simp
  from steps_silent_Cons [OF accepts_step [OF open_array] this] assms(1) show ?thesis by simp
qed

lemma sorted_canon: "sorted_keys (map canon_member m) \<longleftrightarrow> sorted_keys m"
proof (induction m)
  case (Cons a m)
  then show ?case by (cases a) (simp add: canon_member_def)
qed simp

lemma param_map_steps:
  assumes "boost_ok e" "m \<noteq> []" "\<forall>a \<in> set m. plain_key (fst a) \<and> readable b e (snd a)" "sorted_keys m"
    and "states p = [] \<Longrightarrow> operands p = []"
  shows "steps b e (T0, p) (map ucast (json_text b (OParamMap m)))
    (fst (finish p (canon (OParamMap m)) (states p) (operands p)))
    (T0, snd (finish p (canon (OParamMap m)) (states p) (operands p)))"
proof -
  let ?p1 = "p\<lparr>states := OBJECT # states p, operands := OEod # operands p\<rparr>"
  let ?obj = "OParamMap (map canon_member m)"
  have f: "finish ?p1 ?obj (states p) (operands p) = finish p ?obj (states p) (operands p)" by (simp add: finish_def)
  have "steps b e (T0, ?p1) (map ucast (joined [44] (map (member_text b) m)) @ [125])
      (fst (finish p ?obj (states p) (operands p))) (T0, snd (finish p ?obj (states p) (operands p)))"
    using object_steps [OF assms(1-3), of ?p1 "states p" "[]" "operands p"] assms(4,5) f by (simp add: sorted_canon)
  moreover have "json_text b (OParamMap m) = [123] @ joined [44] (map (member_text b) m) @ [125]"
  proof -
    have "member_text b = (\<lambda>a. quoted (fst a) @ [58] @ json_text b (snd a))"
      by (rule ext) (simp add: member_text_def)
    with assms(2) show ?thesis by simp
  qed
  moreover have "canon (OParamMap m) = ?obj"
  proof -
    have "canon_member = (\<lambda>a. (fst a, canon (snd a)))" by (rule ext) (simp add: canon_member_def)
    with assms(2) show ?thesis by simp
  qed
  ultimately show ?thesis using steps_silent_Cons [OF accepts_step [OF open_object]] by simp
qed

lemma finish_push: "states p \<noteq> [] \<Longrightarrow> finish p obj (states p) (operands p) = ([], push obj p)"
  by (cases p) (simp add: finish_def push_def)

lemma readable_done:
  assumes "\<And>p. states p \<noteq> [] \<Longrightarrow> steps b e (T0, p) (map ucast (json_text b v)) [] (T0, push (canon v) p)"
  shows "readable b e v"
  unfolding readable_def using steps_silent [OF assms accepts_step] by blast

lemma readable_container:
  assumes "\<And>p. (states p = [] \<Longrightarrow> operands p = []) \<Longrightarrow> steps b e (T0, p) (map ucast (json_text b v))
    (fst (finish p (canon v) (states p) (operands p))) (T0, snd (finish p (canon v) (states p) (operands p)))"
  shows "readable b e v"
proof (rule readable_done)
  fix p :: stacks assume p: "states p \<noteq> []"
  from assms [of p] p show "steps b e (T0, p) (map ucast (json_text b v)) [] (T0, push (canon v) p)"
    by (simp add: finish_push)
qed

lemma readable_null: "boost_ok e \<Longrightarrow> json_text b v = str ''null'' \<Longrightarrow> canon v = ONull \<Longrightarrow> readable b e v"
  unfolding readable_def using keyword_steps(1) by metis

lemma readable_integer: "integer v \<noteq> None \<Longrightarrow> boost_ok e \<Longrightarrow> jsonable b v \<Longrightarrow> readable b e v"
proof -
  assume a: "integer v \<noteq> None" "boost_ok e" "jsonable b v"
  then obtain i where i: "integer v = Some i" by auto
  from integer_text [OF a(3) i] int_steps [OF a(2)] show ?thesis unfolding readable_def by simp
qed

lemma ascii_integer: "integer v \<noteq> None \<Longrightarrow> jsonable b v \<Longrightarrow> ascii (json_text b v)"
  using integer_text [of b v] show_int_shape(1) by fastforce

lemma readable_jsonable: "boost_ok e \<Longrightarrow> jsonable b v \<Longrightarrow> readable b e v"
proof (induction v)
  case ONull
  then show ?case by (intro readable_null) auto
next
  case (OBool x)
  then show ?case unfolding readable_def using keyword_steps(2) by simp
next
  case (OString s)
  then show ?case by (intro readable_done) (simp add: string_steps)
next
  case (OVector vs)
  show ?case
  proof (cases "vs = []")
    case True
    with OVector.prems show ?thesis by (intro readable_null) auto
  next
    case False
    have "\<forall>v \<in> set vs. readable b e v \<and> type_tag (canon v) \<noteq> 61"
      using OVector canon_not_mark by (auto simp: list_all_iff)
    with vector_steps [OF False, of b e] show ?thesis by (intro readable_container) blast
  qed
next
  case (OParamMap m)
  show ?case
  proof (cases "m = []")
    case True
    with OParamMap.prems show ?thesis by (intro readable_null) auto
  next
    case False
    have "\<forall>a \<in> set m. plain_key (fst a) \<and> readable b e (snd a)"
    proof
      fix a assume "a \<in> set m"
      with OParamMap.IH [of a "snd a"] OParamMap.prems
      show "plain_key (fst a) \<and> readable b e (snd a)" by (cases a) (auto simp: list_all_iff)
    qed
    with param_map_steps [OF OParamMap.prems(1) False] OParamMap.prems(2) show ?thesis
      by (intro readable_container) simp
  qed
qed (rule readable_integer; simp)+

lemma ascii_joined: "ascii sep \<Longrightarrow> \<forall>t \<in> set ts. ascii t \<Longrightarrow> ascii (joined sep ts)"
  by (induction sep ts rule: joined.induct) auto

lemma ascii_json_char: "good_cp c \<Longrightarrow> ascii (json_char c)"
proof -
  assume "good_cp c"
  then have "unat c < 65536" by (auto simp: good_cp_def word_less_nat_alt)
  then have "setw0 4 (show_base 16 (unat c)) = fixed 16 4 (unat c)" by (simp add: setw0_show_base)
  moreover have "\<forall>d < 16. digit_char d < 0x80" unfolding on_digits by code_simp
  ultimately have "ascii (setw0 4 (show_base 16 (unat c)))"
    using set_fixed [of _ 16 4 "unat c"] by (auto simp: ascii_def)
  then show ?thesis
    by (auto simp: json_char_def backslash_def byte_of_char_def word_less_nat_alt unat_byte)
qed

lemma ascii_json_text: "jsonable b v \<Longrightarrow> ascii (json_text b v)"
proof (induction v)
  case (OString s)
  then show ?case
    using ascii_json_char
    by (auto simp: plain_string_def string_text_def quoted_def ascii_def list_all_iff split: sum.splits)
next
  case (OVector vs)
  then show ?case by (auto simp: list_all_iff keyword_letters intro!: ascii_joined)
next
  case (OParamMap m)
  have "ascii (quoted (fst a) @ [58] @ json_text b (snd a))" if "a \<in> set m" for a
    using OParamMap.prems OParamMap.IH [of a "snd a"] that
    by (cases a) (auto simp: list_all_iff plain_key_def ascii_def quoted_def)
  then show ?case by (auto simp: keyword_letters intro!: ascii_joined)
next
  case ONull
  then show ?case by (simp add: keyword_letters)
next
  case (OBool x)
  then show ?case by (simp add: keyword_letters show_bool_def)
qed (rule ascii_integer; simp)+


text \<open>C18. JSON written by the serializer and read by the parser gives the value back, up to the type of
  integers (all become 64-bit signed) and empty containers (written as null).  The values (\<open>jsonable\<close>) are
  non-empty vectors and parameter maps over null, booleans, non-zero integers below \<open>2 ^ 63\<close>, strings that the UTF-8
  decoder reads as code points whose encoding they are (so none from U+0400 to U+07FF, which it loses: no Cyrillic,
  Hebrew or Arabic) and that are below U+10000, no surrogates, and neither bell, vertical tab nor single quote, and
  keys of ASCII characters without quotes and backslashes.  \<^verbatim>\<open>lexical_cast\<close> is assumed to read decimal numbers, and the
  conversion of code points to bytes to be UTF-8 (\<open>boost_ok\<close>).  The parser ends in its initial state.\<close>

theorem json_roundtrip:
  assumes "boost_ok e" "jsonable b v" "v = OVector vs \<and> vs \<noteq> [] \<or> v = OParamMap m \<and> m \<noteq> []"
  shows "\<exists>text d. to_json b p h v = Inr text \<and>
    json_read b e parser_init text =
      ([canon v], Inr (parser_init\<lparr>decoder := d, counter := length text\<rparr>)) \<and>
    parse_file b e (Some text) = Inr (canon v)"
proof -
  let ?p0 = "\<lparr>states = [], operands = []\<rparr>"
  have "steps b e (T0, ?p0) (map ucast (json_text b v)) [canon v] (T0, ?p0)"
  proof (cases "v = OVector vs \<and> vs \<noteq> []")
    case True
    with assms have "\<forall>v \<in> set vs. readable b e v" "\<forall>v \<in> set vs. type_tag (canon v) \<noteq> 61"
      by (auto simp: list_all_iff readable_jsonable canon_not_mark)
    with vector_steps [of vs b e ?p0] True show ?thesis by (simp add: finish_def)
  next
    case False
    with assms have m: "v = OParamMap m" "m \<noteq> []" by auto
    with assms have "\<forall>a \<in> set m. plain_key (fst a) \<and> readable b e (snd a)" "sorted_keys m"
      by (auto simp: list_all_iff readable_jsonable)
    with param_map_steps [OF assms(1) m(2), of b ?p0] m show ?thesis by (simp add: finish_def)
  qed
  then have s: "steps b e (lexer parser_init, stack parser_init) (map ucast (json_text b v)) [canon v]
      (T0, ?p0)" by (simp add: parser_init_def)
  have "glyph_size (decoder parser_init) = 0" by (simp add: parser_init_def u8_to_u32_init_def)
  from json_read_ascii [OF ascii_json_text [OF assms(2)] this s]
  have r: "json_read b e parser_init (json_text b v) = ([canon v], Inr (parser_init\<lparr>decoder :=
      seen (json_text b v) (decoder parser_init), counter := length (json_text b v)\<rparr>))"
    by (simp add: parser_init_def)
  show ?thesis
    by (intro exI conjI) (rule to_json_text [OF assms(2)], rule r, simp add: parse_file_def r)
qed

text \<open>A conversion of decimal digits that has the property asked of \<^verbatim>\<open>lexical_cast\<close>, for the examples.\<close>

definition decimal_i64 :: "byte list \<Rightarrow> u64 option" where
  "decimal_i64 s = map_option (\<lambda>(neg, v). word_of_int (if neg then - int v else int v)) (str_to_number 10 s)"

definition example_env :: json_env where
  "example_env = \<lparr>to_u8 = encode_all Release, u8_error = [], lexical_i64 = decimal_i64, lexical_double = (\<lambda>_. None)\<rparr>"

definition example_printers :: json_printers where
  "example_printers = \<lparr>pr_float = (\<lambda>_. []), pr_double = (\<lambda>_. []), pr_float80 = (\<lambda>_. []), pr_chrono = (\<lambda>_ _. []),
     pr_ec = (\<lambda>_ _. []), js_time_t = id, js_time = (\<lambda>_. []), js_endpoint = (\<lambda>_ _. [])\<rparr>"

lemma str_to_number_negative: "str_to_number 10 (45 # show_base 10 k) = Some (True, k)"
proof -
  obtain m where m: "m > 0" "read_digits 10 0 0 (show_base 10 k) = (k, m)"
    using read_digits_show_base [of 10 k] by auto
  have "hex_prefix 10 (show_base 10 k) = show_base 10 k"
    by (auto simp: hex_prefix_def split: list.split)
  with m show ?thesis by (simp add: str_to_number_def Let_def is_space_def word_le_nat_alt)
qed

lemma boost_ok_example: "boost_ok example_env"
proof -
  have "decimal_i64 (show_int i) = Some (word_of_int i)" for i
    by (auto simp: decimal_i64_def show_int_def str_to_number_negative str_to_number_show_base)
  then show ?thesis by (simp add: boost_ok_def converts_def example_env_def)
qed

theorem json_roundtrip_witness:
  "parse_file Debug example_env (Some (projr (to_json Debug example_printers Little
     (OParamMap [(str ''a'', OVector [OI32 5, OBool True, ONull, OString (str ''x'')]), (str ''b'', OVector [])])))) =
   Inr (OParamMap [(str ''a'', OVector [OI64 5, OBool True, ONull, OString (str ''x'')]), (str ''b'', ONull)])"
proof -
  let ?v = "OParamMap [(str ''a'', OVector [OI32 5, OBool True, ONull, OString (str ''x'')]), (str ''b'', OVector [])]"
  have s: "str ''a'' = [97]" "str ''b'' = [98]" "str ''x'' = [120]" by (simp_all add: str_def byte_of_char_def)
  have "iterate Debug [120] = Inr [120]"
    by (subst iterate.simps, subst iterate.simps)
      (simp add: dereference_def put_u8_def u8_to_u32_init_def boost_assert_def)
  moreover have "encode_all Release [120] = Inr [120]" by (simp add: utf8_bytes)
  ultimately have j: "jsonable Debug ?v"
    by (simp add: s plain_key_def plain_string_def good_cp_def)
  from json_roundtrip [OF boost_ok_example j, of _ _ example_printers Little] show ?thesis
    by fastforce
qed

section \<open>What is lost\<close>

lemma unknown_escape:
  assumes "d \<notin> {34, 92, 47, 98, 102, 110, 114, 116, 117}"
  shows "steps b e (in_string buf, p) [92, d] [] (in_string buf, p)"
proof -
  have "steps b e (in_escape buf, p) [d] [] (in_string buf, p)"
    by (rule step_take [where syms = "[]"]) (use assms in \<open>simp_all add: tk_put_def state_escape_def goto_def\<close>)
  from steps_silent_Cons [OF start_escape this] show ?thesis .
qed

definition kept :: "u32 list \<Rightarrow> u32 list" where
  "kept cs = filter (\<lambda>c. c \<notin> {7, 11, 39}) cs"

definition two_bytes :: "u32 \<Rightarrow> bool" where
  "two_bytes c \<longleftrightarrow> c < 0xD800 \<or> (0xE000 \<le> c \<and> c < 0x10000)"

lemma string_points_kept:
  "list_all two_bytes cs \<Longrightarrow> steps b e (in_string buf, p) (map ucast (concat (map json_char cs))) [] (in_string (buf @ kept cs), p)"
proof (induction cs arbitrary: buf)
  case Nil
  then show ?case by (simp add: steps_Nil kept_def)
next
  case (Cons c cs)
  have "steps b e (in_string buf, p) (map ucast (json_char c)) [] (in_string (buf @ kept [c]), p)"
  proof (cases "c \<in> {7, 11, 39}")
    case True
    with unknown_escape [of 97 b e buf p] unknown_escape [of 118 b e buf p] unknown_escape [of 39 b e buf p]
    show ?thesis by (auto simp: json_char_def kept_def backslash_def byte_of_char_def)
  next
    case False
    with Cons.prems json_char_steps [of c b e buf p] show ?thesis by (simp add: kept_def good_cp_def two_bytes_def)
  qed
  from steps_silent [OF this Cons.IH] Cons.prems
  have "steps b e (in_string buf, p) (map ucast (concat (map json_char (c # cs)))) [] (in_string (buf @ kept [c] @ kept cs), p)"
    by simp
  moreover have "kept [c] @ kept cs = kept (c # cs)" by (simp add: kept_def)
  ultimately show ?case by simp
qed

lemma zero_steps:
  assumes "boost_ok e" "lexical_double e [] = None" "states p \<noteq> []" "accepts b e (push (OString []) p) 93 os p'"
  shows "steps b e (T0, p) [48, 93] os (T0, p')"
proof -
  let ?x = "\<lparr>tk_state = IN_EXPONENT, tk_buffer = []\<rparr>"
  let ?d = "\<lparr>tk_state = IN_DIGITS, tk_buffer = []\<rparr>"
  have "steps b e (T0, p) [48] [] (?x, p)"
    by (rule step_take [where syms = "[]"]) (auto simp: tk_put_def state_start_def goto_def tokenizer_init_def)
  moreover have "steps b e (?x, p) [93] os (T0, p')"
    unfolding steps_def
  proof (intro allI impI)
    fix s :: parser assume s: "lexer s = fst (?x, p) \<and> stack s = snd (?x, p)"
    have 1: "tk_step b e s 93 = ([], Inr (s\<lparr>lexer := ?d, stack := p\<rparr>, False))"
      using s by (intro tk_step_ok [where syms = "[]"]) (simp_all add: tk_put_def state_exponent_def goto_def)
    let ?s1 = "s\<lparr>lexer := ?d, stack := p\<rparr>"
    have u: "to_u8 e [] = Inr []" using to_u8_ascii [OF assms(1), of "[]"] by simp
    have 2: "tk_step b e ?s1 93 = ([], Inr (?s1\<lparr>lexer := T0, stack := push (OString []) p\<rparr>, False))"
      by (rule tk_step_ok [where syms = "[Symbol FLOAT []]"])
        (simp_all add: tk_put_def state_digits_def is_digit_def word_le_nat_alt emit_buffer_def u tokenizer_init_def
          next_symbol_def process_float_def assms(2))
    let ?s2 = "?s1\<lparr>lexer := T0, stack := push (OString []) p\<rparr>"
    have 3: "tk_step b e ?s2 93 = (os, Inr (?s2\<lparr>lexer := T0, stack := p'\<rparr>, True))"
      by (rule tk_step_ok [where syms = "[Symbol SYMBOL [93]]"])
        (use assms(4) tk_structural [of 93 b e] in \<open>simp_all add: accepts_def\<close>)
    show "next_code_points b e s [93] = (os, Inr (s\<lparr>lexer := fst (T0, p'), stack := snd (T0, p')\<rparr>))"
      using 1 2 3 by (simp add: numeral_eq_Suc next_code_point_Suc)
  qed
  ultimately show ?thesis using steps_silent_Cons by blast
qed

lemma read_array_of:
  assumes "steps b e (T0, \<lparr>states = [ARRAY], operands = [OEod]\<rparr>) (map ucast t @ [93]) [OVector [x]] (T0, \<lparr>states = [], operands = []\<rparr>)"
    and "ascii t"
  shows "fst (json_read b e parser_init ([91] @ t @ [93])) = [OVector [x]]"
proof -
  let ?p0 = "\<lparr>states = [], operands = []\<rparr>"
  have "steps b e (T0, ?p0) (map ucast ([91] @ t @ [93])) [OVector [x]] (T0, ?p0)"
    using steps_silent_Cons [OF accepts_step [OF open_array [of b e ?p0]]] assms(1) by simp
  then have "steps b e (lexer parser_init, stack parser_init) (map ucast ([91] @ t @ [93])) [OVector [x]] (T0, ?p0)"
    by (simp add: parser_init_def)
  from json_read_ascii [OF _ _ this] assms(2) show ?thesis
    by (simp add: parser_init_def u8_to_u32_init_def)
qed

lemma close_single:
  assumes "type_tag x \<noteq> 61"
  shows "accepts b e (push x \<lparr>states = [ARRAY], operands = [OEod]\<rparr>) 93 [OVector [x]] \<lparr>states = [], operands = []\<rparr>"
  using close_array [of "push x \<lparr>states = [ARRAY], operands = [OEod]\<rparr>" "[]" "[x]" "[]" b e] assms
  by (simp add: push_def finish_def)

text \<open>What JSON loses between the serializer and the parser: the integer zero is written as \<^verbatim>\<open>0\<close> and
  read as an empty string, and the characters bell, vertical tab and single quote are written as
  escape sequences that the parser drops.\<close>

theorem json_losses:
  assumes "boost_ok e" "lexical_double e [] = None" "iterate b s = Inr cs" "list_all two_bytes cs"
    and "encode_all Release (kept cs) = Inr t"
  shows "to_json b p h (OVector [OI64 0]) = Inr (str ''[0]'') \<and>
    fst (json_read b e parser_init (str ''[0]'')) = [OVector [OString []]] \<and>
    to_json b p h (OVector [OString s]) = Inr ([91] @ string_text b s @ [93]) \<and>
    fst (json_read b e parser_init ([91] @ string_text b s @ [93])) = [OVector [OString t]]"
proof (intro conjI)
  have s0: "str ''[0]'' = [91] @ [48] @ [93]" by (simp add: str_def byte_of_char_def)
  show "to_json b p h (OVector [OI64 0]) = Inr (str ''[0]'')"
    by (simp add: s0 to_json_def w_container_def w_braced_def w_enclosed_def json_value_def show_int_def
        show_base.simps digit_char_def)
  show "fst (json_read b e parser_init (str ''[0]'')) = [OVector [OString []]]"
    unfolding s0 using zero_steps [OF assms(1,2) _ close_single [of "OString []" b e]]
    by (intro read_array_of) simp_all
  show "to_json b p h (OVector [OString s]) = Inr ([91] @ string_text b s @ [93])"
    by (simp add: to_json_def w_container_def w_braced_def w_enclosed_def json_string_def string_text_def assms(3))
  have "scalar_values (kept cs)"
    using assms(4) by (auto simp: scalar_values_def list_all_iff two_bytes_def kept_def word_less_nat_alt)
  then have "to_u8 e (kept cs) = Inr t" using assms(1,5) by (simp add: boost_ok_def converts_def)
  from steps_silent_Cons [OF open_string steps_silent [OF string_points_kept [OF assms(4), of b e "[]"] close_string]] this
  have "steps b e (T0, p) (map ucast (string_text b s)) [] (T0, push (OString t) p)" for p
    by (simp add: string_text_def quoted_def assms(3))
  from steps_silent [OF this accepts_step [OF close_single [of "OString t" b e]]]
  have st: "steps b e (T0, \<lparr>states = [ARRAY], operands = [OEod]\<rparr>) (map ucast (string_text b s) @ [93])
      [OVector [OString t]] (T0, \<lparr>states = [], operands = []\<rparr>)" by simp
  have "ascii (json_char c)" if "c \<in> set cs" for c
  proof (cases "c \<in> {7, 11, 39}")
    case True
    then show ?thesis by (auto simp: json_char_def backslash_def byte_of_char_def)
  next
    case False
    with that assms(4) show ?thesis
      by (intro ascii_json_char) (auto simp: good_cp_def two_bytes_def list_all_iff)
  qed
  then have "ascii (string_text b s)"
    by (auto simp: string_text_def quoted_def assms(3) ascii_def)
  from read_array_of [OF st this] show "fst (json_read b e parser_init ([91] @ string_text b s @ [93])) = [OVector [OString t]]" .
qed

theorem json_losses_witness:
  "fst (json_read Debug example_env parser_init (str ''[0]'')) = [OVector [OString []]]"
proof -
  have "lexical_double example_env [] = None" by (simp add: example_env_def)
  moreover have "iterate Debug [] = Inr []" by (simp add: iterate.simps)
  moreover have "encode_all Release (kept []) = Inr []" by (simp add: kept_def)
  ultimately show ?thesis using json_losses [OF boost_ok_example, where b = Debug and s = "[]" and cs = "[]" and t = "[]"
        and p = example_printers and h = Little] by simp
qed

section \<open>Malformed input\<close>

lemma parser_put_structural:
  assumes "c \<in> {44, 58, 91, 93, 123, 125}"
  shows "parser_put b e parser_init c =
    after (next_symbol b e (stack parser_init) (Symbol SYMBOL [c]))
      (\<lambda>p. ([], Inr (parser_init\<lparr>decoder := u8_to_u32_init\<lparr>cp_value := ucast c\<rparr>, stack := p\<rparr>)))"
proof -
  let ?s = "parser_init\<lparr>decoder := u8_to_u32_init\<lparr>cp_value := ucast c\<rparr>\<rparr>"
  have c: "c < 0x80" and u: "ucast (ucast c :: u32) = c" using assms by auto
  have "(ucast c :: u32) \<in> {44, 58, 91, 93, 123, 125}" using assms by auto
  from tk_structural [OF this, of b e]
  have "tk_step b e ?s (ucast c) = after (next_symbol b e (stack parser_init) (Symbol SYMBOL [c]))
      (\<lambda>p. ([], Inr (?s\<lparr>lexer := T0, stack := p\<rparr>, True)))"
    by (simp add: tk_step_def parser_init_def u after_assoc)
  then show ?thesis
    using sanitizer_ascii [OF c, of u8_to_u32_init]
    by (simp add: parser_put_def parser_init_def u8_to_u32_init_def numeral_eq_Suc next_code_point_Suc after_assoc)
qed

lemma structural_fault:
  assumes "c \<in> {44, 58, 91, 93, 123, 125}"
    and "next_symbol b e \<lparr>states = [], operands = []\<rparr> (Symbol SYMBOL [c]) = ([], Inl f)"
  shows "json_read b e parser_init (c # cs) = ([], Inl f)"
proof -
  have "c \<noteq> 0xEF" using assms(1) by auto
  moreover have "parser_put b e parser_init c = ([], Inl f)"
    using parser_put_structural [OF assms(1), of b e] assms(2) by (simp add: parser_init_def)
  ultimately show ?thesis by (simp add: json_read_def read_byte_def Let_def)
qed

text \<open>A closing bracket, a closing brace or a comma at the start of the input pops or reads an empty
  stack: undefined behaviour in both builds, except that a debug build stops at an assertion for the
  bracket.  A colon is undefined in a debug build only, where the assertion reads the stack.\<close>

theorem json_toplevel:
  assumes "c \<in> {44, 93, 125}"
  shows "json_read b e parser_init (c # cs) = ([], Inl (if b = Debug \<and> c = 93 then Assertion else Undefined)) \<and>
    json_read Debug e parser_init (58 # cs) = ([], Inl Undefined)"
proof
  show "json_read b e parser_init (c # cs) = ([], Inl (if b = Debug \<and> c = 93 then Assertion else Undefined))"
    using assms
    by (intro structural_fault)
      (auto simp: next_symbol_def process_symbol_def build_array_def build_object_def swap_mark_def above_mark_def
        below_values_def boost_assert_def defined_if_def throw_unless_def byte_of_char_def)
  show "json_read Debug e parser_init (58 # cs) = ([], Inl Undefined)"
    by (intro structural_fault)
      (auto simp: next_symbol_def process_symbol_def boost_assert_def defined_if_def throw_unless_def byte_of_char_def)
qed

theorem json_toplevel_witness:
  "json_read Release example_env parser_init [93] = ([], Inl Undefined)"
  using json_toplevel [of 93 Release example_env "[]"] by simp

end
