(* ===== verification/Csv.thy ===== *)
theory Csv
  imports Json_Text
begin

unbundle bit_operations_syntax

text \<open>
  CSV: the tokenizer and the parser \<^verbatim>\<open>src/parse/src/csv/csv_tokenizer.cpp\<close>, \<^verbatim>\<open>csv_parser.cpp\<close>,
  \<^verbatim>\<open>include/cyng/parse/csv/csv_parser.h\<close>, their clients \<^verbatim>\<open>parser_named\<close> (\<^verbatim>\<open>csv.cpp\<close>), \<^verbatim>\<open>parse_typed\<close> and
  \<^verbatim>\<open>line_cast\<close>, and the serializer \<^verbatim>\<open>src/io/src/serializer/csv.cpp\<close>.

  As in the JSON parser bytes go through the UTF-8 decoder, a rejected code point is put again up to 32
  times and the conversion to UTF-8 is a parameter.  The stack of the cells of a line is a list with the
  top at the head.
\<close>

section \<open>The tokenizer\<close>

datatype csv_symbol_type = CSV_STRING | CSV_NOTHING | CSV_SEPARATOR | CSV_EOL

datatype csv_symbol = Csv_Symbol (csv_type: csv_symbol_type) (csv_value: "byte list")

datatype csv_state = AT_ERROR | AT_START | AT_STRING | AT_LITERAL | AT_SEPARATOR | AT_ESCAPE | AT_UNICODE | AT_EOL

record csv_tokenizer =
  csv_at :: csv_state
  csv_buffer :: "u32 list"

definition csv_tokenizer_init :: csv_tokenizer where
  "csv_tokenizer_init = \<lparr>csv_at = AT_START, csv_buffer = []\<rparr>"

type_synonym csv_step = "csv_symbol list \<times> (csv_tokenizer \<times> bool) result"

definition csv_goto :: "csv_tokenizer \<Rightarrow> csv_state \<Rightarrow> bool \<Rightarrow> csv_step" where
  "csv_goto t s advance = ([], Inr (t\<lparr>csv_at := s\<rparr>, advance))"

definition csv_append :: "csv_tokenizer \<Rightarrow> u32 list \<Rightarrow> csv_state \<Rightarrow> csv_step" where
  "csv_append t cs s = ([], Inr (t\<lparr>csv_at := s, csv_buffer := csv_buffer t @ cs\<rparr>, True))"

text \<open>The separator is a signed character; it is widened to the 32 bits of a code point.\<close>

definition is_sep :: "byte \<Rightarrow> u32 \<Rightarrow> bool" where
  "is_sep sep c \<longleftrightarrow> scast sep = c"

definition csv_start :: "byte \<Rightarrow> csv_tokenizer \<Rightarrow> u32 \<Rightarrow> csv_step" where
  "csv_start sep t c =
     (if is_sep sep c then ([Csv_Symbol CSV_SEPARATOR [ucast c]], Inr (t\<lparr>csv_at := AT_SEPARATOR\<rparr>, True))
      else if c \<in> {32, 9} then ([], Inr (t, True))
      else if c \<in> {10, 13} then ([Csv_Symbol CSV_EOL [ucast c]], Inr (t\<lparr>csv_at := AT_EOL\<rparr>, True))
      else if c = 34 then csv_goto t AT_STRING True
      else csv_append t [c] AT_LITERAL)"

definition csv_eol :: "csv_tokenizer \<Rightarrow> u32 \<Rightarrow> csv_step" where
  "csv_eol t c = (if c \<in> {10, 13} then ([], Inr (t, True)) else csv_goto t AT_START False)"

definition csv_string :: "json_env \<Rightarrow> csv_tokenizer \<Rightarrow> u32 \<Rightarrow> csv_step" where
  "csv_string e t c =
     (if c = 34 then
        (case to_u8 e (csv_buffer t) of
           Inl f \<Rightarrow> ([], Inl f)
         | Inr v \<Rightarrow> ([Csv_Symbol CSV_STRING v], Inr (t\<lparr>csv_at := AT_START, csv_buffer := []\<rparr>, True)))
      else if c = 92 then csv_goto t AT_ESCAPE True
      else csv_append t [c] (csv_at t))"

definition csv_build_literal :: "json_env \<Rightarrow> u32 list \<Rightarrow> csv_symbol result" where
  "csv_build_literal e buf =
     (if buf = [] then rbind (to_u8 e buf) (\<lambda>v. Inr (Csv_Symbol CSV_NOTHING v))
      else (case to_u8 e buf of
          Inr v \<Rightarrow> Inr (Csv_Symbol CSV_STRING v)
        | Inl Exception \<Rightarrow> Inr (Csv_Symbol CSV_STRING (u8_error e))
        | Inl f \<Rightarrow> Inl f))"

text \<open>
  A literal ends at a line end and at the reserved characters.  The comma is one of them whatever the
  separator is; no other separator ends a literal.
\<close>

definition ends_literal :: "u32 \<Rightarrow> bool" where
  "ends_literal c \<longleftrightarrow> c \<in> {10, 13} \<or>
     c \<in> {34, 39, cp CHR ''['', cp CHR '']'', cp CHR ''{'', cp CHR ''}'', cp CHR '','', cp CHR '':''}"

definition csv_literal :: "json_env \<Rightarrow> csv_tokenizer \<Rightarrow> u32 \<Rightarrow> csv_step" where
  "csv_literal e t c =
     (if ends_literal c then
        (case csv_build_literal e (csv_buffer t) of
           Inl f \<Rightarrow> ([], Inl f)
         | Inr s \<Rightarrow> ([s], Inr (t\<lparr>csv_at := AT_START, csv_buffer := []\<rparr>, False)))
      else csv_append t [c] (csv_at t))"

definition csv_escape :: "csv_tokenizer \<Rightarrow> u32 \<Rightarrow> csv_step" where
  "csv_escape t c =
     (if c \<in> {34, 92, 47} then csv_append t [c] AT_STRING
      else if c = cp CHR ''b'' then csv_append t [8] AT_STRING
      else if c = cp CHR ''f'' then csv_append t [12] AT_STRING
      else if c = cp CHR ''n'' then csv_append t [10] AT_STRING
      else if c = cp CHR ''r'' then csv_append t [13] AT_STRING
      else if c = cp CHR ''t'' then csv_append t [9] AT_STRING
      else if c = cp CHR ''u'' then csv_append t [1] AT_UNICODE
      else csv_goto t AT_STRING True)"

definition csv_convert :: "csv_tokenizer \<Rightarrow> csv_step" where
  "csv_convert t =
     (let buf = csv_buffer t;
          sub = rev (takeWhile (\<lambda>c. c \<noteq> 1) (rev buf));
          pos = length buf - length sub - 1 in
      if length buf - pos > 4
      then ([], Inr (t\<lparr>csv_at := AT_STRING, csv_buffer := take pos buf @ [hex_number sub]\<rparr>, True))
      else ([], Inr (t, True)))"

definition csv_unicode :: "csv_tokenizer \<Rightarrow> u32 \<Rightarrow> csv_step" where
  "csv_unicode t c =
     (if is_hex_cp c then csv_convert (t\<lparr>csv_buffer := csv_buffer t @ [c]\<rparr>)
      else csv_goto t AT_ERROR True)"

text \<open>A separator after a separator: an empty cell.\<close>

definition csv_separator :: "build \<Rightarrow> json_env \<Rightarrow> byte \<Rightarrow> csv_tokenizer \<Rightarrow> u32 \<Rightarrow> csv_step" where
  "csv_separator b e sep t c =
     (if is_sep sep c then
        after ([], rbind (boost_assert b (csv_buffer t = [])) (\<lambda>_. to_u8 e (csv_buffer t)))
          (\<lambda>v. ([Csv_Symbol CSV_NOTHING v, Csv_Symbol CSV_SEPARATOR [ucast c]], Inr (t, True)))
      else csv_goto t AT_START False)"

definition csv_tk_put :: "build \<Rightarrow> json_env \<Rightarrow> byte \<Rightarrow> csv_tokenizer \<Rightarrow> u32 \<Rightarrow> csv_step" where
  "csv_tk_put b e sep t c =
     (case csv_at t of
        AT_START \<Rightarrow> csv_start sep t c
      | AT_STRING \<Rightarrow> csv_string e t c
      | AT_LITERAL \<Rightarrow> csv_literal e t c
      | AT_ESCAPE \<Rightarrow> csv_escape t c
      | AT_SEPARATOR \<Rightarrow> csv_separator b e sep t c
      | AT_UNICODE \<Rightarrow> csv_unicode t c
      | AT_EOL \<Rightarrow> csv_eol t c
      | AT_ERROR \<Rightarrow> ([], rbind (boost_assert b False) (\<lambda>_. Inr (t, True))))"

section \<open>The parser\<close>

type_synonym line = "byte list list"

definition csv_next_symbol :: "build \<Rightarrow> line \<Rightarrow> csv_symbol \<Rightarrow> line list \<times> line result" where
  "csv_next_symbol b st s =
     (case csv_type s of
        CSV_STRING \<Rightarrow> ([], Inr (csv_value s # st))
      | CSV_NOTHING \<Rightarrow> ([], rbind (boost_assert b (csv_value s = [])) (\<lambda>_. Inr ([] # st)))
      | CSV_SEPARATOR \<Rightarrow> ([], Inr (if st = [] then [[]] else st))
      | CSV_EOL \<Rightarrow> if st = [] then ([], Inr []) else ([rev st], Inr []))"

fun csv_next_symbols :: "build \<Rightarrow> line \<Rightarrow> csv_symbol list \<Rightarrow> line list \<times> line result" where
  "csv_next_symbols b st [] = ([], Inr st)"
| "csv_next_symbols b st (s # ss) = after (csv_next_symbol b st s) (\<lambda>st'. csv_next_symbols b st' ss)"

type_synonym csv_core = "csv_tokenizer \<times> line"

definition csv_tk_step :: "build \<Rightarrow> json_env \<Rightarrow> byte \<Rightarrow> csv_core \<Rightarrow> u32 \<Rightarrow> line list \<times> (csv_core \<times> bool) result" where
  "csv_tk_step b e sep s c =
     (case csv_tk_put b e sep (fst s) c of (syms, r) \<Rightarrow>
      after (csv_next_symbols b (snd s) syms) (\<lambda>st.
      ([], rbind r (\<lambda>(t, advance). Inr ((t, st), advance)))))"

fun csv_point :: "build \<Rightarrow> json_env \<Rightarrow> byte \<Rightarrow> nat \<Rightarrow> csv_core \<Rightarrow> u32 \<Rightarrow> line list \<times> csv_core result" where
  "csv_point b e sep limit s c =
     after (csv_tk_step b e sep s c) (\<lambda>(s', advance).
     if advance then ([], Inr s')
     else (case limit of 0 \<Rightarrow> ([], Inr s') | Suc n \<Rightarrow> csv_point b e sep n s' c))"

fun csv_points :: "build \<Rightarrow> json_env \<Rightarrow> byte \<Rightarrow> csv_core \<Rightarrow> u32 list \<Rightarrow> line list \<times> csv_core result" where
  "csv_points b e sep s [] = ([], Inr s)"
| "csv_points b e sep s (c # cs) = after (csv_point b e sep 32 s c) (\<lambda>s'. csv_points b e sep s' cs)"

record csv_parser =
  csv_decoder :: u8_to_u32
  csv_core :: csv_core
  csv_counter :: nat

definition csv_parser_init :: csv_parser where
  "csv_parser_init = \<lparr>csv_decoder = u8_to_u32_init, csv_core = (csv_tokenizer_init, []), csv_counter = 0\<rparr>"

definition csv_put :: "build \<Rightarrow> json_env \<Rightarrow> byte \<Rightarrow> csv_parser \<Rightarrow> byte \<Rightarrow> line list \<times> csv_parser result" where
  "csv_put b e sep s c =
     (case sanitizer_put (csv_decoder s) c of
        (cs, Inr d) \<Rightarrow> after (csv_points b e sep (csv_core s) cs)
                        (\<lambda>core. ([], Inr (s\<lparr>csv_decoder := d, csv_core := core\<rparr>)))
      | (cs, Inl f) \<Rightarrow> ([], Inl f))"

fun csv_puts :: "build \<Rightarrow> json_env \<Rightarrow> byte \<Rightarrow> csv_parser \<Rightarrow> byte list \<Rightarrow> line list \<times> csv_parser result" where
  "csv_puts b e sep s [] = ([], Inr s)"
| "csv_puts b e sep s (c # cs) = after (csv_put b e sep s c) (\<lambda>s'. csv_puts b e sep s' cs)"

text \<open>\<^verbatim>\<open>read\<close>: the byte order mark is held back as in the JSON parser; at the end a line end is put.\<close>

record csv_reading =
  csv_bom :: bool
  csv_trailer :: "byte list"
  csv_machine :: csv_parser

definition csv_read_byte :: "build \<Rightarrow> json_env \<Rightarrow> byte \<Rightarrow> csv_reading \<Rightarrow> byte \<Rightarrow> line list \<times> csv_reading result" where
  "csv_read_byte b e sep r c =
     (let n = csv_counter (csv_machine r); held = (csv_bom r \<or> (n = 0 \<and> c = 0xEF)) in
      after
        (if held then
           (let tr = (csv_trailer r)[n := c] in
            if n = 2 then
              after (if is_bom (tr ! 0) (tr ! 1) (tr ! 2) then ([], Inr (csv_machine r))
                     else csv_puts b e sep (csv_machine r) [tr ! 0, tr ! 1, tr ! 2])
                (\<lambda>m. ([], Inr (r\<lparr>csv_bom := False, csv_trailer := tr, csv_machine := m\<rparr>)))
            else ([], Inr (r\<lparr>csv_bom := True, csv_trailer := tr\<rparr>)))
         else after (csv_put b e sep (csv_machine r) c) (\<lambda>m. ([], Inr (r\<lparr>csv_machine := m\<rparr>))))
        (\<lambda>r'. ([], Inr (r'\<lparr>csv_machine := (csv_machine r')\<lparr>csv_counter := n + 1\<rparr>\<rparr>))))"

fun csv_read_bytes :: "build \<Rightarrow> json_env \<Rightarrow> byte \<Rightarrow> csv_reading \<Rightarrow> byte list \<Rightarrow> line list \<times> csv_reading result" where
  "csv_read_bytes b e sep r [] = ([], Inr r)"
| "csv_read_bytes b e sep r (c # cs) = after (csv_read_byte b e sep r c) (\<lambda>r'. csv_read_bytes b e sep r' cs)"

definition csv_read :: "build \<Rightarrow> json_env \<Rightarrow> byte \<Rightarrow> csv_parser \<Rightarrow> byte list \<Rightarrow> line list \<times> csv_parser result" where
  "csv_read b e sep s cs =
     after (csv_read_bytes b e sep \<lparr>csv_bom = False, csv_trailer = [0, 0, 0], csv_machine = s\<rparr> cs)
       (\<lambda>r. csv_put b e sep (csv_machine r) 10)"

interpretation csv_all_points: feeder "csv_point b e sep 32" "csv_points b e sep" for b e sep
  by unfold_locales simp_all

interpretation csv_all_puts: feeder "csv_put b e sep" "csv_puts b e sep" for b e sep
  by unfold_locales simp_all

interpretation csv_all_bytes: feeder "csv_read_byte b e sep" "csv_read_bytes b e sep" for b e sep
  by unfold_locales simp_all

interpretation csv_all_symbols: feeder "csv_next_symbol b" "csv_next_symbols b" for b
  by unfold_locales simp_all

section \<open>Named and typed lines\<close>

text \<open>\<^verbatim>\<open>parser_named\<close>: the first line has the names; of two equal names the first is used.\<close>

record named =
  named_header :: line
  named_counter :: nat

definition named_init :: named where
  "named_init = \<lparr>named_header = [], named_counter = 0\<rparr>"

definition named_line :: "named \<Rightarrow> line \<Rightarrow> ((byte list \<times> byte list) list \<times> nat) list \<times> named" where
  "named_line s line =
     (if named_counter s = 0 then ([], s\<lparr>named_header := line, named_counter := 1\<rparr>)
      else ([(foldl (\<lambda>m (k, v). map_emplace k v m) [] (zip (named_header s) line), named_counter s)],
            s\<lparr>named_counter := named_counter s + 1\<rparr>))"

fun named_lines :: "named \<Rightarrow> line list \<Rightarrow> ((byte list \<times> byte list) list \<times> nat) list \<times> named" where
  "named_lines s [] = ([], s)"
| "named_lines s (l # ls) =
     (let (out, s') = named_line s l; (out', s'') = named_lines s' ls in (out @ out', s''))"

text \<open>
  \<^verbatim>\<open>line_cast\<close>: one policy for each column, applied from the last column to the first.  A policy may
  throw.  With a wrong number of columns a build without assertions gives default values.
\<close>

fun convert_columns :: "(byte list \<Rightarrow> 'a result) list \<Rightarrow> line \<Rightarrow> 'a list result" where
  "convert_columns (f # fs) (s # ss) =
     rbind (f s) (\<lambda>x. rbind (convert_columns fs ss) (\<lambda>xs. Inr (x # xs)))"
| "convert_columns _ _ = Inr []"

definition line_cast :: "build \<Rightarrow> (byte list \<Rightarrow> 'a result) list \<Rightarrow> 'a list \<Rightarrow> line \<Rightarrow> 'a list result" where
  "line_cast b policies defaults line =
     rbind (boost_assert b (length line = length policies)) (\<lambda>_.
     if length line = length policies then rbind (convert_columns (rev policies) (rev line)) (\<lambda>xs. Inr (rev xs))
     else Inr defaults)"

text \<open>\<^verbatim>\<open>parse_typed\<close>: the callback gets the lines after the header; with \<open>header\<close> set all lines.\<close>

fun typed_lines :: "build \<Rightarrow> (byte list \<Rightarrow> 'a result) list \<Rightarrow> 'a list \<Rightarrow> bool \<Rightarrow> line list \<Rightarrow> 'a list list \<times> bool result" where
  "typed_lines b policies defaults header [] = ([], Inr header)"
| "typed_lines b policies defaults header (l # ls) =
     (if \<not> header then typed_lines b policies defaults True ls
      else (case line_cast b policies defaults l of
          Inl f \<Rightarrow> ([], Inl f)
        | Inr r \<Rightarrow> emit [r] (typed_lines b policies defaults header ls)))"

definition parse_typed :: "build \<Rightarrow> json_env \<Rightarrow> byte \<Rightarrow> (byte list \<Rightarrow> 'a result) list \<Rightarrow> 'a list \<Rightarrow> bool \<Rightarrow> byte list
    \<Rightarrow> 'a list list \<times> unit result" where
  "parse_typed b e sep policies defaults header inp =
     (case csv_read b e sep csv_parser_init inp of (ls, r) \<Rightarrow>
      after (typed_lines b policies defaults header ls) (\<lambda>_. ([], rbind r (\<lambda>_. Inr ()))))"

section \<open>The serializer\<close>

text \<open>
  Vectors, tuples, booleans and null have a serializer, everything else is printed with its stream
  operator; 8-bit numbers are characters there.
\<close>

record csv_printers = printers +
  csv_double :: "u64 \<Rightarrow> byte list"
  csv_endpoint :: "u16 \<Rightarrow> byte list \<Rightarrow> byte list"

definition csv_value_text :: "'a csv_printers_scheme \<Rightarrow> endian \<Rightarrow> object \<Rightarrow> ostream \<Rightarrow> ostream" where
  "csv_value_text p h obj = (case obj of
      ONull \<Rightarrow> put_text []
    | OBool v \<Rightarrow> put_text (show_bool v)
    | OU8 v \<Rightarrow> put_text [v]
    | OI8 v \<Rightarrow> put_text [v]
    | OU16 v \<Rightarrow> put_text (show_dec v)
    | OU32 v \<Rightarrow> put_text (show_dec v)
    | OU64 v \<Rightarrow> put_text (show_dec v)
    | ODouble v \<Rightarrow> put_text (csv_double p v)
    | OEndpoint t port address \<Rightarrow> put_text (csv_endpoint p port address)
    | _ \<Rightarrow> serialize_plain (printers.truncate p) h obj)"

text \<open>The separator is left out before a nested sequence: a tuple has ended its line.\<close>

fun csv_elements :: "(bool \<times> (ostream \<Rightarrow> ostream)) list \<Rightarrow> ostream \<Rightarrow> ostream" where
  "csv_elements [] os = os"
| "csv_elements ((nested, w) # ws) os = csv_elements ws (w (if nested then os else put_text (str '','') os))"

fun serialize_csv :: "'a csv_printers_scheme \<Rightarrow> endian \<Rightarrow> object \<Rightarrow> ostream \<Rightarrow> ostream" where
  "serialize_csv p h (OVector v) =
     (case map (\<lambda>x. (type_tag x \<in> {45, 46, 47}, serialize_csv p h x)) v of
        [] \<Rightarrow> (\<lambda>os. os)
      | (_, w) # ws \<Rightarrow> (\<lambda>os. csv_elements ws (w os)))"
| "serialize_csv p h (OTuple v) = (\<lambda>os. put_text [10] (separated (str '','') (map (serialize_csv p h) v) os))"
| "serialize_csv p h obj = csv_value_text p h obj"

definition to_csv :: "'a csv_printers_scheme \<Rightarrow> endian \<Rightarrow> object \<Rightarrow> byte list" where
  "to_csv p h obj = fst (serialize_csv p h obj ([], True))"

section \<open>Runs\<close>

lemma csv_point_Suc: "csv_point b e sep (Suc n) s c =
    after (csv_tk_step b e sep s c) (\<lambda>(s', advance). if advance then ([], Inr s') else csv_point b e sep n s' c)"
  by (subst csv_point.simps) (simp cong: if_cong)

declare csv_point.simps [simp del]

lemma csv_take:
  assumes "csv_tk_put b e sep t c = (syms, Inr (t', True))" "csv_next_symbols b st syms = (os, Inr st')"
  shows "csv_points b e sep (t, st) [c] = (os, Inr (t', st'))"
  using assms by (simp add: numeral_eq_Suc csv_point_Suc csv_tk_step_def)

lemma csv_retry:
  assumes "csv_tk_put b e sep t c = (syms, Inr (t', False))" "csv_next_symbols b st syms = (os, Inr st')"
    and "csv_tk_put b e sep t' c = (syms', Inr (t'', True))" "csv_next_symbols b st' syms' = (os', Inr st'')"
  shows "csv_points b e sep (t, st) [c] = (os @ os', Inr (t'', st''))"
  using assms by (simp add: numeral_eq_Suc csv_point_Suc csv_tk_step_def)

text \<open>Silent steps in front.\<close>

lemma csv_silent:
  "csv_points b e sep s cs = ([], Inr s') \<Longrightarrow> csv_points b e sep s (cs @ cs') = csv_points b e sep s' cs'"
  by (simp add: csv_all_points.read_append)

abbreviation cell_at :: "csv_state \<Rightarrow> u32 list \<Rightarrow> csv_tokenizer" where
  "cell_at s buf \<equiv> \<lparr>csv_at = s, csv_buffer = buf\<rparr>"

text \<open>A cell that is written and read as it is.\<close>

definition plain_cell :: "byte list \<Rightarrow> bool" where
  "plain_cell s \<longleftrightarrow> s \<noteq> [] \<and> ascii s \<and> hd s \<notin> {9, 32} \<and> list_all (\<lambda>c. c \<notin> {10, 13, 34, 39, 91, 93, 123, 125, 44, 58}) s"

lemma ucast_back: "(ucast (ucast (c :: byte) :: u32) :: byte) = c"
  by (rule unsigned_word_eqI [where 'a = nat]) (use byte_bound [of c] in \<open>simp add: unat_byte\<close>)

lemma mem_ucast: "(ucast (c :: byte) :: u32) \<in> ucast ` A \<longleftrightarrow> c \<in> A"
  by (rule inj_image_mem_iff) (metis injI ucast_back)

lemma ends_literal_byte:
  "ends_literal (ucast c) \<longleftrightarrow> c \<in> ({10, 13, 34, 39, 91, 93, 123, 125, 44, 58} :: byte set)"
  using mem_ucast [of c "{10, 13, 34, 39, 91, 93, 123, 125, 44, 58}"]
  by (simp add: ends_literal_def cp_def byte_of_char_def disj_ac)

lemma literal_run:
  "list_all (\<lambda>c. \<not> ends_literal (ucast c)) cs \<Longrightarrow>
   csv_points b e sep (cell_at AT_LITERAL buf, st) (map ucast (cs :: byte list)) = ([], Inr (cell_at AT_LITERAL (buf @ map ucast cs), st))"
proof (induction cs arbitrary: buf)
  case Nil
  then show ?case by simp
next
  case (Cons c cs)
  have "csv_points b e sep (cell_at AT_LITERAL buf, st) [ucast c] = ([], Inr (cell_at AT_LITERAL (buf @ [ucast c]), st))"
    by (rule csv_take [where syms = "[]"]) (use Cons.prems in \<open>simp_all add: csv_tk_put_def csv_literal_def csv_append_def\<close>)
  from csv_silent [OF this] Cons show ?case by simp
qed

definition starts_cell :: "byte \<Rightarrow> byte \<Rightarrow> bool" where
  "starts_cell sep c \<longleftrightarrow> \<not> is_sep sep (ucast c) \<and> c \<notin> {32, 9, 10, 13, 34}"

lemma starts_cell_tk:
  assumes "starts_cell sep c"
  shows "csv_tk_put b e sep (cell_at AT_START []) (ucast c) = ([], Inr (cell_at AT_LITERAL [ucast c], True))"
proof -
  have "(ucast c :: u32) \<notin> {32, 9, 10, 13, 34}"
    using assms mem_ucast [of c "{32, 9, 10, 13, 34}"] by (simp add: starts_cell_def)
  then show ?thesis using assms by (simp add: csv_tk_put_def csv_start_def starts_cell_def csv_append_def)
qed

lemma cell_start:
  assumes "starts_cell sep c" "S \<in> {AT_START, AT_SEPARATOR, AT_EOL}"
  shows "csv_points b e sep (cell_at S [], st) [ucast c] = ([], Inr (cell_at AT_LITERAL [ucast c], st))"
proof (cases "S = AT_START")
  case True
  then show ?thesis using csv_take [OF starts_cell_tk [OF assms(1)], where st = st and st' = st and os = "[]"] by simp
next
  case False
  have "(ucast c :: u32) \<notin> {10, 13}"
    using assms mem_ucast [of c "{10, 13}"] by (simp add: starts_cell_def)
  with False assms have "csv_tk_put b e sep (cell_at S []) (ucast c) = ([], Inr (cell_at AT_START [], False))"
    by (auto simp: csv_tk_put_def csv_separator_def csv_eol_def starts_cell_def csv_goto_def)
  from csv_retry [OF this _ starts_cell_tk [OF assms(1)], of st "[]" st "[]" st] show ?thesis by simp
qed

lemma cell_run:
  assumes "starts_cell sep c" "S \<in> {AT_START, AT_SEPARATOR, AT_EOL}" "list_all (\<lambda>c. \<not> ends_literal (ucast c)) cs"
  shows "csv_points b e sep (cell_at S [], st) (map ucast (c # cs)) = ([], Inr (cell_at AT_LITERAL (map ucast (c # cs)), st))"
  using csv_silent [OF cell_start [OF assms(1,2)], of b e st "map ucast cs"] literal_run [OF assms(3)] by simp

lemma plain_cell_run:
  assumes "plain_cell s" "\<not> is_sep sep (ucast (hd s))" "S \<in> {AT_START, AT_SEPARATOR, AT_EOL}"
  shows "csv_points b e sep (cell_at S [], st) (map ucast s) = ([], Inr (cell_at AT_LITERAL (map ucast s), st))"
proof -
  obtain c cs where s: "s = c # cs" using assms(1) by (cases s) (auto simp: plain_cell_def)
  have "starts_cell sep c" using assms s by (auto simp: starts_cell_def plain_cell_def)
  moreover have "list_all (\<lambda>c. \<not> ends_literal (ucast c)) cs"
    using assms(1) s by (simp add: plain_cell_def ends_literal_byte)
  ultimately show ?thesis using cell_run assms(3) s by simp
qed

lemma end_cell:
  assumes "boost_ok e" "ascii s" "s \<noteq> []" "ends_literal c"
  shows "csv_tk_put b e sep (cell_at AT_LITERAL (map ucast s)) c =
    ([Csv_Symbol CSV_STRING s], Inr (cell_at AT_START [], False))"
  using assms to_u8_ascii [OF assms(1,2)] by (simp add: csv_tk_put_def csv_literal_def csv_build_literal_def)

lemma cell_separator:
  assumes "boost_ok e" "plain_cell s"
  shows "csv_points b e 44 (cell_at AT_LITERAL (map ucast s), st) [44] = ([], Inr (cell_at AT_SEPARATOR [], s # st))"
proof -
  have "csv_tk_put b e 44 (cell_at AT_LITERAL (map ucast s)) 44 = ([Csv_Symbol CSV_STRING s], Inr (cell_at AT_START [], False))"
    using assms by (intro end_cell) (auto simp: plain_cell_def ends_literal_def)
  moreover have "csv_tk_put b e 44 (cell_at AT_START []) 44 = ([Csv_Symbol CSV_SEPARATOR [44]], Inr (cell_at AT_SEPARATOR [], True))"
    by (simp add: csv_tk_put_def csv_start_def is_sep_def)
  ultimately show ?thesis
    using csv_retry [where os = "[]" and os' = "[]"] by (simp add: csv_next_symbol_def)
qed

lemma cell_eol:
  assumes "boost_ok e" "ascii s" "s \<noteq> []" "\<not> is_sep sep 10"
  shows "csv_points b e sep (cell_at AT_LITERAL (map ucast s), st) [10] = ([rev (s # st)], Inr (cell_at AT_EOL [], []))"
proof -
  have "csv_tk_put b e sep (cell_at AT_LITERAL (map ucast s)) 10 = ([Csv_Symbol CSV_STRING s], Inr (cell_at AT_START [], False))"
    using assms by (intro end_cell) (simp_all add: ends_literal_def)
  moreover have "csv_tk_put b e sep (cell_at AT_START []) 10 = ([Csv_Symbol CSV_EOL [10]], Inr (cell_at AT_EOL [], True))"
    using assms by (simp add: csv_tk_put_def csv_start_def)
  ultimately show ?thesis
    using csv_retry [where os = "[]" and os' = "[rev (s # st)]"] by (simp add: csv_next_symbol_def)
qed

lemma comma_no_cell: "plain_cell s \<Longrightarrow> \<not> is_sep 44 (ucast (hd s))"
proof
  assume s: "plain_cell s" and "is_sep 44 (ucast (hd s))"
  then have "(ucast (hd s) :: u32) \<in> ucast ` ({44} :: byte set)" by (simp add: is_sep_def)
  then have "hd s = 44" unfolding mem_ucast by simp
  with s show False by (cases s) (auto simp: plain_cell_def)
qed

text \<open>A line, and lines.\<close>

definition line_text :: "line \<Rightarrow> byte list" where
  "line_text l = join 44 l @ [10]"

lemma line_run:
  assumes "boost_ok e"
  shows "list_all plain_cell (s # l) \<Longrightarrow> S \<in> {AT_START, AT_SEPARATOR, AT_EOL} \<Longrightarrow>
    csv_points b e 44 (cell_at S [], st) (map ucast (line_text (s # l))) = ([rev st @ s # l], Inr (cell_at AT_EOL [], []))"
proof (induction l arbitrary: s S st)
  case Nil
  then have "csv_points b e 44 (cell_at S [], st) (map ucast s) = ([], Inr (cell_at AT_LITERAL (map ucast s), st))"
    by (intro plain_cell_run) (simp_all add: comma_no_cell)
  from csv_silent [OF this, of "[10]"] cell_eol [OF assms, of s 44 b st] Nil show ?case
    by (simp add: line_text_def is_sep_def plain_cell_def)
next
  case (Cons s' l)
  then have 1: "csv_points b e 44 (cell_at S [], st) (map ucast s) = ([], Inr (cell_at AT_LITERAL (map ucast s), st))"
    by (intro plain_cell_run) (simp_all add: comma_no_cell)
  have 2: "csv_points b e 44 (cell_at AT_LITERAL (map ucast s), st) [44] = ([], Inr (cell_at AT_SEPARATOR [], s # st))"
    using Cons.prems by (intro cell_separator assms) simp
  have t: "map ucast (line_text (s # s' # l)) = map ucast s @ [44 :: u32] @ map ucast (line_text (s' # l))"
    by (simp add: line_text_def)
  have "csv_points b e 44 (cell_at AT_SEPARATOR [], s # st) (map ucast (line_text (s' # l))) =
      ([rev (s # st) @ s' # l], Inr (cell_at AT_EOL [], []))"
    using Cons by simp
  then show ?case unfolding t csv_silent [OF 1] csv_silent [OF 2] by simp
qed

definition plain_line :: "line \<Rightarrow> bool" where
  "plain_line l \<longleftrightarrow> l \<noteq> [] \<and> list_all plain_cell l"

lemma lines_run:
  assumes "boost_ok e"
  shows "list_all plain_line ls \<Longrightarrow> S \<in> {AT_START, AT_EOL} \<Longrightarrow>
    \<exists>S' \<in> {AT_START, AT_EOL}. csv_points b e 44 (cell_at S [], []) (map ucast (concat (map line_text ls))) =
      (ls, Inr (cell_at S' [], []))"
proof (induction ls arbitrary: S)
  case Nil
  then show ?case by auto
next
  case (Cons l ls)
  then obtain s l' where l: "l = s # l'" "list_all plain_cell (s # l')" by (cases l) (auto simp: plain_line_def)
  have "csv_points b e 44 (cell_at S [], []) (map ucast (line_text l)) = ([l], Inr (cell_at AT_EOL [], []))"
    using line_run [OF assms l(2), of S b "[]"] Cons.prems l(1) by auto
  moreover obtain S' where "S' \<in> {AT_START, AT_EOL}"
    "csv_points b e 44 (cell_at AT_EOL [], []) (map ucast (concat (map line_text ls))) = (ls, Inr (cell_at S' [], []))"
    using Cons.IH [of AT_EOL] Cons.prems by auto
  ultimately show ?case by (intro bexI [of _ S']) (simp_all add: csv_all_points.read_append)
qed

section \<open>Bytes\<close>

lemma csv_puts_ascii:
  "ascii bs \<Longrightarrow> glyph_size (csv_decoder s) = 0 \<Longrightarrow>
   csv_puts b e sep s bs = after (csv_points b e sep (csv_core s) (map ucast bs))
     (\<lambda>core. ([], Inr (s\<lparr>csv_decoder := seen bs (csv_decoder s), csv_core := core\<rparr>)))"
proof (induction bs arbitrary: s)
  case Nil
  then show ?case by simp
next
  case (Cons c bs)
  then show ?case by (simp add: csv_put_def sanitizer_ascii after_assoc)
qed

lemma csv_read_bytes_ascii:
  "ascii bs \<Longrightarrow> \<not> csv_bom r \<Longrightarrow> glyph_size (csv_decoder (csv_machine r)) = 0 \<Longrightarrow>
   csv_read_bytes b e sep r bs = after (csv_points b e sep (csv_core (csv_machine r)) (map ucast bs))
     (\<lambda>core. ([], Inr (r\<lparr>csv_machine := (csv_machine r)\<lparr>csv_decoder := seen bs (csv_decoder (csv_machine r)), csv_core := core,
        csv_counter := csv_counter (csv_machine r) + length bs\<rparr>\<rparr>)))"
proof (induction bs arbitrary: r)
  case Nil
  then show ?case by simp
next
  case (Cons c bs)
  have "c \<noteq> 0xEF" using Cons.prems by auto
  with Cons show ?case by (simp add: csv_read_byte_def Let_def csv_put_def sanitizer_ascii after_assoc)
qed

lemma after_unit: "after m (\<lambda>x. ([], Inr x)) = m"
  by (cases m; cases "snd m") (auto simp: after_def emit_def)

lemma csv_read_ascii:
  assumes "ascii bs" "csv_points b e sep (csv_tokenizer_init, []) (map ucast bs @ [10]) = (ls, Inr core)"
  shows "csv_read b e sep csv_parser_init bs = (ls, Inr \<lparr>csv_decoder = seen (bs @ [10]) u8_to_u32_init, csv_core = core,
    csv_counter = length bs\<rparr>)"
proof -
  have s: "seen (bs @ [10]) u8_to_u32_init = (seen bs u8_to_u32_init)\<lparr>cp_value := 10\<rparr>"
    by (simp add: seen_def)
  have "after (csv_points b e sep (csv_tokenizer_init, []) (map ucast bs)) (\<lambda>core. csv_point b e sep 32 core 10) = (ls, Inr core)"
    using assms(2) by (simp add: csv_all_points.read_append after_unit)
  then show ?thesis
    using assms(1) by (auto simp: csv_read_def csv_read_bytes_ascii csv_parser_init_def u8_to_u32_init_def after_assoc csv_put_def
        sanitizer_ascii s [unfolded u8_to_u32_init_def] after_def split: prod.splits sum.splits)
qed

section \<open>Written and read\<close>

lemma csv_string [simp]: "csv_value_text p h (OString s) = put_text s"
  by (rule ext) (simp add: csv_value_text_def put_value_def show_number_def show_value_def)

lemma separated_cells:
  "separated (str '','') (map (serialize_csv p h) (map OString (s # l))) (t, True) = (t @ join 44 (s # l), True)"
  by (induction l arbitrary: s t) (simp_all add: put_text_def str_def byte_of_char_def)

lemma line_written:
  "l \<noteq> [] \<Longrightarrow> serialize_csv p h (OTuple (map OString l)) (t, True) = (t @ line_text l, True)"
  using separated_cells [of p h "hd l" "tl l" t] by (simp add: put_text_def line_text_def)

lemma lines_written:
  "list_all plain_line ls \<Longrightarrow> to_csv p h (OVector (map (\<lambda>l. OTuple (map OString l)) ls)) = concat (map line_text ls)"
proof -
  assume a: "list_all plain_line ls"
  let ?w = "\<lambda>l. (True, serialize_csv p h (OTuple (map OString l)))"
  have w: "csv_elements (map ?w ls) (t, True) = (t @ concat (map line_text ls), True)" for t
    using a
  proof (induction ls arbitrary: t)
    case Nil
    then show ?case by simp
  next
    case (Cons l ls)
    then have "serialize_csv p h (OTuple (map OString l)) (t, True) = (t @ line_text l, True)"
      by (intro line_written) (simp add: plain_line_def)
    with Cons show ?case by (simp del: serialize_csv.simps)
  qed
  show ?thesis
  proof (cases ls)
    case Nil
    then show ?thesis by (simp add: to_csv_def)
  next
    case (Cons l ls')
    have "serialize_csv p h (OVector (map (\<lambda>l. OTuple (map OString l)) ls)) ([], True) = csv_elements (map ?w ls) ([], True)"
      using Cons by (simp add: comp_def)
    then show ?thesis unfolding to_csv_def w by simp
  qed
qed

lemma ascii_join: "ascii (join 44 (s # l)) \<longleftrightarrow> list_all ascii (s # l)"
  by (induction l arbitrary: s) simp_all

lemma ascii_lines: "list_all plain_line ls \<Longrightarrow> ascii (concat (map line_text ls))"
proof (induction ls)
  case (Cons l ls)
  then obtain s l' where "l = s # l'" "list_all plain_cell l" by (cases l) (auto simp: plain_line_def)
  then have "ascii (join 44 l)" by (auto simp: ascii_join plain_cell_def list_all_iff)
  with Cons show ?case by (simp add: line_text_def)
qed simp

lemma lines_read:
  assumes "boost_ok e" "list_all plain_line ls"
  shows "fst (csv_read b e 44 csv_parser_init (concat (map line_text ls))) = ls"
proof -
  let ?t = "map ucast (concat (map line_text ls)) :: u32 list"
  obtain S where S: "S \<in> {AT_START, AT_EOL}"
    and r: "csv_points b e 44 (csv_tokenizer_init, []) ?t = (ls, Inr (cell_at S [], []))"
    using lines_run [OF assms, of AT_START b] by (auto simp: csv_tokenizer_init_def)
  have "csv_points b e 44 (cell_at S [], []) [10] = ([], Inr (cell_at AT_EOL [], []))"
  proof (rule csv_take)
    show "csv_tk_put b e 44 (cell_at S []) 10 =
        ((if S = AT_START then [Csv_Symbol CSV_EOL [10]] else []), Inr (cell_at AT_EOL [], True))"
      using S by (auto simp: csv_tk_put_def csv_start_def csv_eol_def is_sep_def)
    show "csv_next_symbols b [] (if S = AT_START then [Csv_Symbol CSV_EOL [10]] else []) = ([], Inr [])"
      by (simp add: csv_next_symbol_def)
  qed
  with r have "csv_points b e 44 (csv_tokenizer_init, []) (?t @ [10]) = (ls, Inr (cell_at AT_EOL [], []))"
    by (simp add: csv_all_points.read_append del: csv_points.simps)
  from csv_read_ascii [OF ascii_lines [OF assms(2)] this] show ?thesis by simp
qed

text \<open>C20. The parser reads back the lines of text cells that the serializer writes, as long as no line is without cells
  and every cell is not empty, all ASCII (others may be lost in the UTF-8 decoder), does not start with a blank or tab
  and has no reserved character: quotes, brackets, braces, comma, colon, line feed and carriage return.
  The separator is the comma, and the conversion of code points to bytes is assumed to be UTF-8 (\<open>boost_ok\<close>).\<close>

theorem csv_roundtrip:
  assumes "boost_ok e" "list_all plain_line ls"
  shows "fst (csv_read b e 44 csv_parser_init (to_csv p h (OVector (map (\<lambda>l. OTuple (map OString l)) ls)))) = ls"
  unfolding lines_written [OF assms(2)] by (rule lines_read [OF assms])

definition example_csv :: csv_printers where
  "example_csv = \<lparr>pr_float = (\<lambda>_. []), pr_double = (\<lambda>_. []), pr_float80 = (\<lambda>_. []), pr_chrono = (\<lambda>_ _. []),
     pr_ec = (\<lambda>_ _. []), csv_double = (\<lambda>_. []), csv_endpoint = (\<lambda>_ _. [])\<rparr>"

theorem csv_roundtrip_witness:
  "fst (csv_read Debug example_env 44 csv_parser_init
     (to_csv example_csv Little (OVector (map (\<lambda>l. OTuple (map OString l)) [[[97], [98]], [[49]]])))) = [[[97], [98]], [[49]]]"
  using csv_roundtrip [OF boost_ok_example, where ls = "[[[97], [98]], [[49]]]" and b = Debug and p = example_csv and h = Little]
  by (simp add: plain_line_def plain_cell_def)

lemma named_lines_from:
  "n > 0 \<Longrightarrow> i < length ls \<Longrightarrow> fst (named_lines \<lparr>named_header = hdr, named_counter = n\<rparr> ls) ! i =
     (foldl (\<lambda>m (k, v). map_emplace k v m) [] (zip hdr (ls ! i)), n + i)"
proof (induction ls arbitrary: n i)
  case (Cons l ls)
  have "fst (named_lines \<lparr>named_header = hdr, named_counter = n\<rparr> (l # ls)) =
      (foldl (\<lambda>m (k, v). map_emplace k v m) [] (zip hdr l), n) #
      fst (named_lines \<lparr>named_header = hdr, named_counter = n + 1\<rparr> ls)"
    using Cons.prems by (simp add: named_line_def split_beta)
  with Cons show ?case by (cases i) auto
qed simp

text \<open>\<^verbatim>\<open>parser_named\<close> gives each line after the header with its number, and each cell under the name of its
  column.\<close>

theorem csv_named:
  assumes "boost_ok e" "list_all plain_line (hdr # ls)" "distinct hdr" "\<forall>l \<in> set ls. length l = length hdr"
    and "i < length ls" "j < length hdr"
  shows "\<exists>m. fst (named_lines named_init (fst (csv_read b e 44 csv_parser_init
        (to_csv p h (OVector (map (\<lambda>l. OTuple (map OString l)) (hdr # ls))))))) ! i = (m, Suc i) \<and>
      map_find (hdr ! j) m = Some (ls ! i ! j)"
proof -
  let ?m = "foldl (\<lambda>m (k, v). map_emplace k v m) [] (zip hdr (ls ! i))"
  have "fst (named_lines named_init (hdr # ls)) ! i = (?m, Suc i)"
    using named_lines_from [of 1 i ls hdr] assms(5)
    by (simp add: named_init_def named_line_def split_beta)
  moreover have "map_find (hdr ! j) ?m = Some (ls ! i ! j)"
  proof -
    have "(hdr ! j, ls ! i ! j) \<in> set (zip hdr (ls ! i))"
      using assms by (metis fst_conv in_set_zip nth_mem snd_conv)
    moreover have "distinct (map fst (zip hdr (ls ! i)))"
      using assms by (simp add: map_fst_zip)
    ultimately have "map_of (zip hdr (ls ! i)) (hdr ! j) = Some (ls ! i ! j)" by simp
    moreover have "?m = std.emplace_all (zip hdr (ls ! i)) []"
      by (simp add: std.emplace_all_def foldl_conv_fold case_prod_unfold)
    ultimately show ?thesis by (simp add: std.find_emplace_all)
  qed
  ultimately show ?thesis unfolding lines_written [OF assms(2)] lines_read [OF assms(1,2)] by blast
qed

theorem csv_named_witness:
  "\<exists>m. fst (named_lines named_init (fst (csv_read Debug example_env 44 csv_parser_init
        (to_csv example_csv Little (OVector (map (\<lambda>l. OTuple (map OString l)) [[[97], [98]], [[49], [50]]])))))) ! 0 = (m, 1) \<and>
      map_find [98] m = Some [50]"
  using csv_named [OF boost_ok_example, where hdr = "[[97], [98]]" and ls = "[[[49], [50]]]" and b = Debug and p = example_csv
      and h = Little and i = 0 and j = 1]
  by (simp add: plain_line_def plain_cell_def)

section \<open>What is not read as written\<close>

lemma first_line:
  assumes "boost_ok e" "ascii s \<and> s \<noteq> []" "\<not> is_sep sep 10"
    and "csv_points b e sep (csv_tokenizer_init, []) cs = ([], Inr (cell_at AT_LITERAL (map ucast s), st))"
    and "cs = map ucast bs" "ascii bs"
  shows "fst (csv_read b e sep csv_parser_init bs) = [rev (s # st)]"
proof -
  have "csv_points b e sep (csv_tokenizer_init, []) (map ucast bs @ [10]) = ([rev (s # st)], Inr (cell_at AT_EOL [], []))"
    using assms(4,5) cell_eol [OF assms(1) _ _ assms(3)] assms(2) by (simp add: csv_silent)
  from csv_read_ascii [OF assms(6) this] show ?thesis by simp
qed

lemma plain_cell_ascii: "plain_cell s \<Longrightarrow> ascii s"
  by (simp add: plain_cell_def)

lemma cell_read:
  assumes "plain_cell x"
  shows "csv_points b e 44 (csv_tokenizer_init, []) (map ucast x) = ([], Inr (cell_at AT_LITERAL (map ucast x), []))"
  using plain_cell_run [OF assms comma_no_cell [OF assms], of AT_START] by (simp add: csv_tokenizer_init_def)

lemma plain_cell_bytes: "plain_cell y \<Longrightarrow> list_all (\<lambda>c. \<not> ends_literal (ucast c)) y"
  by (simp add: plain_cell_def ends_literal_byte)

lemma split_at_colon:
  assumes "boost_ok e" "plain_cell x" "plain_cell y"
  shows "fst (csv_read b e 44 csv_parser_init (x @ [58] @ y)) = [[x, 58 # y]]"
proof -
  have "csv_points b e 44 (cell_at AT_LITERAL (map ucast x), []) [58] = ([] @ [], Inr (cell_at AT_LITERAL [58], [x]))"
  proof (rule csv_retry)
    show "csv_tk_put b e 44 (cell_at AT_LITERAL (map ucast x)) 58 = ([Csv_Symbol CSV_STRING x], Inr (cell_at AT_START [], False))"
      using assms by (intro end_cell) (simp_all add: plain_cell_def ends_literal_def)
    show "csv_tk_put b e 44 (cell_at AT_START []) 58 = ([], Inr (cell_at AT_LITERAL [58], True))"
      using starts_cell_tk [of 44 58 b e] by (simp add: starts_cell_def is_sep_def)
  qed (simp_all add: csv_next_symbol_def)
  then have c: "csv_points b e 44 (cell_at AT_LITERAL (map ucast x), []) [58] = ([], Inr (cell_at AT_LITERAL [58], [x]))"
    by simp
  have "csv_points b e 44 (csv_tokenizer_init, []) (map ucast (x @ [58] @ y)) =
      ([], Inr (cell_at AT_LITERAL (map ucast (58 # y)), [x]))"
    using csv_silent [OF cell_read [OF assms(2)], of b e "[58] @ map ucast y"] csv_silent [OF c, of "map ucast y"]
      literal_run [OF plain_cell_bytes [OF assms(3)], of b e 44 "[58]"]
    by simp
  from first_line [OF assms(1) _ _ this refl] assms(2,3) show ?thesis
    by (simp add: plain_cell_ascii is_sep_def)
qed

lemma no_split_at_semicolon:
  assumes "boost_ok e" "plain_cell x" "plain_cell y" "hd x \<noteq> 59"
  shows "fst (csv_read b e 59 csv_parser_init (x @ [59] @ y)) = [[x @ [59] @ y]]"
proof -
  obtain c cs where c: "x = c # cs" using assms(2) by (cases x) (auto simp: plain_cell_def)
  have "(ucast c :: u32) \<notin> {59}" using mem_ucast [of c "{59}"] assms(4) c by simp
  then have "starts_cell 59 c" using assms(2) c by (simp add: starts_cell_def is_sep_def plain_cell_def)
  moreover have "list_all (\<lambda>c. \<not> ends_literal (ucast c)) (cs @ [59] @ y)"
    using plain_cell_bytes [OF assms(3)] assms(2) c by (simp add: plain_cell_def ends_literal_byte)
  ultimately have "csv_points b e 59 (csv_tokenizer_init, []) (map ucast (x @ [59] @ y)) =
      ([], Inr (cell_at AT_LITERAL (map ucast (x @ [59] @ y)), []))"
    using cell_run [of 59 c AT_START "cs @ [59] @ y" b e "[]"] c by (simp add: csv_tokenizer_init_def)
  from first_line [OF assms(1) _ _ this refl] assms(2,3) show ?thesis
    by (simp add: plain_cell_ascii is_sep_def)
qed

lemma last_cell_lost:
  assumes "boost_ok e" "plain_cell x"
  shows "fst (csv_read b e 44 csv_parser_init (x @ [44])) = [[x]]"
proof -
  have "csv_points b e 44 (cell_at AT_SEPARATOR [], [x]) [10] = ([] @ [[x]], Inr (cell_at AT_EOL [], []))"
  proof (rule csv_retry [where st' = "[x]"])
    show "csv_tk_put b e 44 (cell_at AT_SEPARATOR []) 10 = ([], Inr (cell_at AT_START [], False))"
      by (simp add: csv_tk_put_def csv_separator_def is_sep_def csv_goto_def)
    show "csv_tk_put b e 44 (cell_at AT_START []) 10 = ([Csv_Symbol CSV_EOL [10]], Inr (cell_at AT_EOL [], True))"
      by (simp add: csv_tk_put_def csv_start_def is_sep_def)
  qed (simp_all add: csv_next_symbol_def)
  then have n: "csv_points b e 44 (cell_at AT_SEPARATOR [], [x]) [10] = ([[x]], Inr (cell_at AT_EOL [], []))" by simp
  have "csv_points b e 44 (csv_tokenizer_init, []) (map ucast (x @ [44]) @ [10]) = ([[x]], Inr (cell_at AT_EOL [], []))"
    using csv_silent [OF cell_read [OF assms(2)], of b e "[44, 10]"]
      csv_silent [OF cell_separator [OF assms(1,2)], of b "[]" "[10]"] n
    by simp
  from csv_read_ascii [OF _ this] assms(2) show ?thesis by (simp add: plain_cell_ascii)
qed

text \<open>Unquoted text is split at a colon although that is no separator, a semicolon that is the separator does
  not end it, and an empty cell at the end of a line is lost.\<close>

theorem csv_split:
  assumes "boost_ok e" "plain_cell x" "plain_cell y" "hd x \<noteq> 59"
  shows "fst (csv_read b e 44 csv_parser_init (x @ [58] @ y)) = [[x, 58 # y]] \<and>
    fst (csv_read b e 59 csv_parser_init (x @ [59] @ y)) = [[x @ [59] @ y]] \<and>
    fst (csv_read b e 44 csv_parser_init (x @ [44])) = [[x]]"
  using split_at_colon [OF assms(1-3)] no_split_at_semicolon [OF assms] last_cell_lost [OF assms(1,2)] by simp

theorem csv_split_witness:
  "fst (csv_read Debug example_env 44 csv_parser_init (str ''12:30'')) = [[str ''12'', str '':30'']]"
proof -
  have s: "str ''12:30'' = [49, 50] @ [58] @ [51, 48]" "str ''12'' = [49, 50]" "str '':30'' = [58, 51, 48]"
    by (simp_all add: str_def byte_of_char_def)
  show ?thesis
    using csv_split [OF boost_ok_example, where x = "[49, 50]" and y = "[51, 48]" and b = Debug]
    unfolding s by (simp add: plain_cell_def)
qed

end
