(* ===== verification/Dom.thy ===== *)
theory Dom
  imports Plain "HOL-Library.Sublist"
begin

unbundle bit_operations_syntax

text \<open>
  Walks over trees of objects: \<^verbatim>\<open>src/obj/src/dom_walker.cpp\<close> (a walker gets an event for everything it
  meets) and \<^verbatim>\<open>src/obj/src/dom_transform.cpp\<close> (a user function replaces or removes parts of a tree, and
  parameters move from one path to another).
\<close>

section \<open>Walker: dom_walker.cpp\<close>

datatype walker_state = FIRST | LAST | INDETERMINATE

datatype walker_event =
    Visit object u16 nat walker_state
  | Open u16 nat nat
  | Close u16 nat walker_state u16
  | Pair_Index u64 nat
  | Pair_Name "byte list" nat
  | Pair_Code obis nat
  | Simple_Attr u64 object nat walker_state
  | Simple_Param "byte list" object nat walker_state
  | Simple_Prop obis object nat walker_state

definition get_state :: "nat \<Rightarrow> nat \<Rightarrow> walker_state" where
  "get_state index n = (if index = n then LAST else if index = 1 then FIRST else INDETERMINATE)"

text \<open>The children one after the other, each with its state.\<close>

definition walk_children :: "(walker_state \<Rightarrow> walker_event list) list \<Rightarrow> walker_event list" where
  "walk_children ws = concat (map (\<lambda>(index, w). w (get_state index (length ws))) (enumerate 1 ws))"

text \<open>An attribute, a parameter or a property whose value is no container is a single event.\<close>

definition walk_pair :: "walker_event \<Rightarrow> walker_event \<Rightarrow> u16 \<Rightarrow> object \<Rightarrow> walker_event list \<Rightarrow> nat \<Rightarrow> walker_state \<Rightarrow> u16
    \<Rightarrow> walker_event list" where
  "walk_pair simple pair tag v walk_value d st parent =
     (if is_container (type_tag v) then [Open tag d 1, pair] @ walk_value @ [Close tag d st parent] else [simple])"

text \<open>
  A deque is cast to a vector, which gives an empty vector.  A property map is closed with the type code
  of a parameter map.
\<close>

fun traverse :: "object \<Rightarrow> nat \<Rightarrow> walker_state \<Rightarrow> u16 \<Rightarrow> walker_event list" where
  "traverse (OTuple v) d st parent =
     Open 45 d (length v) # walk_children (map (\<lambda>x s. traverse x (d + 1) s 45) v) @ [Close 45 d st parent]"
| "traverse (OVector v) d st parent =
     Open 46 d (length v) # walk_children (map (\<lambda>x s. traverse x (d + 1) s 46) v) @ [Close 46 d st parent]"
| "traverse (ODeque v) d st parent = [Open 46 d 0, Close 46 d st parent]"
| "traverse (OAttrMap m) d st parent =
     Open 48 d (length m) #
     walk_children (map (\<lambda>a s. walk_pair (Simple_Attr (fst a) (snd a) (d + 1) s) (Pair_Index (fst a) (d + 1)) 49 (snd a)
       (traverse (snd a) (d + 1) s 49) (d + 1) s 48) m) @ [Close 48 d st parent]"
| "traverse (OParamMap m) d st parent =
     Open 50 d (length m) #
     walk_children (map (\<lambda>a s. walk_pair (Simple_Param (fst a) (snd a) (d + 1) s) (Pair_Name (fst a) (d + 1)) 51 (snd a)
       (traverse (snd a) (d + 1) s 51) (d + 1) s 50) m) @ [Close 50 d st parent]"
| "traverse (OPropMap m) d st parent =
     Open 52 d (length m) #
     walk_children (map (\<lambda>a s. walk_pair (Simple_Prop (fst a) (snd a) (d + 1) s) (Pair_Code (fst a) (d + 1)) 53 (snd a)
       (traverse (snd a) (d + 1) s 53) (d + 1) s 52) m) @ [Close 50 d st parent]"
| "traverse (OAttr k v) d st parent =
     walk_pair (Simple_Attr k v d st) (Pair_Index k d) 49 v (traverse v d st 49) d st parent"
| "traverse (OParam k v) d st parent =
     walk_pair (Simple_Param k v d st) (Pair_Name k d) 51 v (traverse v d st 51) d st parent"
| "traverse (OProp k v) d st parent =
     walk_pair (Simple_Prop k v d st) (Pair_Code k d) 53 v (traverse v d st 53) d st parent"
| "traverse obj d st parent = [Visit obj (type_tag obj) d st]"

definition traverse_all :: "object \<Rightarrow> walker_event list" where
  "traverse_all obj = traverse obj 0 LAST (type_tag obj)"

section \<open>Transformation: dom_transform.cpp\<close>

datatype action = NONE | REPLACE | REMOVE

text \<open>
  The result of the user's function for an object: \<open>None\<close> asks the caller to erase it.  Without an
  action the children of a container are transformed.
\<close>

definition act_on :: "object \<times> action \<Rightarrow> object \<Rightarrow> object option" where
  "act_on r inside = (case r of (_, REMOVE) \<Rightarrow> None | (obj', REPLACE) \<Rightarrow> Some obj' | (_, NONE) \<Rightarrow> Some inside)"

text \<open>The loops that erase from a sequence and from a map.\<close>

definition kept_of :: "'a option list \<Rightarrow> 'a list" where
  "kept_of xs = map the (filter (\<lambda>x. x \<noteq> None) xs)"

definition keep_pair :: "'k \<Rightarrow> object option \<Rightarrow> ('k \<times> object) option" where
  "keep_pair k r = map_option (\<lambda>v. (k, v)) r"

text \<open>The value of a single pair: a request to erase it is ignored.\<close>

definition keep_value :: "object \<Rightarrow> object option \<Rightarrow> object" where
  "keep_value v r = (case r of Some v' \<Rightarrow> v' | None \<Rightarrow> v)"

fun transform :: "(object \<Rightarrow> nat \<Rightarrow> u16 \<Rightarrow> object \<times> action) \<Rightarrow> nat \<Rightarrow> object \<Rightarrow> object option" where
  "transform f d (OTuple v) = act_on (f (OTuple v) d 45) (OTuple (kept_of (map (transform f (d + 1)) v)))"
| "transform f d (OVector v) = act_on (f (OVector v) d 46) (OVector (kept_of (map (transform f (d + 1)) v)))"
| "transform f d (ODeque v) = act_on (f (ODeque v) d 47) (ODeque (kept_of (map (transform f (d + 1)) v)))"
| "transform f d (OAttrMap m) = act_on (f (OAttrMap m) d 48)
     (OAttrMap (kept_of (map (\<lambda>a. keep_pair (fst a) (transform f (d + 1) (snd a))) m)))"
| "transform f d (OParamMap m) = act_on (f (OParamMap m) d 50)
     (OParamMap (kept_of (map (\<lambda>a. keep_pair (fst a) (transform f (d + 1) (snd a))) m)))"
| "transform f d (OPropMap m) = act_on (f (OPropMap m) d 52)
     (OPropMap (kept_of (map (\<lambda>a. keep_pair (fst a) (transform f (d + 1) (snd a))) m)))"
| "transform f d (OAttr k v) = Some (OAttr k (keep_value v (transform f d v)))"
| "transform f d (OParam k v) = Some (OParam k (keep_value v (transform f d v)))"
| "transform f d (OProp k v) = Some (OProp k (keep_value v (transform f d v)))"
| "transform f d obj = act_on (f obj d (type_tag obj)) obj"

text \<open>The entry point drops the request to erase the outermost object.\<close>

definition transform_object :: "(object \<Rightarrow> nat \<Rightarrow> u16 \<Rightarrow> object \<times> action) \<Rightarrow> object \<Rightarrow> object" where
  "transform_object f obj = keep_value obj (transform f 0 obj)"

text \<open>The second form tells the user's function the path instead of the depth.\<close>

fun transform_path :: "(object \<Rightarrow> byte list list \<Rightarrow> object \<times> action) \<Rightarrow> byte list list \<Rightarrow> object \<Rightarrow> object option" where
  "transform_path f p (OTuple v) = act_on (f (OTuple v) p) (OTuple (kept_of (map (transform_path f p) v)))"
| "transform_path f p (OVector v) = act_on (f (OVector v) p) (OVector (kept_of (map (transform_path f p) v)))"
| "transform_path f p (ODeque v) = act_on (f (ODeque v) p) (ODeque (kept_of (map (transform_path f p) v)))"
| "transform_path f p (OAttrMap m) = act_on (f (OAttrMap m) p)
     (OAttrMap (kept_of (map (\<lambda>a. keep_pair (fst a) (transform_path f (p @ [show_dec (fst a)]) (snd a))) m)))"
| "transform_path f p (OParamMap m) = act_on (f (OParamMap m) p)
     (OParamMap (kept_of (map (\<lambda>a. keep_pair (fst a) (transform_path f (p @ [fst a]) (snd a))) m)))"
| "transform_path f p (OPropMap m) = act_on (f (OPropMap m) p)
     (OPropMap (kept_of (map (\<lambda>a. keep_pair (fst a) (transform_path f (p @ [obis_to_string (fst a)]) (snd a))) m)))"
| "transform_path f p (OAttr k v) = Some (OAttr k (keep_value v (transform_path f (p @ [show_dec k]) v)))"
| "transform_path f p (OParam k v) = Some (OParam k (keep_value v (transform_path f (p @ [k]) v)))"
| "transform_path f p (OProp k v) = Some (OProp k (keep_value v (transform_path f (p @ [obis_to_string k]) v)))"
| "transform_path f p obj = act_on (f obj p) obj"

definition transform_params :: "(object \<Rightarrow> byte list list \<Rightarrow> object \<times> action) \<Rightarrow> (byte list \<times> object) list \<Rightarrow> (byte list \<times> object) list" where
  "transform_params f m = kept_of (map (\<lambda>a. keep_pair (fst a) (transform_path f [fst a] (snd a))) m)"

section \<open>Renaming\<close>

type_synonym pmap = "(byte list \<times> object) list"

text \<open>Missing maps on the way are created; a name that is taken by anything else ends the walk silently.\<close>

fun insert_at :: "pmap \<Rightarrow> byte list list \<Rightarrow> byte list \<times> object \<Rightarrow> pmap" where
  "insert_at pm [] kv = map_emplace (fst kv) (snd kv) pm"
| "insert_at pm (name # rest) kv =
     (case map_find name pm of
        Some (OParamMap m) \<Rightarrow> map_assign name (OParamMap (insert_at m rest kv)) pm
      | Some _ \<Rightarrow> pm
      | None \<Rightarrow> map_emplace name (OParamMap (insert_at [] rest kv)) pm)"

definition insert_param :: "pmap \<Rightarrow> byte list list \<Rightarrow> byte list \<times> object \<Rightarrow> pmap" where
  "insert_param pm path kv = (if path \<noteq> [] then insert_at pm path kv else pm)"

fun extract_at :: "pmap \<Rightarrow> byte list list \<Rightarrow> pmap \<times> (byte list \<times> object) option" where
  "extract_at pm [] = (pm, None)"
| "extract_at pm (name # rest) =
     (case map_find name pm of
        None \<Rightarrow> (pm, None)
      | Some v \<Rightarrow>
          if rest = [] then (map_erase name pm, Some (name, v))
          else (case v of
              OParamMap m \<Rightarrow> (let (m', r) = extract_at m rest in (map_assign name (OParamMap m') pm, r))
            | _ \<Rightarrow> (pm, None)))"

definition rename :: "pmap \<Rightarrow> byte list list \<Rightarrow> byte list list \<Rightarrow> pmap" where
  "rename pm path rep = (case extract_at pm path of (pm', Some kv) \<Rightarrow> insert_param pm' rep kv | (pm', None) \<Rightarrow> pm')"

section \<open>The events of a walk\<close>

text \<open>Every \<open>Open\<close> is closed, at its depth and with its code, save that a property map is closed as a parameter map.\<close>

fun nested :: "(u16 \<times> nat) list \<Rightarrow> walker_event list \<Rightarrow> bool" where
  "nested st [] \<longleftrightarrow> st = []"
| "nested st (Open t d n # es) \<longleftrightarrow> nested ((t, d) # st) es"
| "nested st (Close t d s parent # es) \<longleftrightarrow>
     (case st of [] \<Rightarrow> False
      | (t', d') # st' \<Rightarrow> t = (if t' = 52 then 50 else t') \<and> d = d' \<and> nested st' es)"
| "nested st (_ # es) \<longleftrightarrow> nested st es"

definition event_value :: "walker_event \<Rightarrow> object list" where
  "event_value e = (case e of
      Visit v t d s \<Rightarrow> [v] | Simple_Attr k v d s \<Rightarrow> [v] | Simple_Param k v d s \<Rightarrow> [v] | Simple_Prop k v d s \<Rightarrow> [v] | _ \<Rightarrow> [])"

definition event_values :: "walker_event list \<Rightarrow> object list" where
  "event_values es = concat (map event_value es)"

lemma event_values_simps [simp]:
  "event_values [] = []" "event_values (e # es) = event_value e @ event_values es"
  "event_values (es @ es') = event_values es @ event_values es'"
  by (simp_all add: event_values_def)

text \<open>The values a walk meets, in order; the elements of a deque are not among them.\<close>

fun met :: "object \<Rightarrow> object list" where
  "met (OTuple v) = concat (map met v)"
| "met (OVector v) = concat (map met v)"
| "met (ODeque v) = []"
| "met (OAttrMap m) = concat (map (\<lambda>a. met (snd a)) m)"
| "met (OParamMap m) = concat (map (\<lambda>a. met (snd a)) m)"
| "met (OPropMap m) = concat (map (\<lambda>a. met (snd a)) m)"
| "met (OAttr k v) = met v"
| "met (OParam k v) = met v"
| "met (OProp k v) = met v"
| "met obj = [obj]"

text \<open>A part of a walk that is nested in itself and meets the values \<open>vs\<close>.\<close>

definition walk_ok :: "walker_event list \<Rightarrow> object list \<Rightarrow> bool" where
  "walk_ok es vs \<longleftrightarrow> (\<forall>st es'. nested st (es @ es') = nested st es') \<and> event_values es = vs"

lemma walk_ok_append: "walk_ok es vs \<Longrightarrow> walk_ok es' vs' \<Longrightarrow> walk_ok (es @ es') (vs @ vs')"
  by (simp add: walk_ok_def)

lemma walk_ok_enclosed:
  "walk_ok es vs \<Longrightarrow> t' = (if t = 52 then 50 else t) \<Longrightarrow> walk_ok (Open t d n # es @ [Close t' d s parent]) vs"
  by (simp add: walk_ok_def event_value_def)

lemma walk_ok_concat:
  "list_all2 walk_ok ess vss \<Longrightarrow> walk_ok (concat ess) (concat vss)"
proof (induction rule: list_all2_induct)
  case Nil
  show ?case by (simp add: walk_ok_def)
next
  case (Cons es ess vs vss)
  then show ?case by (simp add: walk_ok_append)
qed

lemma walk_ok_children:
  assumes "\<And>x s. x \<in> set xs \<Longrightarrow> walk_ok (w x s) (vs x)"
  shows "walk_ok (walk_children (map w xs)) (concat (map vs xs))"
  unfolding walk_children_def
  by (rule walk_ok_concat) (use assms in \<open>auto simp: list_all2_conv_all_nth nth_enumerate_eq split_beta\<close>)

lemma met_leaf: "\<not> is_container (type_tag v) \<Longrightarrow> met v = [v]"
  by (cases v) (auto simp: is_container_def)

lemma walk_ok_pair:
  assumes "walk_ok es (met v)" "tag \<noteq> 52" "event_value simple = [v]" "event_value pair = []"
    and "\<forall>st es'. nested st (simple # es') = nested st es'" "\<forall>st es'. nested st (pair # es') = nested st es'"
  shows "walk_ok (walk_pair simple pair tag v es d s parent) (met v)"
proof (cases "is_container (type_tag v)")
  case True
  have "walk_ok (pair # es) (met v)" using assms by (simp add: walk_ok_def)
  from walk_ok_enclosed [OF this, of tag tag d 1 s parent] assms(2) True show ?thesis
    by (simp add: walk_pair_def)
next
  case False
  then show ?thesis using assms by (simp add: walk_pair_def walk_ok_def met_leaf)
qed

lemma walk_ok_traverse: "walk_ok (traverse obj d st parent) (met obj)"
proof (induction obj arbitrary: d st parent)
  case (OTuple v)
  show ?case by (simp, intro walk_ok_enclosed walk_ok_children) (auto intro: OTuple)
next
  case (OVector v)
  show ?case by (simp, intro walk_ok_enclosed walk_ok_children) (auto intro: OVector)
next
  case (ODeque v)
  show ?case by (simp add: walk_ok_def event_value_def)
next
  case (OAttrMap m)
  show ?case
    by (simp, intro walk_ok_enclosed walk_ok_children walk_ok_pair)
      (auto intro: OAttrMap simp: event_value_def)
next
  case (OParamMap m)
  show ?case
    by (simp, intro walk_ok_enclosed walk_ok_children walk_ok_pair)
      (auto intro: OParamMap simp: event_value_def)
next
  case (OPropMap m)
  show ?case
    by (simp, intro walk_ok_enclosed walk_ok_children walk_ok_pair)
      (auto intro: OPropMap simp: event_value_def)
next
  case (OAttr k v)
  show ?case by (simp, intro walk_ok_pair) (auto intro: OAttr simp: event_value_def)
next
  case (OParam k v)
  show ?case by (simp, intro walk_ok_pair) (auto intro: OParam simp: event_value_def)
next
  case (OProp k v)
  show ?case by (simp, intro walk_ok_pair) (auto intro: OProp simp: event_value_def)
qed (simp_all add: walk_ok_def event_value_def)

text \<open>C21. The events of a walk are properly nested and meet the values of the tree from left to right, except
  that a property map is closed with the code of a parameter map and that the elements of a deque are
  not met: it is walked as an empty vector.\<close>

theorem walk_events:
  "nested [] (traverse_all obj) \<and> event_values (traverse_all obj) = met obj"
proof -
  have "walk_ok (traverse_all obj) (met obj)"
    by (simp add: traverse_all_def walk_ok_traverse)
  then have "nested [] (traverse_all obj @ []) = nested [] []" "event_values (traverse_all obj) = met obj"
    unfolding walk_ok_def by blast+
  then show ?thesis by simp
qed

section \<open>What a transformation does\<close>

text \<open>The values of a tree that are no containers with elements, deques included.\<close>

fun leaves :: "object \<Rightarrow> object list" where
  "leaves (OTuple v) = concat (map leaves v)"
| "leaves (OVector v) = concat (map leaves v)"
| "leaves (ODeque v) = concat (map leaves v)"
| "leaves (OAttrMap m) = concat (map (\<lambda>a. leaves (snd a)) m)"
| "leaves (OParamMap m) = concat (map (\<lambda>a. leaves (snd a)) m)"
| "leaves (OPropMap m) = concat (map (\<lambda>a. leaves (snd a)) m)"
| "leaves (OAttr k v) = leaves v"
| "leaves (OParam k v) = leaves v"
| "leaves (OProp k v) = leaves v"
| "leaves obj = [obj]"

fun no_pairs :: "object \<Rightarrow> bool" where
  "no_pairs (OTuple v) \<longleftrightarrow> list_all no_pairs v"
| "no_pairs (OVector v) \<longleftrightarrow> list_all no_pairs v"
| "no_pairs (ODeque v) \<longleftrightarrow> list_all no_pairs v"
| "no_pairs (OAttrMap m) \<longleftrightarrow> list_all (\<lambda>a. no_pairs (snd a)) m"
| "no_pairs (OParamMap m) \<longleftrightarrow> list_all (\<lambda>a. no_pairs (snd a)) m"
| "no_pairs (OPropMap m) \<longleftrightarrow> list_all (\<lambda>a. no_pairs (snd a)) m"
| "no_pairs (OAttr k v) \<longleftrightarrow> False"
| "no_pairs (OParam k v) \<longleftrightarrow> False"
| "no_pairs (OProp k v) \<longleftrightarrow> False"
| "no_pairs obj \<longleftrightarrow> True"

definition composite :: "object \<Rightarrow> bool" where
  "composite obj \<longleftrightarrow> type_tag obj \<in> {45, 46, 47, 48, 49, 50, 51, 52, 53}"

text \<open>A user function that leaves the containers alone and erases or replaces every other value.\<close>

definition on_leaves :: "(object \<Rightarrow> object option) \<Rightarrow> object \<Rightarrow> nat \<Rightarrow> u16 \<Rightarrow> object \<times> action" where
  "on_leaves h obj d t =
     (if composite obj then (ONull, NONE)
      else (case h obj of None \<Rightarrow> (ONull, REMOVE) | Some x \<Rightarrow> (x, REPLACE)))"

definition the_leaves :: "object option \<Rightarrow> object list" where
  "the_leaves r = (case r of None \<Rightarrow> [] | Some x \<Rightarrow> leaves x)"

lemma leaves_kept: "concat (map leaves (kept_of rs)) = concat (map the_leaves rs)"
  by (induction rs) (auto simp: kept_of_def the_leaves_def)

lemma leaves_kept_pairs:
  "concat (map (\<lambda>a. leaves (snd a)) (kept_of (map (\<lambda>a. keep_pair (fst a) (r a)) m))) = concat (map (\<lambda>a. the_leaves (r a)) m)"
proof (induction m)
  case (Cons a m)
  then show ?case by (cases "r a") (auto simp: kept_of_def the_leaves_def keep_pair_def)
qed (simp add: kept_of_def)

lemma map_filter_concat: "List.map_filter h (concat xss) = concat (map (List.map_filter h) xss)"
  by (induction xss) (simp_all add: map_filter_def)

lemma leaf_tag: "\<not> composite x \<Longrightarrow> leaves x = [x]"
  by (cases x) (auto simp: composite_def)

lemma on_leaves_inside:
  "composite obj \<Longrightarrow> act_on (on_leaves h obj d t) x = Some x"
  "\<not> composite obj \<Longrightarrow> act_on (on_leaves h obj d t) x = h obj"
  by (auto simp: on_leaves_def act_on_def split: option.split)

lemma composite_simps [simp]:
  "composite (OTuple v)" "composite (OVector v)" "composite (ODeque v)"
  "composite (OAttrMap a)" "composite (OParamMap m)" "composite (OPropMap q)"
  by (simp_all add: composite_def)

lemma the_leaves_simps [simp]: "the_leaves None = []" "the_leaves (Some x) = leaves x"
  by (simp_all add: the_leaves_def)

lemma transform_leaf: "\<not> composite obj \<Longrightarrow> transform f d obj = act_on (f obj d (type_tag obj)) obj"
  by (cases obj) (auto simp: composite_def)

lemma transform_one_leaf:
  assumes "\<forall>x y. h x = Some y \<longrightarrow> \<not> composite y" "\<not> composite obj"
  shows "the_leaves (transform (on_leaves h) d obj) = List.map_filter h (leaves obj)"
  using assms by (auto simp: transform_leaf on_leaves_inside leaf_tag map_filter_def split: option.split)

lemma leaf_codes:
  "\<not> composite (OChrono c n)" "\<not> composite (OOctets t v)" "\<not> composite (OEndpoint k port v)"
  by (cases c; cases t; cases k; simp add: composite_def)+

lemma transform_leaves:
  assumes h: "\<forall>x y. h x = Some y \<longrightarrow> \<not> composite y"
  shows "no_pairs obj \<Longrightarrow> the_leaves (transform (on_leaves h) d obj) = List.map_filter h (leaves obj)"
proof (induction obj arbitrary: d rule: leaves.induct)
  case (1 v)
  then show ?case by (simp add: on_leaves_inside leaves_kept map_filter_concat list_all_iff comp_def cong: map_cong)
next
  case (2 v)
  then show ?case by (simp add: on_leaves_inside leaves_kept map_filter_concat list_all_iff comp_def cong: map_cong)
next
  case (3 v)
  then show ?case by (simp add: on_leaves_inside leaves_kept map_filter_concat list_all_iff comp_def cong: map_cong)
next
  case (4 m)
  then show ?case by (simp add: on_leaves_inside leaves_kept_pairs map_filter_concat list_all_iff comp_def cong: map_cong)
next
  case (5 m)
  then show ?case by (simp add: on_leaves_inside leaves_kept_pairs map_filter_concat list_all_iff comp_def cong: map_cong)
next
  case (6 m)
  then show ?case by (simp add: on_leaves_inside leaves_kept_pairs map_filter_concat list_all_iff comp_def cong: map_cong)
next
  case 7
  then show ?case by simp
next
  case 8
  then show ?case by simp
next
  case 9
  then show ?case by simp
qed ((rule transform_one_leaf [OF h], (simp only: leaf_codes not_False_eq_True | simp add: composite_def))+)

text \<open>C22. A transformation that erases or replaces the values that are no containers, by such values, does so for all of
  them, at every depth, in a container without single attributes, parameters and properties in it (\<open>no_pairs\<close>).  A
  single attribute, parameter or property around a value that is no container is kept at any depth: its value is
  replaced, but where it should be erased it stays.\<close>

theorem transform_values:
  assumes "\<forall>x y. h x = Some y \<longrightarrow> \<not> composite y" "no_pairs obj" "composite obj" "\<not> composite v"
  shows "leaves (transform_object (on_leaves h) obj) = List.map_filter h (leaves obj) \<and>
    transform (on_leaves h) d (OAttr i v) = Some (OAttr i (case h v of Some w \<Rightarrow> w | None \<Rightarrow> v)) \<and>
    transform (on_leaves h) d (OParam k v) = Some (OParam k (case h v of Some w \<Rightarrow> w | None \<Rightarrow> v)) \<and>
    transform (on_leaves h) d (OProp c v) = Some (OProp c (case h v of Some w \<Rightarrow> w | None \<Rightarrow> v))"
proof (intro conjI)
  have "transform (on_leaves h) 0 obj \<noteq> None"
    using assms(2,3) by (cases obj) (auto simp: on_leaves_inside composite_def)
  then show "leaves (transform_object (on_leaves h) obj) = List.map_filter h (leaves obj)"
    using transform_leaves [OF assms(1,2), where d = 0]
    by (auto simp: transform_object_def keep_value_def)
  have "keep_value v (transform (on_leaves h) d v) = (case h v of Some w \<Rightarrow> w | None \<Rightarrow> v)"
    using assms(4) by (simp add: on_leaves_inside transform_leaf keep_value_def)
  then show "transform (on_leaves h) d (OAttr i v) = Some (OAttr i (case h v of Some w \<Rightarrow> w | None \<Rightarrow> v))"
    "transform (on_leaves h) d (OParam k v) = Some (OParam k (case h v of Some w \<Rightarrow> w | None \<Rightarrow> v))"
    "transform (on_leaves h) d (OProp c v) = Some (OProp c (case h v of Some w \<Rightarrow> w | None \<Rightarrow> v))"
    by simp_all
qed

theorem transform_values_witness:
  "leaves (transform_object (on_leaves (\<lambda>x. if x = OBool True then Some x else None)) (OVector [ONull, OTuple [OBool True, ONull]])) =
     [OBool True]"
  using transform_values [where h = "\<lambda>x. if x = OBool True then Some x else None" and v = ONull
      and obj = "OVector [ONull, OTuple [OBool True, ONull]]"]
  by (simp add: composite_def map_filter_def)

section \<open>What renaming does\<close>

fun lookup_at :: "pmap \<Rightarrow> byte list list \<Rightarrow> object option" where
  "lookup_at pm [] = None"
| "lookup_at pm (k # ks) =
     (case map_find k pm of
        None \<Rightarrow> None
      | Some v \<Rightarrow> if ks = [] then Some v else (case v of OParamMap m \<Rightarrow> lookup_at m ks | _ \<Rightarrow> None))"

text \<open>A parameter can be inserted: its name is free in the map the path leads to, or the path can be created.\<close>

fun can_insert :: "pmap \<Rightarrow> byte list list \<Rightarrow> byte list \<Rightarrow> bool" where
  "can_insert pm [] k \<longleftrightarrow> map_find k pm = None"
| "can_insert pm (n # rest) k \<longleftrightarrow>
     (case map_find n pm of None \<Rightarrow> True | Some (OParamMap m) \<Rightarrow> can_insert m rest k | Some _ \<Rightarrow> False)"

text \<open>Two paths of which none leads through the other.\<close>

definition apart :: "byte list list \<Rightarrow> byte list list \<Rightarrow> bool" where
  "apart p q \<longleftrightarrow> \<not> prefix p q \<and> \<not> prefix q p"

lemma apart_Cons [simp]: "apart (k # p) (k' # q) \<longleftrightarrow> k \<noteq> k' \<or> apart p q"
  "\<not> apart [] q" "\<not> apart p []"
  by (auto simp: apart_def)

lemma wf_map_erase: "wf_map m \<Longrightarrow> wf_map (map_erase k m)"
  using sorted_keys_erase [of m k] by (auto simp: wf_map_def) (auto simp: map_erase_def)

lemma map_assign_same: "sorted_keys m \<Longrightarrow> map_find k m = Some v \<Longrightarrow> map_assign k v m = m"
  by (rule std.extensional) (auto simp: sorted_keys_assign map_find_assign)

lemma extract_spec:
  "wf_map pm \<Longrightarrow> wf_map (fst (extract_at pm (p @ [k]))) \<and>
     snd (extract_at pm (p @ [k])) = map_option (\<lambda>v. (k, v)) (lookup_at pm (p @ [k])) \<and>
     lookup_at (fst (extract_at pm (p @ [k]))) (p @ [k]) = None \<and>
     (\<forall>q. apart (p @ [k]) q \<longrightarrow> lookup_at (fst (extract_at pm (p @ [k]))) q = lookup_at pm q)"
proof (induction p arbitrary: pm)
  case Nil
  have "lookup_at (map_erase k pm) q = lookup_at pm q" if "apart [k] q" for q
    using that by (cases q) (auto simp: map_find_erase)
  then show ?case using Nil by (auto simp: wf_map_erase map_find_erase split: option.split)
next
  case (Cons n p)
  show ?case
  proof (cases "\<exists>m. map_find n pm = Some (OParamMap m)")
    case True
    then obtain m where m: "map_find n pm = Some (OParamMap m)" by blast
    then have w: "wf_map m" using wf_map_find [OF Cons.prems m] by simp
    note IH = Cons.IH [OF w]
    obtain m' r where e: "extract_at m (p @ [k]) = (m', r)" by (cases "extract_at m (p @ [k])")
    have "lookup_at (map_assign n (OParamMap m') pm) q = lookup_at pm q" if "apart (n # p @ [k]) q" for q
    proof (cases q)
      case (Cons n' q')
      then show ?thesis
        using that IH m e by (cases "q' = []") (auto simp: map_find_assign wf_map_sorted [OF \<open>wf_map pm\<close>])
    qed (use that in simp)
    with IH e m Cons.prems show ?thesis
      by (auto simp: wf_map_assign map_find_assign wf_map_sorted)
  next
    case False
    then have "extract_at pm ((n # p) @ [k]) = (pm, None)" "lookup_at pm ((n # p) @ [k]) = None"
      by (auto split: option.split object.split)
    with Cons.prems show ?thesis by simp
  qed
qed

lemma insert_spec:
  "wf_map pm \<Longrightarrow> wf_object v \<Longrightarrow> can_insert pm p k \<Longrightarrow>
     lookup_at (insert_at pm p (k, v)) (p @ [k]) = Some v \<and>
     (\<forall>q. apart (p @ [k]) q \<longrightarrow> lookup_at (insert_at pm p (k, v)) q = lookup_at pm q)"
proof (induction p arbitrary: pm)
  case Nil
  have "lookup_at (map_emplace k v pm) q = lookup_at pm q" if "apart [k] q" for q
    using that Nil by (cases q) (auto simp: map_find_emplace wf_map_sorted)
  with Nil show ?case by (simp add: map_find_emplace wf_map_sorted)
next
  case (Cons n p)
  show ?case
  proof (cases "map_find n pm")
    case None
    note IH = Cons.IH [of "[]"]
    have "can_insert [] p k" by (cases p) auto
    with IH Cons.prems have i: "lookup_at (insert_at [] p (k, v)) (p @ [k]) = Some v"
      "\<And>q. apart (p @ [k]) q \<Longrightarrow> lookup_at (insert_at [] p (k, v)) q = lookup_at [] q" by auto
    have "lookup_at (map_emplace n (OParamMap (insert_at [] p (k, v))) pm) q = lookup_at pm q"
      if "apart (n # p @ [k]) q" for q
    proof (cases q)
      case (Cons n' q')
      moreover have "lookup_at [] q'' = None" for q'' by (cases q'') auto
      ultimately show ?thesis
        using that i None by (auto simp: map_find_emplace wf_map_sorted [OF \<open>wf_map pm\<close>])
    qed (use that in simp)
    with None i Cons.prems show ?thesis by (simp add: map_find_emplace wf_map_sorted)
  next
    case (Some x)
    with Cons.prems obtain m where m: "x = OParamMap m" and c: "can_insert m p k" by (auto split: object.splits)
    have "wf_map m" using wf_map_find [OF Cons.prems(1) Some] m by simp
    note IH = Cons.IH [OF this Cons.prems(2) c]
    have "lookup_at (map_assign n (OParamMap (insert_at m p (k, v))) pm) q = lookup_at pm q"
      if "apart (n # p @ [k]) q" for q
    proof (cases q)
      case (Cons n' q')
      then show ?thesis
        using that IH m Some by (cases "q' = []") (auto simp: map_find_assign wf_map_sorted [OF \<open>wf_map pm\<close>])
    qed (use that in simp)
    with Some m IH Cons.prems show ?thesis by (simp add: map_find_assign wf_map_sorted)
  qed
qed

lemma insert_lost: "wf_map pm \<Longrightarrow> \<not> can_insert pm p k \<Longrightarrow> insert_at pm p (k, v) = pm"
proof (induction p arbitrary: pm)
  case Nil
  then show ?case by (auto simp: wf_map_sorted intro: std.emplace_present)
next
  case (Cons n p)
  then obtain x where x: "map_find n pm = Some x" by (auto split: option.splits)
  show ?case
  proof (cases "\<exists>m. x = OParamMap m")
    case True
    then obtain m where m: "x = OParamMap m" by blast
    have "wf_map m" using wf_map_find [OF Cons.prems(1) x] m by simp
    with Cons x m have "insert_at m p (k, v) = m" by simp
    with x m Cons.prems(1) show ?thesis by (simp add: map_assign_same wf_map_sorted)
  next
    case False
    with x show ?thesis by (cases x) auto
  qed
qed

text \<open>\<^verbatim>\<open>rename\<close>, for a well-formed parameter map that has a parameter at the given path: it is not there any more.
  If its name is free in the map at the new path, or that path can be created, the parameter is found there;
  otherwise, when the place is taken, the path leads through a value that is no map, or the path is empty, the
  parameter is lost and nothing else happens.  Every path that neither leads through the old or the new place nor is
  part of the way to them finds what it found before.\<close>

theorem rename_moves:
  assumes "wf_map pm" "lookup_at pm (p @ [k]) = Some v"
  shows "(let pm1 = fst (extract_at pm (p @ [k])); pm' = rename pm (p @ [k]) rep in
     lookup_at pm1 (p @ [k]) = None \<and>
     (if rep \<noteq> [] \<and> can_insert pm1 rep k then lookup_at pm' (rep @ [k]) = Some v else pm' = pm1) \<and>
     (\<forall>q. apart (p @ [k]) q \<and> apart (rep @ [k]) q \<longrightarrow> lookup_at pm' q = lookup_at pm q))"
proof -
  obtain pm1 where e: "extract_at pm (p @ [k]) = (pm1, Some (k, v))"
    using extract_spec [OF assms(1), of p k] assms(2) by (cases "extract_at pm (p @ [k])") auto
  have 1: "wf_map pm1" "lookup_at pm1 (p @ [k]) = None"
    "\<And>q. apart (p @ [k]) q \<Longrightarrow> lookup_at pm1 q = lookup_at pm q"
    using extract_spec [OF assms(1), of p k] e by simp_all
  have r: "rename pm (p @ [k]) rep = insert_param pm1 rep (k, v)" by (simp add: rename_def e)
  have v: "wf_object v"
    using assms
  proof (induction p arbitrary: pm)
    case Nil
    then show ?case by (auto dest: wf_map_find split: option.splits)
  next
    case (Cons n p)
    then obtain m where "map_find n pm = Some (OParamMap m)" "lookup_at m (p @ [k]) = Some v"
      by (auto split: option.splits object.splits)
    with Cons.IH [of m] wf_map_find [OF Cons.prems(1), of n "OParamMap m"] show ?case by simp
  qed
  show ?thesis
  proof (cases "rep \<noteq> [] \<and> can_insert pm1 rep k")
    case True
    with insert_spec [OF 1(1) v, of rep k] 1 show ?thesis by (simp add: Let_def e r insert_param_def)
  next
    case False
    then have "insert_param pm1 rep (k, v) = pm1"
      using insert_lost [OF 1(1)] by (auto simp: insert_param_def)
    with False 1 show ?thesis by (auto simp: Let_def e r)
  qed
qed

theorem rename_moves_witness:
  "lookup_at (rename [([1], OU8 7), ([2], OParamMap [])] [[1]] [[2]]) [[2], [1]] = Some (OU8 7)"
  using rename_moves [of "[([1], OU8 7), ([2], OParamMap [])]" "[]" "[1]" "OU8 7" "[[2]]"]
  by (simp add: wf_map_def map_erase_def Let_def)

end
