(* ===== verification/Walker.thy ===== *)
theory Walker
  imports Dom Json_Text
begin

unbundle bit_operations_syntax

text \<open>
  The typed serializer (\<^verbatim>\<open>src/io/src/serializer/typed.cpp\<close>, \<^verbatim>\<open>typed.hpp\<close>) and the two walkers over trees of objects:
  \<^verbatim>\<open>json_walker.cpp\<close> prints JSON with line breaks and indentation, \<^verbatim>\<open>pretty_walker.cpp\<close> a text for people.  Both
  remember whether the last output was a line break.  What the JSON parser makes of the first text is at
  the end.
\<close>

section \<open>The typed serializer\<close>

record typed_printers = printers +
  ty_time :: "u64 \<Rightarrow> byte list"
  ty_endpoint :: "u16 \<Rightarrow> byte list \<Rightarrow> byte list"

definition type_name :: "object \<Rightarrow> byte list" where
  "type_name obj = str (intrinsic_name_by_type_code (unat (type_tag obj)))"

definition typed_severity :: "byte \<Rightarrow> byte list" where
  "typed_severity s = str ''!'' @
     (if s = severity_code LEVEL_TRACE then str ''TRACE''
      else if s = severity_code LEVEL_DEBUG then str ''DEBUG''
      else if s = severity_code LEVEL_INFO then str ''INFO''
      else if s = severity_code LEVEL_WARNING then str ''WARN''
      else if s = severity_code LEVEL_ERROR then str ''ERROR''
      else if s = severity_code LEVEL_FATAL then str ''FATAL''
      else str ''!'')"

text \<open>The types without a serializer of their own are printed with the stream operator, a colon and their name.\<close>

definition serialize_typed :: "'a typed_printers_scheme \<Rightarrow> endian \<Rightarrow> object \<Rightarrow> ostream \<Rightarrow> ostream" where
  "serialize_typed p h obj os =
     (let plain = serialize_plain (printers.truncate p) h obj; name = type_name obj in
      case obj of
        OBool v \<Rightarrow> plain os
      | OVersion v \<Rightarrow> plain (put_text (str ''v'') os)
      | ORevision v \<Rightarrow> plain (put_text (str ''r'') os)
      | OI8 v \<Rightarrow> put_text (str ''i8'') (plain os)
      | OI16 v \<Rightarrow> put_text (str ''i16'') (plain os)
      | OI32 v \<Rightarrow> put_text (str ''i32'') (plain os)
      | OI64 v \<Rightarrow> put_text (str ''i64'') (plain os)
      | OU8 v \<Rightarrow> put_text (str ''u8'') (plain os)
      | OU16 v \<Rightarrow> put_text (str ''u16'') (plain os)
      | OU32 v \<Rightarrow> put_text (str ''u32'') (plain os)
      | OU64 v \<Rightarrow> put_text (str ''u64'') (plain os)
      | OFloat v \<Rightarrow> put_text (str ''f'') (plain os)
      | ODouble v \<Rightarrow> put_text (str ''d'') (plain os)
      | OChrono t v \<Rightarrow>
          if t = TimePoint then put_text (quoted (ty_time p v) @ name) os
          else put_text (str '':'' @ name) (plain os)
      | OString v \<Rightarrow> put_text (quoted v @ name) os
      | OPath v \<Rightarrow> put_text (quoted v @ name) os
      | ONull \<Rightarrow> plain os
      | OEod \<Rightarrow> plain os
      | OOp v \<Rightarrow> plain os
      | OSeverity s \<Rightarrow> put_text (typed_severity s) os
      | OEndpoint t port address \<Rightarrow> put_text (ty_endpoint p port address @ str '':'' @ name) os
      | _ \<Rightarrow> put_text (str '':'' @ name) (plain os))"

section \<open>Pretty printing\<close>

type_synonym printer = "ostream \<Rightarrow> ostream"

definition dots :: "nat \<Rightarrow> byte list" where
  "dots n = map (\<lambda>i. if even i then 46 else 32) [0..<n * 2]"

definition newline :: "byte list" where
  "newline = [10]"

text \<open>What stands before an element and before the key of a pair.\<close>

definition lead :: "byte list \<Rightarrow> byte list \<Rightarrow> bool \<Rightarrow> byte list" where
  "lead ind other nl = (if nl then ind else other)"

definition pretty_open :: "u16 \<Rightarrow> string option" where
  "pretty_open t =
     (if t = 46 then Some ''['' else if t = 47 then Some ''<'' else if t = 54 then Some ''!(''
      else if t = 50 then Some ''%('' else if t = 48 then Some ''#('' else if t = 52 then Some ''$('' else None)"

definition pretty_close :: "u16 \<Rightarrow> string option" where
  "pretty_close t =
     (if t = 45 then Some ''}'' else if t = 46 then Some '']'' else if t = 47 then Some ''>''
      else if t = 54 then Some '')'' else None)"

definition pretty_event :: "'a typed_printers_scheme \<Rightarrow> endian \<Rightarrow> bool \<Rightarrow> walker_event \<Rightarrow> printer \<times> bool" where
  "pretty_event p h nl ev =
     (let pair = (\<lambda>d t. (put_text (lead (dots d) [32] nl @ t), False));
          simple = (\<lambda>d t v. (\<lambda>os. put_text newline (serialize_plain (printers.truncate p) h v
            (put_text (lead (dots d) [32] nl @ t) os)), True)) in
      case ev of
        Visit obj t d s \<Rightarrow>
          (\<lambda>os. put_text (if s \<noteq> LAST then newline else [])
            (serialize_typed p h obj (put_text (lead (dots d) [] nl) os)), s \<noteq> LAST)
      | Open t d n \<Rightarrow>
          if t = 45 then (put_text (lead (dots d) [] nl @ str ''{'' @ (if n > 1 then [32] else [])), False)
          else (case pretty_open t of
              Some b \<Rightarrow> (put_text (lead (dots d) [] nl @ str b @ (if n > 1 then newline else [])), n > 1)
            | None \<Rightarrow> (\<lambda>os. os, nl))
      | Close t d s parent \<Rightarrow>
          if t \<in> {48, 50, 52} then (put_text (dots d @ str '')'' @ newline), True)
          else (case pretty_close t of
              Some b \<Rightarrow> (put_text (lead (dots d) [] nl @ str b @ (if s \<noteq> LAST then newline else [])), s \<noteq> LAST)
            | None \<Rightarrow> (\<lambda>os. os, nl))
      | Pair_Index n d \<Rightarrow> pair d (str ''#'' @ show_dec n @ [32])
      | Pair_Name k d \<Rightarrow> pair d (k @ str '':'')
      | Pair_Code c d \<Rightarrow> pair d (str ''$'' @ obis_to_string c @ str '':'')
      | Simple_Attr n v d s \<Rightarrow> simple d (show_dec n @ str ''#'') v
      | Simple_Param k v d s \<Rightarrow> simple d (k @ str '':'') v
      | Simple_Prop c v d s \<Rightarrow> simple d (str ''$'' @ obis_to_string c @ str '':'') v)"

fun pretty_run :: "'a typed_printers_scheme \<Rightarrow> endian \<Rightarrow> bool \<Rightarrow> walker_event list \<Rightarrow> printer" where
  "pretty_run p h nl [] os = os"
| "pretty_run p h nl (ev # evs) os = (case pretty_event p h nl ev of (w, nl') \<Rightarrow> pretty_run p h nl' evs (w os))"

definition to_pretty :: "'a typed_printers_scheme \<Rightarrow> endian \<Rightarrow> object \<Rightarrow> byte list" where
  "to_pretty p h obj = fst (pretty_run p h True (traverse_all obj) ([], True))"

section \<open>JSON with line breaks\<close>

definition spaces :: "nat \<Rightarrow> byte list" where
  "spaces n = replicate (n * 2) 32"

definition json_event :: "build \<Rightarrow> 'a json_printers_scheme \<Rightarrow> endian \<Rightarrow> bool \<Rightarrow> walker_event \<Rightarrow> writer \<times> bool" where
  "json_event b p h nl ev =
     (let opening = (\<lambda>d t n. (w_text (lead (spaces d) [] nl @ t @ (if n > 1 then newline else [])), n > 1));
          closing = (\<lambda>d t s parent.
            let inner = (parent \<in> {45, 46, 47 :: u16}) in
            (w_text (lead (spaces d) [] nl @ t @
              (if s \<noteq> LAST then str '', '' @ newline else if inner then [] else newline)), s \<noteq> LAST \<or> \<not> inner));
          pair = (\<lambda>d k. (w_text (lead (spaces d) [32] nl @ quoted k @ str '': ''), False));
          simple = (\<lambda>d k v s. (w_then (w_text (lead (spaces d) [32] nl @ quoted k @ str '': ''))
            (w_then (serialize_json b p h v) (w_text ((if s \<noteq> LAST then str '', '' else []) @ newline))), True)) in
      case ev of
        Visit obj t d s \<Rightarrow>
          (w_then (w_text (lead (spaces d) [] nl))
            (w_then (serialize_json b p h obj) (w_text (if s \<noteq> LAST then str '', '' @ newline else []))), s \<noteq> LAST)
      | Open t d n \<Rightarrow>
          if t \<in> {45, 47, 48, 50, 52} then opening d (str ''{'') n
          else if t = 46 then opening d (str ''[ '') n
          else (w_text [], nl)
      | Close t d s parent \<Rightarrow>
          if t \<in> {45, 47, 48, 50, 52} then closing d (str ''}'') s parent
          else if t = 46 then closing d (str '']'') s parent
          else (w_text [], nl)
      | Pair_Index n d \<Rightarrow> pair d (show_dec n)
      | Pair_Name k d \<Rightarrow> pair d k
      | Pair_Code c d \<Rightarrow> pair d (obis_to_string c)
      | Simple_Attr n v d s \<Rightarrow> simple d (show_dec n) v s
      | Simple_Param k v d s \<Rightarrow> simple d k v s
      | Simple_Prop c v d s \<Rightarrow> simple d (obis_to_string c) v s)"

fun json_run :: "build \<Rightarrow> 'a json_printers_scheme \<Rightarrow> endian \<Rightarrow> bool \<Rightarrow> walker_event list \<Rightarrow> writer \<times> bool" where
  "json_run b p h nl [] = (w_text [], nl)"
| "json_run b p h nl (ev # evs) =
     (case json_event b p h nl ev of (w, nl1) \<Rightarrow> case json_run b p h nl1 evs of (w', nl2) \<Rightarrow> (w_then w w', nl2))"

definition to_json_pretty :: "build \<Rightarrow> 'a json_printers_scheme \<Rightarrow> endian \<Rightarrow> object \<Rightarrow> byte list result" where
  "to_json_pretty b p h obj = rbind (fst (json_run b p h True (traverse_all obj)) ([], True)) (\<lambda>os. Inr (fst os))"

section \<open>Reading JSON with blanks\<close>

definition blank :: "byte list \<Rightarrow> bool" where
  "blank w \<longleftrightarrow> set w \<subseteq> {10, 32}"

lemma blank_simps [simp]: "blank []" "blank (c # w) \<longleftrightarrow> c \<in> {10, 32} \<and> blank w" "blank (w @ w') \<longleftrightarrow> blank w \<and> blank w'"
  by (auto simp: blank_def)

lemma blank_spaces [simp]: "blank (spaces n)" "blank newline"
  by (auto simp: blank_def spaces_def newline_def)

lemma blank_ascii: "blank w \<Longrightarrow> ascii w"
  by (auto simp: blank_def ascii_def)

text \<open>A code point that ends a token: it is structural, or a blank that is skipped.\<close>

definition delim :: "build \<Rightarrow> json_env \<Rightarrow> stacks \<Rightarrow> u32 \<Rightarrow> object list \<Rightarrow> stacks \<Rightarrow> bool" where
  "delim b e p c os p' \<longleftrightarrow> (c \<in> {44, 93, 125} \<and> accepts b e p c os p') \<or> (c \<in> {10, 32} \<and> os = [] \<and> p' = p)"

lemma blank_point: "c \<in> {10, 32} \<Longrightarrow> tk_put b e T0 c = ([], Inr (T0, True))"
  by (auto simp: tk_put_def state_start_def)

lemma delim_step: "delim b e p c os p' \<Longrightarrow> steps b e (T0, p) [c] os (T0, p')"
  unfolding delim_def using accepts_step step_take [OF blank_point, of c b e p "[]" p] by auto

definition reads :: "build \<Rightarrow> json_env \<Rightarrow> byte list \<Rightarrow> object \<Rightarrow> bool" where
  "reads b e t v \<longleftrightarrow> (\<forall>p c os p'. states p \<noteq> [] \<longrightarrow> delim b e (push v p) c os p' \<longrightarrow>
     steps b e (T0, p) (map ucast t @ [c]) os (T0, p'))"

lemma readsD: "reads b e t v \<Longrightarrow> states p \<noteq> [] \<Longrightarrow> delim b e (push v p) c os p' \<Longrightarrow>
   steps b e (T0, p) (map ucast t @ [c]) os (T0, p')"
  unfolding reads_def by blast

lemma blank_steps: "blank w \<Longrightarrow> steps b e (T0, p) (map ucast w) [] (T0, p)"
proof (induction w)
  case Nil
  show ?case by (simp add: steps_Nil)
next
  case (Cons c w)
  then have "(ucast c :: u32) \<in> {10, 32}" by auto
  from steps_silent_Cons [OF delim_step Cons.IH] this Cons.prems show ?case by (simp add: delim_def)
qed

lemma reads_pad:
  assumes "reads b e t v" "blank w" "blank w'"
  shows "reads b e (w @ t @ w') v"
  unfolding reads_def
proof (intro allI impI)
  fix p c os p' assume p: "states p \<noteq> []" and d: "delim b e (push v p) c os p'"
  have "steps b e (T0, p) (map ucast (t @ w') @ [c]) os (T0, p')"
  proof (cases w')
    case Nil
    with readsD [OF assms(1) p d] show ?thesis by simp
  next
    case (Cons x xs)
    then have x: "delim b e (push v p) (ucast x) [] (push v p)" "blank xs" using assms(3) by (auto simp: delim_def)
    from steps_silent [OF readsD [OF assms(1) p x(1)] steps_silent [OF blank_steps [OF x(2)] delim_step [OF d]]] Cons
    show ?thesis by simp
  qed
  from steps_silent [OF blank_steps [OF assms(2)] this] show "steps b e (T0, p) (map ucast (w @ t @ w') @ [c]) os (T0, p')"
    by simp
qed

text \<open>Values that are no containers.\<close>

lemma reads_done:
  assumes "\<And>p. states p \<noteq> [] \<Longrightarrow> steps b e (T0, p) (map ucast t) [] (T0, push v p)"
  shows "reads b e t v"
  unfolding reads_def using steps_silent [OF assms delim_step] by blast

text \<open>A token whose end is seen at the next code point: read before a structural one and before a blank.\<close>

lemma reads_token:
  assumes "readable b e v" "\<And>p c. states p \<noteq> [] \<Longrightarrow> c \<in> {10, 32} \<Longrightarrow>
    steps b e (T0, p) (map ucast (json_text b v) @ [c]) [] (T0, push (canon v) p)"
  shows "reads b e (json_text b v) (canon v)"
  unfolding reads_def delim_def using readableD [OF assms(1)] assms(2) by blast

lemma keyword_blank:
  assumes "boost_ok e" "c \<in> {10, 32}"
  shows "steps b e (T0, p) (map ucast (str ''null'') @ [c]) [] (T0, push ONull p)"
    and "steps b e (T0, p) (map ucast (show_bool v) @ [c]) [] (T0, push (OBool v) p)"
proof -
  have end_blank: "steps b e (in_literal buf, p) [c] [] (T0, p1)"
    if "build_literal e buf = Inr sy" "next_symbol b e p sy = ([], Inr p1)" for buf sy p1
    by (rule step_take [where syms = "[sy]"])
      (use that assms(2) in \<open>auto simp: tk_put_def state_literal_def end_literal_def tokenizer_init_def\<close>)
  have k: "steps b e (T0, p) (map ucast (str w) @ [c]) [] (T0, p1)"
    if "w \<in> {''null'', ''true'', ''false''}" "build_literal e (map cp w) = Inr sy" "next_symbol b e p sy = ([], Inr p1)"
    for w sy p1
  proof -
    have "list_all letter (str w)" "w \<noteq> []" using that(1) by (auto simp: keyword_letters letter_def)
    then have "steps b e (T0, p) (map ucast (str w)) [] (in_literal (map cp w), p)"
      using literal_steps [of "hd (str w)" "tl (str w)" b e p] by (cases w) (auto simp: map_cp str_def cp_def)
    from steps_silent [OF this end_blank [OF that(2,3)]] show ?thesis .
  qed
  have u: "to_u8 e (map cp w) = Inr (str w)" if "w \<in> {''null'', ''true'', ''false''}" for w
    using that to_u8_ascii [OF assms(1), of "str w"] by (auto simp: map_cp keyword_letters)
  have d: "(map cp ''true'' = map cp ''null'') = False" "(map cp ''false'' = map cp ''null'') = False"
    by (simp_all add: cp_def byte_of_char_def)
  show "steps b e (T0, p) (map ucast (str ''null'') @ [c]) [] (T0, push ONull p)"
  proof (rule k [where sy = "Symbol NOTHING (str ''null'')" and w = "''null''"])
    show "build_literal e (map cp ''null'') = Inr (Symbol NOTHING (str ''null''))"
      using u [of "''null''"] by (simp only: build_literal_def if_True simp_thms rbind_simps insert_iff)
  qed (simp_all add: next_symbol_def)
  show "steps b e (T0, p) (map ucast (show_bool v) @ [c]) [] (T0, push (OBool v) p)"
  proof (cases v)
    case True
    have "build_literal e (map cp ''true'') = Inr (Symbol BOOLEAN (str ''true''))"
      using u [of "''true''"] by (simp only: build_literal_def d if_False if_True simp_thms rbind_simps insert_iff)
    from k [OF _ this] True show ?thesis by (simp add: show_bool_def next_symbol_def)
  next
    case False
    have "build_literal e (map cp ''false'') = Inr (Symbol BOOLEAN (str ''false''))"
      using u [of "''false''"] by (simp only: build_literal_def d if_False if_True simp_thms rbind_simps insert_iff)
    from k [OF _ this] False show ?thesis by (simp add: show_bool_def next_symbol_def keyword_letters)
  qed
qed

lemma int_blank:
  assumes "boost_ok e" "c \<in> {10, 32}" "i \<noteq> 0" "- (2 ^ 63) \<le> i" "i < 2 ^ 63"
  shows "steps b e (T0, p) (map ucast (show_int i) @ [c]) [] (T0, push (OI64 (word_of_int i)) p)"
proof -
  obtain x xs where x: "show_int i = x # xs" "x = 45 \<or> (is_digit (ucast x) \<and> x \<noteq> 48)" "list_all is_digit (map ucast xs)"
    using show_int_shape(2) [OF assms(3)] by auto
  have "(ucast x :: u32) = 45 \<or> (is_digit (ucast x) \<and> (ucast x :: u32) \<noteq> 48)"
    using x(2) by (auto simp: word_eq_unat byte_eq_unat)
  from number_steps [OF this x(3)] x(1)
  have n: "steps b e (T0, p) (map ucast (show_int i)) [] (in_number (map ucast (show_int i)), p)" by simp
  have "to_u8 e (map ucast (show_int i)) = Inr (show_int i)"
    by (rule to_u8_ascii [OF assms(1) show_int_shape(1) [OF assms(3)]])
  moreover have "lexical_i64 e (show_int i) = Some (word_of_int i)"
    using assms(1,4,5) by (simp add: boost_ok_def)
  ultimately have "steps b e (in_number (map ucast (show_int i)), p) [c] ([] @ []) (T0, push (OI64 (word_of_int i)) p)"
    using assms(2)
    by (intro step_retry [where syms = "[Symbol NUMBER (show_int i)]" and t' = T0 and syms' = "[]" and p' = "push (OI64 (word_of_int i)) p"])
      (auto simp: tk_put_def state_number_def emit_buffer_def tokenizer_init_def is_digit_def word_le_nat_alt
        next_symbol_def process_number_def state_start_def)
  with steps_silent [OF n] show ?thesis by simp
qed

lemma reads_scalar:
  assumes "boost_ok e" "jsonable b v" "\<not> composite v"
  shows "reads b e (json_text b v) (canon v)"
proof (cases "integer v")
  case (Some i)
  from integer_text [OF assms(2) Some] int_blank [OF assms(1)] show ?thesis
    by (intro reads_token readable_jsonable assms) simp
next
  case None
  show ?thesis
  proof (cases v)
    case ONull
    with keyword_blank(1) [OF assms(1)] show ?thesis by (intro reads_token readable_jsonable assms) simp
  next
    case (OBool x)
    with keyword_blank(2) [OF assms(1)] show ?thesis by (intro reads_token readable_jsonable assms) simp
  next
    case (OString s)
    with string_steps [OF assms(1)] assms(2) show ?thesis by (intro reads_done) simp
  qed (use assms None in simp_all)
qed

text \<open>Containers with blanks between their elements.\<close>

definition closes :: "build \<Rightarrow> json_env \<Rightarrow> byte list \<Rightarrow> object \<Rightarrow> bool" where
  "closes b e t v \<longleftrightarrow> (\<forall>p. (states p = [] \<longrightarrow> operands p = []) \<longrightarrow>
     steps b e (T0, p) (map ucast t) (fst (finish p v (states p) (operands p)))
       (T0, snd (finish p v (states p) (operands p))))"

lemma closes_reads: "closes b e t v \<Longrightarrow> reads b e t v"
  unfolding closes_def by (rule reads_done) (metis finish_push fst_conv snd_conv)

lemma closes_pad:
  assumes "closes b e t v" "blank w" "blank w'"
  shows "closes b e (w @ t @ w') v"
  unfolding closes_def
proof (intro allI impI)
  fix p :: stacks assume p: "states p = [] \<longrightarrow> operands p = []"
  from steps_append [OF assms(1) [unfolded closes_def, rule_format, OF p [rule_format]] blank_steps [OF assms(3)]]
  have "steps b e (T0, p) (map ucast t @ map ucast w') (fst (finish p v (states p) (operands p)))
       (T0, snd (finish p v (states p) (operands p)))" by simp
  from steps_silent [OF blank_steps [OF assms(2)] this]
  show "steps b e (T0, p) (map ucast (w @ t @ w')) (fst (finish p v (states p) (operands p)))
       (T0, snd (finish p v (states p) (operands p)))" by simp
qed

lemma elements_steps:
  assumes "list_all2 (reads b e) ts vs" "vs \<noteq> []" "states p = ARRAY # ss" "blank w" "blank w'"
    and "accepts b e (p\<lparr>operands := rev vs @ operands p\<rparr>) 93 os p'"
  shows "steps b e (T0, p) (map ucast (joined (44 # w) ts @ w') @ [93]) os (T0, p')"
  using assms
proof (induction ts vs arbitrary: p rule: list_all2_induct)
  case Nil
  then show ?case by simp
next
  case (Cons t ts v vs)
  show ?case
  proof (cases vs)
    case Nil
    then have ts: "ts = []" using Cons.hyps(2) by simp
    have "accepts b e (push v p) 93 os p'" using Cons.prems(5) Nil by (simp add: push_def)
    with reads_pad [OF Cons.hyps(1), of "[]" w'] Cons.prems
    have "steps b e (T0, p) (map ucast (t @ w') @ [93]) os (T0, p')"
      by (intro readsD [where v = v]) (simp_all add: delim_def)
    then show ?thesis by (simp add: ts)
  next
    case (Cons v' vs')
    then obtain t' ts' where ts: "ts = t' # ts'" using Cons.hyps(2) by (cases ts) auto
    have "accepts b e (push v p) 44 [] (push v p)"
      by (rule comma_array) (use Cons.prems in \<open>simp add: push_def\<close>)
    then have 1: "steps b e (T0, p) (map ucast t @ [44]) [] (T0, push v p)"
      using Cons.prems by (intro readsD [OF Cons.hyps(1)]) (simp_all add: delim_def)
    have "steps b e (T0, push v p) (map ucast (joined (44 # w) ts @ w') @ [93]) os (T0, p')"
      using Cons.prems Cons by (intro Cons.IH) (simp_all add: push_def)
    from steps_silent [OF 1 steps_silent [OF blank_steps [OF Cons.prems(3)] this]] show ?thesis by (simp add: ts)
  qed
qed

lemma closes_array:
  assumes "list_all2 (reads b e) ts vs" "\<forall>v \<in> set vs. type_tag v \<noteq> 61" "blank w" "blank w1" "blank w2"
  shows "closes b e ([91] @ w1 @ joined (44 # w) ts @ w2 @ [93]) (OVector vs)"
  unfolding closes_def
proof (intro allI impI)
  fix p :: stacks assume p: "states p = [] \<longrightarrow> operands p = []"
  let ?p1 = "p\<lparr>states := ARRAY # states p, operands := OEod # operands p\<rparr>"
  let ?p2 = "?p1\<lparr>operands := rev vs @ operands ?p1\<rparr>"
  let ?f = "finish p (OVector vs) (states p) (operands p)"
  have "finish ?p2 (OVector vs) (states p) (operands p) = ?f" by (simp add: finish_def)
  moreover have "accepts b e ?p2 93 (fst (finish ?p2 (OVector vs) (states p) (operands p)))
      (snd (finish ?p2 (OVector vs) (states p) (operands p)))"
    by (rule close_array) (use assms p in \<open>auto simp: list_all_iff\<close>)
  ultimately have a: "accepts b e ?p2 93 (fst ?f) (snd ?f)" by simp
  have "steps b e (T0, ?p1) (map ucast (joined (44 # w) ts @ w2) @ [93]) (fst ?f) (T0, snd ?f)"
  proof (cases "vs = []")
    case True
    with assms(1) have "ts = []" by simp
    with a True steps_silent [OF blank_steps [OF assms(5)] accepts_step, of b e ?p1 93 "fst ?f" "snd ?f"]
    show ?thesis by simp
  next
    case False
    show ?thesis by (rule elements_steps [OF assms(1) False _ assms(3,5) a]) simp
  qed
  from steps_silent_Cons [OF accepts_step [OF open_array] steps_silent [OF blank_steps [OF assms(4)] this]]
  show "steps b e (T0, p) (map ucast ([91] @ w1 @ joined (44 # w) ts @ w2 @ [93])) (fst ?f) (T0, snd ?f)" by simp
qed

definition reads_member :: "build \<Rightarrow> json_env \<Rightarrow> byte list \<Rightarrow> byte list \<times> object \<Rightarrow> bool" where
  "reads_member b e t a \<longleftrightarrow> (\<exists>w t'. t = w @ quoted (fst a) @ [58] @ t' \<and> blank w \<and> plain_key (fst a) \<and> reads b e t' (snd a))"

lemma reads_member_steps:
  assumes "boost_ok e" "reads_member b e t a" "states p = OBJECT # ss"
    and "delim b e (p\<lparr>states := VALUE # ss, operands := snd a # OString (fst a) # operands p\<rparr>) c os p'"
  shows "steps b e (T0, p) (map ucast t @ [c]) os (T0, p')"
proof -
  obtain w t' where t: "t = w @ quoted (fst a) @ [58] @ t'" "blank w" "plain_key (fst a)" "reads b e t' (snd a)"
    using assms(2) by (auto simp: reads_member_def)
  let ?p1 = "push (OString (fst a)) p" and ?p2 = "(push (OString (fst a)) p)\<lparr>states := VALUE # ss\<rparr>"
  have k: "steps b e (T0, p) (map ucast (quoted (fst a))) [] (T0, ?p1)" by (rule key_steps [OF assms(1) t(3)])
  have col: "steps b e (T0, ?p1) [58] [] (T0, ?p2)"
    by (rule accepts_step, rule colon_object) (use assms(3) in \<open>simp add: push_def\<close>)
  have "push (snd a) ?p2 = p\<lparr>states := VALUE # ss, operands := snd a # OString (fst a) # operands p\<rparr>"
    by (simp add: push_def)
  then have v: "steps b e (T0, ?p2) (map ucast t' @ [c]) os (T0, p')"
    using assms(4) by (intro readsD [OF t(4)]) auto
  from steps_silent [OF blank_steps [OF t(2)] steps_silent [OF k steps_silent_Cons [OF col v]]] show ?thesis
    by (simp add: t(1))
qed

lemma reads_member_pad: "reads_member b e t a \<Longrightarrow> blank w \<Longrightarrow> reads_member b e (t @ w) a"
proof -
  assume "reads_member b e t a" and w: "blank w"
  then obtain w' t' where t: "t = w' @ quoted (fst a) @ [58] @ t'" "blank w'" "plain_key (fst a)" "reads b e t' (snd a)"
    by (auto simp: reads_member_def)
  from reads_pad [OF t(4), of "[]" w] w have "reads b e (t' @ w) (snd a)" by simp
  with t show ?thesis unfolding reads_member_def by (intro exI [of _ w'] exI [of _ "t' @ w"]) simp
qed

lemma members_steps:
  assumes "list_all2 (reads_member b e) ts m" "boost_ok e" "m \<noteq> []" "states p = OBJECT # ss"
    and "operands p = params (rev done) @ OEod # vs" "sorted_keys (done @ m)" "ss = [] \<Longrightarrow> vs = []" "blank w" "blank w'"
  shows "steps b e (T0, p) (map ucast (joined (44 # w) ts @ w') @ [125])
    (fst (finish p (OParamMap (done @ m)) ss vs)) (T0, snd (finish p (OParamMap (done @ m)) ss vs))"
  using assms
proof (induction ts m arbitrary: p "done" rule: list_all2_induct)
  case Nil
  then show ?case by simp
next
  case (Cons t ts a m)
  let ?q = "p\<lparr>states := VALUE # ss, operands := snd a # OString (fst a) # operands p\<rparr>"
  show ?case
  proof (cases m)
    case Nil
    then have ts: "ts = []" using Cons.hyps(2) by simp
    have "finish ?q obj ss vs = finish p obj ss vs" for obj by (simp add: finish_def)
    with close_object [of ?q ss "snd a" "fst a" "done" vs b e] Cons.prems Nil
    have "accepts b e ?q 125 (fst (finish p (OParamMap (done @ [a])) ss vs)) (snd (finish p (OParamMap (done @ [a])) ss vs))"
      by simp
    then have "delim b e ?q 125 (fst (finish p (OParamMap (done @ [a])) ss vs)) (snd (finish p (OParamMap (done @ [a])) ss vs))"
      by (simp add: delim_def)
    from reads_member_steps [OF Cons.prems(1) reads_member_pad [OF Cons.hyps(1) Cons.prems(8)] Cons.prems(3) this] Nil
    show ?thesis by (simp add: ts)
  next
    case (Cons a2 m2)
    then obtain t2 ts2 where ts: "ts = t2 # ts2" using Cons.hyps(2) by (cases ts) auto
    let ?p = "p\<lparr>states := OBJECT # ss, operands := params (rev (done @ [a])) @ OEod # vs\<rparr>"
    have "operands p \<noteq> []" using Cons.prems(4) by simp
    then obtain x xs where x: "operands p = x # xs" by (cases "operands p") auto
    have "accepts b e ?q 44 [] (?q\<lparr>states := OBJECT # ss, operands := OParam (fst a) (snd a) # x # xs\<rparr>)"
      by (rule comma_object) (simp_all add: x)
    moreover have "?q\<lparr>states := OBJECT # ss, operands := OParam (fst a) (snd a) # x # xs\<rparr> = ?p"
      using x Cons.prems(4) by (cases a) simp
    ultimately have "delim b e ?q 44 [] ?p" by (simp add: delim_def)
    from reads_member_steps [OF Cons.prems(1) Cons.hyps(1) Cons.prems(3) this]
    have 1: "steps b e (T0, p) (map ucast t @ [44]) [] (T0, ?p)" .
    have f: "finish ?p obj ss vs = finish p obj ss vs" for obj by (simp add: finish_def)
    have "steps b e (T0, ?p) (map ucast (joined (44 # w) ts @ w') @ [125])
      (fst (finish p (OParamMap (done @ a # m)) ss vs)) (T0, snd (finish p (OParamMap (done @ a # m)) ss vs))"
      using Cons.IH [of ?p "done @ [a]"] Cons.prems Cons f by simp
    from steps_silent [OF 1 steps_silent [OF blank_steps [OF Cons.prems(7)] this]] show ?thesis by (simp add: ts)
  qed
qed

lemma closes_object:
  assumes "list_all2 (reads_member b e) ts m" "boost_ok e" "sorted_keys m" "blank w" "blank w1" "blank w2"
  shows "closes b e ([123] @ w1 @ joined (44 # w) ts @ w2 @ [125]) (OParamMap m)"
  unfolding closes_def
proof (intro allI impI)
  fix p :: stacks assume p: "states p = [] \<longrightarrow> operands p = []"
  let ?p1 = "p\<lparr>states := OBJECT # states p, operands := OEod # operands p\<rparr>"
  let ?f = "finish p (OParamMap m) (states p) (operands p)"
  have f: "finish ?p1 (OParamMap m) (states p) (operands p) = ?f" by (simp add: finish_def)
  have "steps b e (T0, ?p1) (map ucast (joined (44 # w) ts @ w2) @ [125]) (fst ?f) (T0, snd ?f)"
  proof (cases "m = []")
    case True
    with assms(1) have ts: "ts = []" by simp
    have "build_object b ?p1 = Inr ?p1" by (simp add: build_object_def)
    moreover have "build_member b ?p1 = (fst ?f, Inr (snd ?f))"
      using build_member_params [of ?p1 "[]" "operands p" OBJECT "states p" b] p f True by (simp add: finish_def)
    ultimately have "accepts b e ?p1 125 (fst ?f) (snd ?f)"
      by (simp add: accepts_def next_symbol_def process_symbol_def Let_def)
    from steps_silent [OF blank_steps [OF assms(6)] accepts_step [OF this]] show ?thesis by (simp add: ts)
  next
    case False
    from members_steps [OF assms(1,2) False, of ?p1 "states p" "[]" "operands p" w w2] assms p f show ?thesis by simp
  qed
  from steps_silent_Cons [OF accepts_step [OF open_object] steps_silent [OF blank_steps [OF assms(5)] this]]
  show "steps b e (T0, p) (map ucast ([123] @ w1 @ joined (44 # w) ts @ w2 @ [125])) (fst ?f) (T0, snd ?f)" by simp
qed

section \<open>The printed text\<close>

definition writes :: "build \<Rightarrow> 'a json_printers_scheme \<Rightarrow> endian \<Rightarrow> bool \<Rightarrow> walker_event list \<Rightarrow> byte list \<Rightarrow> bool \<Rightarrow> bool" where
  "writes b p h nl evs t nl' \<longleftrightarrow>
     snd (json_run b p h nl evs) = nl' \<and> (\<forall>s. fst (json_run b p h nl evs) (s, True) = Inr (s @ t, True))"

lemma writes_Nil: "writes b p h nl [] [] nl"
  by (simp add: writes_def)

lemma writes_Cons:
  "json_event b p h nl ev = (w, nl1) \<Longrightarrow> \<forall>s. w (s, True) = Inr (s @ t, True) \<Longrightarrow> writes b p h nl1 evs t' nl' \<Longrightarrow>
   writes b p h nl (ev # evs) (t @ t') nl'"
  by (simp add: writes_def split_beta)

lemma json_run_append:
  "fst (json_run b p h nl (evs @ evs')) os =
     rbind (fst (json_run b p h nl evs) os) (fst (json_run b p h (snd (json_run b p h nl evs)) evs')) \<and>
   snd (json_run b p h nl (evs @ evs')) = snd (json_run b p h (snd (json_run b p h nl evs)) evs')"
proof (induction evs arbitrary: nl os)
  case Nil
  have "w_text [] os = Inr os" by (cases os) (simp add: w_text_def put_text_def)
  then show ?case by simp
next
  case (Cons ev evs)
  obtain w nl1 where ev: "json_event b p h nl ev = (w, nl1)" by (cases "json_event b p h nl ev")
  from Cons.IH [of nl1] show ?case
    by (auto simp: ev split_beta rbind_def split: sum.split)
qed

lemma writes_append:
  "writes b p h nl evs t nl1 \<Longrightarrow> writes b p h nl1 evs' t' nl' \<Longrightarrow> writes b p h nl (evs @ evs') (t @ t') nl'"
  by (simp add: writes_def json_run_append)

definition tail_text :: "walker_state \<Rightarrow> byte list" where
  "tail_text s = (if s = LAST then [] else [44, 32, 10])"

text \<open>The children of a container: all but the last are followed by a comma and a line break.\<close>

lemma children_from:
  assumes "\<And>x nl s. x \<in> set xs \<Longrightarrow> \<exists>t nl'. writes b p h nl (w x s) (t @ tail_text s) nl' \<and> Q t x"
  shows "xs \<noteq> [] \<Longrightarrow> i + length xs = Suc n \<Longrightarrow> \<exists>ts nl'. list_all2 Q ts xs \<and>
    writes b p h nl (concat (map (\<lambda>(i, w). w (get_state i n)) (enumerate i (map w xs)))) (joined [44, 32, 10] ts) nl'"
  using assms
proof (induction xs arbitrary: i nl)
  case Nil
  then show ?case by simp
next
  case (Cons x xs)
  from Cons.prems(3) [of x nl "get_state i n"] obtain t nl1
    where t: "writes b p h nl (w x (get_state i n)) (t @ tail_text (get_state i n)) nl1" "Q t x" by auto
  show ?case
  proof (cases xs)
    case Nil
    with Cons.prems have "get_state i n = LAST" by (simp add: get_state_def)
    with t Nil show ?thesis by (intro exI [of _ "[t]"] exI [of _ nl1]) (simp add: tail_text_def)
  next
    case (Cons y ys)
    with Cons.prems(2) have s: "get_state i n \<noteq> LAST" by (simp add: get_state_def)
    obtain ts nl' where ts: "list_all2 Q ts xs"
      "writes b p h nl1 (concat (map (\<lambda>(i, w). w (get_state i n)) (enumerate (Suc i) (map w xs)))) (joined [44, 32, 10] ts) nl'"
      using Cons.IH [of "Suc i" nl1] Cons.prems Cons by fastforce
    obtain u us where u: "ts = u # us" using ts(1) Cons by (cases ts) auto
    from writes_append [OF t(1) ts(2)] s ts(1) t(2) u show ?thesis
      by (intro exI [of _ "t # ts"] exI [of _ nl']) (simp add: tail_text_def)
  qed
qed

lemma children_text:
  assumes "\<And>x nl s. x \<in> set xs \<Longrightarrow> \<exists>t nl'. writes b p h nl (w x s) (t @ tail_text s) nl' \<and> Q t x"
  shows "\<exists>ts nl'. list_all2 Q ts xs \<and> writes b p h nl (walk_children (map w xs)) (joined [44, 32, 10] ts) nl'"
proof (cases "xs = []")
  case True
  then show ?thesis
    by (intro exI [of _ "[]"] exI [of _ nl]) (simp add: walk_children_def writes_Nil)
next
  case False
  from children_from [OF assms False, where i = 1 and n = "length xs" and nl = nl] show ?thesis
    by (simp add: walk_children_def)
qed

text \<open>What the parser makes of the text: empty containers stay.\<close>

fun pretty_canon :: "object \<Rightarrow> object" where
  "pretty_canon (OVector vs) = OVector (map pretty_canon vs)"
| "pretty_canon (OParamMap m) = OParamMap (map (\<lambda>a. (fst a, pretty_canon (snd a))) m)"
| "pretty_canon obj = canon obj"

lemma pretty_canon_leaf: "\<not> composite v \<Longrightarrow> pretty_canon v = canon v"
  by (cases v) (auto simp: composite_def)

lemma pretty_canon_tag: "jsonable b v \<Longrightarrow> type_tag (pretty_canon v) \<noteq> 61"
  by (cases v) auto

definition good_text :: "build \<Rightarrow> json_env \<Rightarrow> byte list \<Rightarrow> object \<Rightarrow> bool" where
  "good_text b e t v \<longleftrightarrow> reads b e t (pretty_canon v) \<and> ascii t \<and> (composite v \<longrightarrow> closes b e t (pretty_canon v))"

definition good_member :: "build \<Rightarrow> json_env \<Rightarrow> byte list \<Rightarrow> byte list \<times> object \<Rightarrow> bool" where
  "good_member b e t a \<longleftrightarrow> reads_member b e t (fst a, pretty_canon (snd a)) \<and> ascii t"

lemma spaces_ascii [simp]: "ascii (spaces n)" "ascii newline"
  by (simp_all add: blank_ascii)

lemma visit_text:
  assumes "boost_ok e" "jsonable b v" "\<not> composite v"
  shows "\<exists>t nl'. writes b p h nl (traverse v d s parent) (t @ tail_text s) nl' \<and> good_text b e t v"
proof -
  let ?i = "lead (spaces d) [] nl"
  have t: "traverse v d s parent = [Visit v (type_tag v) d s]"
    using assms(3) by (cases v) (auto simp: composite_def)
  have b: "blank ?i" by (simp add: lead_def)
  have "writes b p h nl [Visit v (type_tag v) d s] ((?i @ json_text b v @ tail_text s) @ []) (s \<noteq> LAST)"
    by (rule writes_Cons [OF _ _ writes_Nil])
      (use assms(2) in \<open>auto simp: json_event_def Let_def tail_text_def serialize_json_text newline_def\<close>)
  moreover have "good_text b e (?i @ json_text b v) v"
    using reads_pad [OF reads_scalar [OF assms] b, of "[]"] assms blank_ascii [OF b]
    by (simp add: good_text_def pretty_canon_leaf ascii_json_text)
  ultimately show ?thesis unfolding t by (intro exI [of _ "?i @ json_text b v"] exI [of _ "s \<noteq> LAST"]) simp
qed

lemma json_marks [simp]: "str ''[ '' = [91, 32]"
  by (simp add: str_def byte_of_char_def)

text \<open>The frame of a container.\<close>

definition frame_end :: "walker_state \<Rightarrow> u16 \<Rightarrow> byte list" where
  "frame_end s parent = (if s = LAST \<and> parent \<notin> {45, 46, 47} then newline else [])"

lemma frame_end_blank [simp]: "blank (frame_end s parent)"
  by (simp add: frame_end_def)

lemma frame_text:
  assumes "t = 46 \<and> l = [91, 32] \<and> r = [93] \<or> t = 50 \<and> l = [123] \<and> r = [125]"
    and "writes b p h (n > 1) evs txt nl1"
  shows "\<exists>nl'. writes b p h nl (Open t d n # evs @ [Close t d s parent])
    ((lead (spaces d) [] nl @ l @ (if n > 1 then newline else []) @ txt @ lead (spaces d) [] nl1 @ r @ frame_end s parent) @ tail_text s) nl'"
proof -
  let ?o = "lead (spaces d) [] nl @ l @ (if n > 1 then newline else [])"
  let ?c = "lead (spaces d) [] nl1 @ r @ frame_end s parent @ tail_text s"
  let ?nl' = "s \<noteq> LAST \<or> parent \<notin> {45, 46, 47}"
  have o: "json_event b p h nl (Open t d n) = (w_text ?o, n > 1)"
    using assms(1) by (auto simp: json_event_def Let_def)
  have "json_event b p h nl1 (Close t d s parent) = (w_text ?c, ?nl')"
    using assms(1) by (auto simp: json_event_def Let_def frame_end_def tail_text_def newline_def)
  then have c: "writes b p h nl1 [Close t d s parent] (?c @ []) ?nl'"
    by (rule writes_Cons [OF _ _ writes_Nil]) simp
  have "writes b p h nl (Open t d n # evs @ [Close t d s parent]) (?o @ txt @ ?c @ []) ?nl'"
    by (rule writes_Cons [OF o _ writes_append [OF assms(2) c]]) simp
  then show ?thesis by (intro exI [of _ ?nl']) (simp add: newline_def)
qed

lemma ascii_all: "list_all2 (\<lambda>t x. ascii t \<and> R t x) ts xs \<Longrightarrow> ascii sep \<Longrightarrow> ascii (joined sep ts)"
  by (rule ascii_joined) (auto simp: list_all2_conv_all_nth in_set_conv_nth)

lemma vector_text:
  assumes "\<And>x nl s d parent. x \<in> set vs \<Longrightarrow> \<exists>t nl'. writes b p h nl (traverse x d s parent) (t @ tail_text s) nl' \<and> good_text b e t x"
    and "list_all (jsonable b) vs"
  shows "\<exists>t nl'. writes b p h nl (traverse (OVector vs) d s parent) (t @ tail_text s) nl' \<and> good_text b e t (OVector vs)"
proof -
  from assms(1) have "\<exists>ts nl'. list_all2 (good_text b e) ts vs \<and>
      writes b p h (length vs > 1) (walk_children (map (\<lambda>x s. traverse x (d + 1) s 46) vs)) (joined [44, 32, 10] ts) nl'"
    by (intro children_text)
  then obtain ts nl1 where ts: "list_all2 (good_text b e) ts vs"
    and c: "writes b p h (length vs > 1) (walk_children (map (\<lambda>x s. traverse x (d + 1) s 46) vs)) (joined [44, 32, 10] ts) nl1"
    by blast
  let ?i = "lead (spaces d) [] nl" and ?n = "if length vs > 1 then newline else []" and ?j = "lead (spaces d) [] nl1"
  let ?t = "?i @ [91, 32] @ ?n @ joined [44, 32, 10] ts @ ?j @ [93] @ frame_end s parent"
  obtain nl' where w: "writes b p h nl (traverse (OVector vs) d s parent) (?t @ tail_text s) nl'"
    using frame_text [OF _ c, of 46 "[91, 32]" "[93]" nl d s parent] by auto
  have b: "blank ?i" "blank (32 # ?n)" "blank ?j" by (simp_all add: lead_def)
  have r: "list_all2 (reads b e) ts (map pretty_canon vs)"
    using ts by (auto simp: good_text_def list_all2_map2 elim: list_all2_mono)
  have "closes b e (?i @ ([91] @ (32 # ?n) @ joined (44 # [32, 10]) ts @ ?j @ [93]) @ frame_end s parent)
      (OVector (map pretty_canon vs))"
    by (intro closes_pad closes_array r b)
      (use assms(2) in \<open>auto simp: list_all_iff pretty_canon_tag\<close>)
  then have k: "closes b e ?t (pretty_canon (OVector vs))" by simp
  have "ascii (joined [44, 32, 10] ts)"
    by (rule ascii_all [where R = "\<lambda>t v. True" and xs = vs]) (use ts in \<open>auto simp: good_text_def elim: list_all2_mono\<close>)
  then have "ascii ?t" using b by (simp add: blank_ascii)
  with k w show ?thesis unfolding good_text_def using closes_reads by blast
qed

lemma pair_text:
  assumes "writes b p h False evs txt nl'"
  shows "writes b p h nl (Open 51 d 1 # Pair_Name k d # evs @ [Close 51 d s 50])
    (lead (spaces d) [32] nl @ quoted k @ [58, 32] @ txt) nl'"
proof -
  have o: "json_event b p h nl (Open 51 d 1) = (w_text [], nl)"
    and k: "json_event b p h nl (Pair_Name k d) = (w_text (lead (spaces d) [32] nl @ quoted k @ [58, 32]), False)"
    and c: "json_event b p h nl' (Close 51 d s 50) = (w_text [], nl')"
    by (simp_all add: json_event_def Let_def)
  have "writes b p h nl' [Close 51 d s 50] ([] @ []) nl'"
    by (rule writes_Cons [OF c _ writes_Nil]) simp
  from writes_append [OF assms this] have "writes b p h False (evs @ [Close 51 d s 50]) txt nl'" by simp
  from writes_Cons [OF k _ this]
  have "writes b p h nl (Pair_Name k d # evs @ [Close 51 d s 50]) ((lead (spaces d) [32] nl @ quoted k @ [58, 32]) @ txt) nl'"
    by simp
  from writes_Cons [OF o _ this, of "[]"] show ?thesis by simp
qed

lemma good_member_text:
  assumes "reads b e t (pretty_canon (snd a))" "ascii t" "plain_key (fst a)" "blank w"
  shows "good_member b e (w @ quoted (fst a) @ [58, 32] @ t) a"
proof -
  have "reads b e (32 # t) (pretty_canon (snd a))"
    using reads_pad [OF assms(1), of "[32]" "[]"] by simp
  with assms(3,4) have "reads_member b e (w @ quoted (fst a) @ [58, 32] @ t) (fst a, pretty_canon (snd a))"
    unfolding reads_member_def by (intro exI [of _ w] exI [of _ "32 # t"]) simp
  moreover have "ascii (quoted (fst a))"
    using assms(3) by (auto simp: plain_key_def quoted_def ascii_def list_all_iff)
  ultimately show ?thesis using assms(2,4) by (simp add: good_member_def blank_ascii)
qed

lemma member_text_of:
  assumes "\<And>nl s d parent. \<exists>t nl'. writes b p h nl (traverse (snd a) d s parent) (t @ tail_text s) nl' \<and> good_text b e t (snd a)"
    and "boost_ok e" "jsonable b (snd a)" "plain_key (fst a)"
  shows "\<exists>t nl'. writes b p h nl (walk_pair (Simple_Param (fst a) (snd a) d s) (Pair_Name (fst a) d) 51 (snd a)
       (traverse (snd a) d s 51) d s 50) (t @ tail_text s) nl' \<and> good_member b e t a"
proof (cases "is_container (type_tag (snd a))")
  case True
  obtain t nl' where t: "writes b p h False (traverse (snd a) d s 51) (t @ tail_text s) nl'" "good_text b e t (snd a)"
    using assms(1) by blast
  have "good_member b e (lead (spaces d) [32] nl @ quoted (fst a) @ [58, 32] @ t) a"
    using t(2) assms(4) by (intro good_member_text) (simp_all add: good_text_def lead_def)
  moreover from pair_text [OF t(1), of nl d "fst a" s] True
  have "writes b p h nl (walk_pair (Simple_Param (fst a) (snd a) d s) (Pair_Name (fst a) d) 51 (snd a)
       (traverse (snd a) d s 51) d s 50) ((lead (spaces d) [32] nl @ quoted (fst a) @ [58, 32] @ t) @ tail_text s) nl'"
    by (simp add: walk_pair_def)
  ultimately show ?thesis by blast
next
  case False
  let ?w = "lead (spaces d) [32] nl" and ?fin = "if s = LAST then newline else []"
  let ?t = "?w @ quoted (fst a) @ [58, 32] @ json_text b (snd a) @ ?fin"
  have c: "\<not> composite (snd a)" using False by (auto simp: composite_def is_container_def)
  have "writes b p h nl [Simple_Param (fst a) (snd a) d s] ((?t @ tail_text s) @ []) True"
    by (rule writes_Cons [OF _ _ writes_Nil])
      (use assms(3) in \<open>auto simp: json_event_def Let_def tail_text_def serialize_json_text newline_def\<close>)
  moreover have "good_member b e ?t a"
    using reads_pad [OF reads_scalar [OF assms(2,3) c], of "[]" ?fin] assms(3,4) c
    by (intro good_member_text) (simp_all add: pretty_canon_leaf ascii_json_text lead_def)
  ultimately show ?thesis using False unfolding walk_pair_def by (intro exI [of _ ?t] exI [of _ True]) simp
qed

lemma map_text:
  assumes "\<And>a nl s d parent. a \<in> set m \<Longrightarrow>
      \<exists>t nl'. writes b p h nl (traverse (snd a) d s parent) (t @ tail_text s) nl' \<and> good_text b e t (snd a)"
    and "boost_ok e" "jsonable b (OParamMap m)"
  shows "\<exists>t nl'. writes b p h nl (traverse (OParamMap m) d s parent) (t @ tail_text s) nl' \<and> good_text b e t (OParamMap m)"
proof -
  let ?w = "\<lambda>a s. walk_pair (Simple_Param (fst a) (snd a) (d + 1) s) (Pair_Name (fst a) (d + 1)) 51 (snd a)
       (traverse (snd a) (d + 1) s 51) (d + 1) s 50"
  let ?c = "\<lambda>a. (fst a, pretty_canon (snd a))"
  have "\<exists>ts nl'. list_all2 (good_member b e) ts m \<and>
      writes b p h (length m > 1) (walk_children (map ?w m)) (joined [44, 32, 10] ts) nl'"
    by (rule children_text, rule member_text_of) (use assms in \<open>auto simp: list_all_iff\<close>)
  then obtain ts nl1 where ts: "list_all2 (good_member b e) ts m"
    and c: "writes b p h (length m > 1) (walk_children (map ?w m)) (joined [44, 32, 10] ts) nl1" by blast
  let ?i = "lead (spaces d) [] nl" and ?n = "if length m > 1 then newline else []" and ?j = "lead (spaces d) [] nl1"
  let ?t = "?i @ [123] @ ?n @ joined [44, 32, 10] ts @ ?j @ [125] @ frame_end s parent"
  obtain nl' where w: "writes b p h nl (traverse (OParamMap m) d s parent) (?t @ tail_text s) nl'"
    using frame_text [OF _ c, of 50 "[123]" "[125]" nl d s parent] by auto
  have b: "blank ?i" "blank ?n" "blank ?j" by (simp_all add: lead_def)
  have r: "list_all2 (reads_member b e) ts (map ?c m)"
    using ts by (auto simp: good_member_def list_all2_map2 elim: list_all2_mono)
  have "sorted_keys (map ?c m)" using assms(3) by (simp add: sorted_keys_def comp_def)
  then have "closes b e (?i @ ([123] @ ?n @ joined (44 # [32, 10]) ts @ ?j @ [125]) @ frame_end s parent) (OParamMap (map ?c m))"
    by (intro closes_pad closes_object r b assms(2)) simp_all
  then have k: "closes b e ?t (pretty_canon (OParamMap m))" by simp
  have "ascii (joined [44, 32, 10] ts)"
    by (rule ascii_all [where R = "\<lambda>t v. True" and xs = m]) (use ts in \<open>auto simp: good_member_def elim: list_all2_mono\<close>)
  then have "ascii ?t" using b by (simp add: blank_ascii)
  with k w show ?thesis unfolding good_text_def using closes_reads by blast
qed

lemma traverse_text:
  "boost_ok e \<Longrightarrow> jsonable b v \<Longrightarrow>
   \<exists>t nl'. writes b p h nl (traverse v d s parent) (t @ tail_text s) nl' \<and> good_text b e t v"
proof (induction v arbitrary: nl d s parent rule: pretty_canon.induct)
  case (1 vs)
  show ?case by (rule vector_text) (use 1 in \<open>auto simp: list_all_iff\<close>)
next
  case (2 m)
  show ?case by (rule map_text) (use 2 in \<open>auto simp: list_all_iff\<close>)
qed (rule visit_text; simp add: composite_def)+

text \<open>C19. The indented JSON of the same values (\<open>jsonable\<close>) is read back as well, with integers as 64-bit signed ones,
  and better than the compact one: empty vectors and maps, at any depth and outermost, stay what they are.  The values
  are vectors and parameter maps over null, booleans, non-zero integers below \<open>2 ^ 63\<close> (no floating point numbers),
  strings that the UTF-8 decoder reads as code points whose encoding they are (none from U+0400 to U+07FF) below U+10000, no
  surrogates, and neither bell, vertical tab nor single quote, and keys of ASCII characters without quotes and
  backslashes.  \<^verbatim>\<open>lexical_cast\<close> is assumed to read decimal numbers, and the conversion of code points to bytes to be
  UTF-8 (\<open>boost_ok\<close>).\<close>

theorem json_pretty_roundtrip:
  assumes "boost_ok e" "jsonable b v" "v = OVector vs \<or> v = OParamMap m"
  shows "\<exists>text. to_json_pretty b p h v = Inr text \<and> parse_file b e (Some text) = Inr (pretty_canon v)"
proof -
  obtain t nl' where w: "writes b p h True (traverse_all v) (t @ tail_text LAST) nl'" and g: "good_text b e t v"
    using traverse_text [OF assms(1,2)] unfolding traverse_all_def by blast
  have printed: "to_json_pretty b p h v = Inr t"
    using w by (simp add: to_json_pretty_def writes_def tail_text_def)
  have "composite v" using assms(3) by auto
  with g have "closes b e t (pretty_canon v)" "ascii t" by (simp_all add: good_text_def)
  then have "steps b e (lexer parser_init, stack parser_init) (map ucast t) [pretty_canon v]
      (T0, \<lparr>states = [], operands = []\<rparr>)"
    unfolding closes_def by (auto simp: parser_init_def finish_def dest: spec [of _ "\<lparr>states = [], operands = []\<rparr>"])
  from json_read_ascii [OF \<open>ascii t\<close> _ this]
  obtain s where "json_read b e parser_init t = ([pretty_canon v], Inr s)"
    by (auto simp: parser_init_def u8_to_u32_init_def)
  then show ?thesis using printed by (simp add: parse_file_def)
qed

theorem json_pretty_roundtrip_witness:
  "\<exists>t. to_json_pretty Release example_printers Little (OVector [OVector [], OI8 5, OParamMap []]) = Inr t \<and>
     parse_file Release example_env (Some t) = Inr (OVector [OVector [], OI64 5, OParamMap []])"
  using json_pretty_roundtrip [OF boost_ok_example, of Release "OVector [OVector [], OI8 5, OParamMap []]"
      "[OVector [], OI8 5, OParamMap []]" "[]" example_printers Little]
  by simp

end
