(* ===== verification/Task.thy ===== *)
theory Task
  imports Maps Object "HOL-Library.Sublist"
begin

text \<open>
  The task system: channels, the registry and the stash (\<^verbatim>\<open>src/task/src/channel.cpp\<close>, \<^verbatim>\<open>registry.cpp\<close>, \<^verbatim>\<open>stash.cpp\<close>,
  \<^verbatim>\<open>include/cyng/task/task.hpp\<close>, \<^verbatim>\<open>controller.h\<close>).

  Everything asynchronous goes through strands of Boost.Asio: a strand is a queue of jobs that are run one
  after the other, in the order they were posted.  Each channel, the registry and the stash have one.
  The order in which the strands get a turn is up to the scheduler, so a run is any sequence of commands:
  calls of the user and turns of a strand.  A channel object is named by the id its task got when it was
  created.  It is destroyed by a command of its own, which is possible once nobody holds it.

  The functions of a task are the user's: a call is an event, its result is given by the parameter
  \<open>reply\<close>.
\<close>

section \<open>Names of slots\<close>

definition npos :: nat where
  "npos = 2 ^ 64 - 1"

text \<open>\<^verbatim>\<open>set_channel_names\<close> counts on from the number of names, also over names that are there already.\<close>

type_synonym slot_names = "(byte list \<times> nat) list"

definition set_channel_name :: "byte list \<Rightarrow> nat \<Rightarrow> slot_names \<Rightarrow> slot_names" where
  "set_channel_name name slot ns = map_emplace name slot ns"

definition set_channel_names :: "byte list list \<Rightarrow> slot_names \<Rightarrow> slot_names" where
  "set_channel_names ss ns =
     fst (foldl (\<lambda>(ns, i) name. (set_channel_name name i ns, i + 1)) (ns, length ns) ss)"

definition lookup_slot :: "byte list \<Rightarrow> slot_names \<Rightarrow> nat" where
  "lookup_slot name ns = (case map_find name ns of Some slot \<Rightarrow> slot | None \<Rightarrow> npos)"

section \<open>Channels\<close>

type_synonym msg = "object list"

text \<open>A task: its id, the number of its functions and the index of its stop function.\<close>

record task =
  task_id :: nat
  signature_count :: nat
  stop_idx :: nat

text \<open>
  The jobs of a channel.  The consumer of \<open>Next_Job\<close> is a channel and a slot, or nothing: \<^verbatim>\<open>next\<close> with
  numbered slots captures its parameters by reference, and they are gone when the job runs.
\<close>

datatype job =
    Deliver nat msg
  | Deliver_R nat msg nat
  | Next_Job nat msg "(nat \<times> byte list) option"
  | Stop_Job task

record channel =
  chan_name :: "byte list"
  chan_slots :: slot_names
  chan_task :: "task option"
  chan_jobs :: "job list"
  chan_timer :: "(nat \<times> msg) option"

definition is_open :: "channel \<Rightarrow> bool" where
  "is_open ch \<longleftrightarrow> chan_task ch \<noteq> None"

definition get_id :: "channel \<Rightarrow> nat" where
  "get_id ch = (case chan_task ch of Some t \<Rightarrow> task_id t | None \<Rightarrow> 0)"

text \<open>The assertion of \<^verbatim>\<open>is_open(slot)\<close> reads the task before it is known that there is one.\<close>

definition is_open_slot :: "build \<Rightarrow> channel \<Rightarrow> nat \<Rightarrow> bool result" where
  "is_open_slot b ch slot =
     (case chan_task ch of
        None \<Rightarrow> (if b = Debug then Inl Undefined else Inr False)
      | Some t \<Rightarrow> rbind (boost_assert b (slot < signature_count t)) (\<lambda>_. Inr (slot < signature_count t)))"

definition post :: "job \<Rightarrow> channel \<Rightarrow> channel" where
  "post j ch = ch\<lparr>chan_jobs := chan_jobs ch @ [j]\<rparr>"

text \<open>\<^verbatim>\<open>dispatch\<close>, \<^verbatim>\<open>dispatch_r\<close> and \<^verbatim>\<open>next\<close> have the same guard; the flag tells whether a job was posted.\<close>

definition submit :: "build \<Rightarrow> nat \<Rightarrow> job \<Rightarrow> channel \<Rightarrow> (channel \<times> bool) result" where
  "submit b slot j ch =
     rbind (is_open_slot b ch slot) (\<lambda>ok.
     if ok then rbind (boost_assert b (slot \<noteq> npos)) (\<lambda>_. Inr (post j ch, True))
     else Inr (ch, False))"

text \<open>\<^verbatim>\<open>stop\<close>: the task leaves the channel at once and is stopped when its job runs.\<close>

definition stop_channel :: "channel \<Rightarrow> channel \<times> bool" where
  "stop_channel ch =
     (case chan_task ch of
        None \<Rightarrow> (ch, False)
      | Some t \<Rightarrow> (post (Stop_Job t) (ch\<lparr>chan_task := None, chan_timer := None\<rparr>), True))"

text \<open>A timer: a new time replaces the old one, whose handler finds itself aborted.\<close>

definition suspend :: "build \<Rightarrow> nat \<Rightarrow> msg \<Rightarrow> channel \<Rightarrow> (channel \<times> bool) result" where
  "suspend b slot m ch =
     rbind (is_open_slot b ch slot) (\<lambda>ok.
     if ok then Inr (ch\<lparr>chan_timer := Some (slot, m)\<rparr>, True) else Inr (ch, False))"

definition cancel_timer :: "channel \<Rightarrow> channel \<times> bool" where
  "cancel_timer ch = (ch\<lparr>chan_timer := None\<rparr>, chan_timer ch \<noteq> None)"

section \<open>The whole system\<close>

datatype registry_job =
    Insert nat
  | Remove nat
  | Dispatch_Ids "nat list" "byte list" msg
  | Dispatch_To "byte list" "byte list" msg
  | Dispatch_Exclude nat "byte list" "byte list" msg
  | Stop_Named "byte list"

datatype stash_job =
    Lock nat
  | Unlock nat
  | Unlock_Named "byte list"
  | Stash_Stop_Named "byte list"

record system =
  chans :: "nat \<Rightarrow> channel option"
  last_id :: nat
  held :: "nat list"
  reg_list :: "(nat \<times> nat) list"
  reg_jobs :: "registry_job list"
  reg_down :: bool
  stash_list :: "(nat \<times> nat) list"
  stash_jobs :: "stash_job list"
  stash_down :: bool

definition system_init :: system where
  "system_init = \<lparr>chans = (\<lambda>_. None), last_id = 0, held = [], reg_list = [], reg_jobs = [], reg_down = False,
     stash_list = [], stash_jobs = [], stash_down = False\<rparr>"

datatype event =
    Accepted nat nat msg
  | Called nat nat msg
  | Answer nat nat msg
  | Stopped nat
  | Stop_Called nat nat

type_synonym effect = "event list \<times> system result"

definition set_chan :: "nat \<Rightarrow> channel \<Rightarrow> system \<Rightarrow> system" where
  "set_chan r ch s = s\<lparr>chans := (chans s)(r \<mapsto> ch)\<rparr>"

definition chan :: "system \<Rightarrow> nat \<Rightarrow> channel result" where
  "chan s r = (case chans s r of Some ch \<Rightarrow> Inr ch | None \<Rightarrow> Inl Undefined)"

definition on_chan :: "nat \<Rightarrow> (channel \<Rightarrow> (channel \<times> bool) result) \<Rightarrow> event list \<Rightarrow> system \<Rightarrow> effect" where
  "on_chan r f es s =
     (case rbind (chan s r) f of
        Inl e \<Rightarrow> ([], Inl e)
      | Inr (ch, done) \<Rightarrow> (if done then es else [], Inr (set_chan r ch s)))"

definition dispatch :: "build \<Rightarrow> nat \<Rightarrow> nat \<Rightarrow> msg \<Rightarrow> system \<Rightarrow> effect" where
  "dispatch b r slot m = on_chan r (submit b slot (Deliver slot m)) [Accepted r slot m]"

definition dispatch_named :: "build \<Rightarrow> nat \<Rightarrow> byte list \<Rightarrow> msg \<Rightarrow> system \<Rightarrow> effect" where
  "dispatch_named b r name m s =
     (case chan s r of Inl e \<Rightarrow> ([], Inl e) | Inr ch \<Rightarrow> dispatch b r (lookup_slot name (chan_slots ch)) m s)"

definition dispatch_r :: "build \<Rightarrow> nat \<Rightarrow> nat \<Rightarrow> msg \<Rightarrow> nat \<Rightarrow> system \<Rightarrow> effect" where
  "dispatch_r b r slot m cb = on_chan r (submit b slot (Deliver_R slot m cb)) [Accepted r slot m]"

definition next_numbered :: "build \<Rightarrow> nat \<Rightarrow> nat \<Rightarrow> nat \<Rightarrow> msg \<Rightarrow> system \<Rightarrow> effect" where
  "next_numbered b r producer consumer m = on_chan r (submit b producer (Next_Job producer m None)) [Accepted r producer m]"

definition next_named :: "build \<Rightarrow> nat \<Rightarrow> byte list \<Rightarrow> byte list \<Rightarrow> msg \<Rightarrow> system \<Rightarrow> effect" where
  "next_named b r producer consumer m s =
     (case chan s r of
        Inl e \<Rightarrow> ([], Inl e)
      | Inr ch \<Rightarrow> let slot = lookup_slot producer (chan_slots ch) in
          on_chan r (submit b slot (Next_Job slot m (Some (r, consumer)))) [Accepted r slot m] s)"

definition stop :: "nat \<Rightarrow> system \<Rightarrow> effect" where
  "stop r = on_chan r (\<lambda>ch. Inr (stop_channel ch)) [Stopped r]"

text \<open>The handler of a timer that has expired is a job like the others.\<close>

definition fire :: "nat \<Rightarrow> system \<Rightarrow> effect" where
  "fire r s =
     (case chan s r of
        Inl e \<Rightarrow> ([], Inl e)
      | Inr ch \<Rightarrow> (case chan_timer ch of
          None \<Rightarrow> ([], Inr s)
        | Some (slot, m) \<Rightarrow> ([Accepted r slot m], Inr (set_chan r (post (Deliver slot m) (ch\<lparr>chan_timer := None\<rparr>)) s))))"

text \<open>\<^verbatim>\<open>task::dispatch\<close>: the function with the index of the slot; out of range an empty tuple.\<close>

definition call :: "build \<Rightarrow> (nat \<Rightarrow> nat \<Rightarrow> msg \<Rightarrow> msg) \<Rightarrow> nat \<Rightarrow> task \<Rightarrow> nat \<Rightarrow> msg \<Rightarrow> event list \<times> msg result" where
  "call b reply r t slot m =
     (case boost_assert b (slot < signature_count t) of
        Inl e \<Rightarrow> ([], Inl e)
      | Inr _ \<Rightarrow> if slot < signature_count t then ([Called r slot m], Inr (reply r slot m)) else ([], Inr []))"

text \<open>A job that calls a function of the task: it is skipped when the channel was closed in the meantime.\<close>

definition guarded :: "build \<Rightarrow> (nat \<Rightarrow> nat \<Rightarrow> msg \<Rightarrow> msg) \<Rightarrow> nat \<Rightarrow> channel \<Rightarrow> nat \<Rightarrow> msg \<Rightarrow> (msg \<Rightarrow> system \<Rightarrow> effect) \<Rightarrow> system \<Rightarrow> effect" where
  "guarded b reply r ch slot m k s =
     (case is_open_slot b ch slot of
        Inl e \<Rightarrow> ([], Inl e)
      | Inr ok \<Rightarrow> (case chan_task ch of
          Some t \<Rightarrow> if ok then after (call b reply r t slot m) (\<lambda>res. k res s) else ([], Inr s)
        | None \<Rightarrow> ([], Inr s)))"

text \<open>A turn of a channel's strand.\<close>

definition run_channel :: "build \<Rightarrow> (nat \<Rightarrow> nat \<Rightarrow> msg \<Rightarrow> msg) \<Rightarrow> nat \<Rightarrow> system \<Rightarrow> effect" where
  "run_channel b reply r s =
     (case chan s r of
        Inl e \<Rightarrow> ([], Inl e)
      | Inr ch \<Rightarrow> (case chan_jobs ch of
          [] \<Rightarrow> ([], Inr s)
        | j # js \<Rightarrow>
            let s' = set_chan r (ch\<lparr>chan_jobs := js\<rparr>) s in
            (case j of
               Deliver slot m \<Rightarrow> guarded b reply r ch slot m (\<lambda>_ s. ([], Inr s)) s'
             | Deliver_R slot m cb \<Rightarrow> guarded b reply r ch slot m (\<lambda>res s. ([Answer r cb res], Inr s)) s'
             | Next_Job slot m target \<Rightarrow> guarded b reply r ch slot m (\<lambda>res s.
                 (case target of
                    None \<Rightarrow> ([], Inl Undefined)
                  | Some (c, name) \<Rightarrow> dispatch_named b c name res s)) s'
             | Stop_Job t \<Rightarrow> ([Stop_Called r (stop_idx t)], Inr s'))))"

text \<open>One effect after the other, over a list of channels or ids.\<close>

fun each :: "(nat \<Rightarrow> system \<Rightarrow> effect) \<Rightarrow> system \<Rightarrow> nat list \<Rightarrow> effect" where
  "each f s [] = ([], Inr s)"
| "each f s (r # rs) = after (f r s) (\<lambda>s'. each f s' rs)"

interpretation each: feeder "\<lambda>s r. f r s" "each f" for f
  by unfold_locales simp_all

section \<open>The registry\<close>

text \<open>The registry holds weak pointers: a channel is found as long as it exists.\<close>

definition lookup_named :: "byte list \<Rightarrow> system \<Rightarrow> nat list" where
  "lookup_named name s =
     map snd (filter (\<lambda>(tid, r). case chans s r of Some ch \<Rightarrow> chan_name ch = name | None \<Rightarrow> False) (reg_list s))"

definition dispatch_id :: "build \<Rightarrow> byte list \<Rightarrow> msg \<Rightarrow> nat \<Rightarrow> system \<Rightarrow> effect" where
  "dispatch_id b slot m tid s =
     (case map_find tid (reg_list s) of
        None \<Rightarrow> ([], Inr s)
      | Some r \<Rightarrow> if chans s r = None then ([], Inr s) else dispatch_named b r slot m s)"

definition dispatch_other :: "build \<Rightarrow> nat \<Rightarrow> byte list \<Rightarrow> msg \<Rightarrow> nat \<Rightarrow> system \<Rightarrow> effect" where
  "dispatch_other b tid slot m r s =
     (case chan s r of
        Inl e \<Rightarrow> ([], Inl e)
      | Inr ch \<Rightarrow> if get_id ch \<noteq> tid then dispatch_named b r slot m s else ([], Inr s))"

definition registry_insert :: "build \<Rightarrow> nat \<Rightarrow> system \<Rightarrow> effect" where
  "registry_insert b r s =
     ([], rbind (chan s r) (\<lambda>ch. rbind (boost_assert b (get_id ch \<noteq> 0)) (\<lambda>_.
          Inr (s\<lparr>reg_list := map_emplace (get_id ch) r (reg_list s)\<rparr>))))"

definition run_registry :: "build \<Rightarrow> system \<Rightarrow> effect" where
  "run_registry b s =
     (case reg_jobs s of
        [] \<Rightarrow> ([], Inr s)
      | j # js \<Rightarrow>
          let s' = s\<lparr>reg_jobs := js\<rparr> in
          (case j of
             Insert r \<Rightarrow> registry_insert b r s'
           | Remove tid \<Rightarrow> ([], Inr (s'\<lparr>reg_list := map_erase tid (reg_list s')\<rparr>))
           | Dispatch_Ids ids slot m \<Rightarrow> each (dispatch_id b slot m) s' ids
           | Dispatch_To name slot m \<Rightarrow> each (\<lambda>r. dispatch_named b r slot m) s' (lookup_named name s')
           | Dispatch_Exclude tid name slot m \<Rightarrow> each (dispatch_other b tid slot m) s' (lookup_named name s')
           | Stop_Named name \<Rightarrow> each stop s' (lookup_named name s')))"

text \<open>
  Requests to the registry.  The lookups by name, which stop tasks and leave one channel out, do not look
  at the flag that the registry is down.
\<close>

definition registry_post :: "registry_job \<Rightarrow> system \<Rightarrow> system" where
  "registry_post j s =
     (if reg_down s \<and> (case j of Dispatch_Exclude tid name slot m \<Rightarrow> False | Stop_Named name \<Rightarrow> False | _ \<Rightarrow> True)
      then s else s\<lparr>reg_jobs := reg_jobs s @ [j]\<rparr>)"

definition stop_if_alive :: "nat \<Rightarrow> system \<Rightarrow> effect" where
  "stop_if_alive r s = (if chans s r = None then ([], Inr s) else stop r s)"

definition registry_shutdown :: "system \<Rightarrow> effect" where
  "registry_shutdown s =
     (if reg_down s then ([], Inr s)
      else after (each stop_if_alive (s\<lparr>reg_down := True\<rparr>) (rev (map snd (reg_list s))))
             (\<lambda>s'. ([], Inr (s'\<lparr>reg_list := []\<rparr>))))"

definition registry_reset :: "build \<Rightarrow> system \<Rightarrow> effect" where
  "registry_reset b s = ([], rbind (boost_assert b (reg_list s = [])) (\<lambda>_. Inr (s\<lparr>reg_down := False\<rparr>)))"

section \<open>The stash\<close>

text \<open>The stash holds channels, so that they are not destroyed.\<close>

definition named_in_stash :: "byte list \<Rightarrow> system \<Rightarrow> nat \<times> nat \<Rightarrow> bool" where
  "named_in_stash name s p = (case chans s (snd p) of Some ch \<Rightarrow> chan_name ch = name | None \<Rightarrow> False)"

definition stash_post :: "stash_job \<Rightarrow> system \<Rightarrow> system" where
  "stash_post j s =
     (if stash_down s \<or> (case j of Lock r \<Rightarrow> False | Unlock tid \<Rightarrow> tid = 0 | Unlock_Named name \<Rightarrow> name = []
                        | Stash_Stop_Named name \<Rightarrow> name = [])
      then s else s\<lparr>stash_jobs := stash_jobs s @ [j]\<rparr>)"

definition run_stash :: "system \<Rightarrow> effect" where
  "run_stash s =
     (case stash_jobs s of
        [] \<Rightarrow> ([], Inr s)
      | j # js \<Rightarrow>
          let s' = s\<lparr>stash_jobs := js\<rparr>; keep = (\<lambda>name. filter (\<lambda>p. \<not> named_in_stash name s p) (stash_list s)) in
          if stash_down s then ([], Inr s')
          else (case j of
             Lock r \<Rightarrow> ([], rbind (chan s r) (\<lambda>ch. Inr (s'\<lparr>stash_list := map_emplace (get_id ch) r (stash_list s)\<rparr>)))
           | Unlock tid \<Rightarrow> ([], Inr (s'\<lparr>stash_list := map_erase tid (stash_list s)\<rparr>))
           | Unlock_Named name \<Rightarrow> ([], Inr (s'\<lparr>stash_list := keep name\<rparr>))
           | Stash_Stop_Named name \<Rightarrow>
               each stop (s'\<lparr>stash_list := keep name\<rparr>) (map snd (filter (named_in_stash name s) (stash_list s)))))"

definition stash_stop :: "system \<Rightarrow> effect" where
  "stash_stop s = (if stash_down s then ([], Inr s) else each stop s (rev (map snd (stash_list s))))"

definition stash_clear :: "system \<Rightarrow> system" where
  "stash_clear s = (if stash_down s then s else s\<lparr>stash_down := True, stash_list := []\<rparr>)"

definition stash_reset :: "system \<Rightarrow> system" where
  "stash_reset s = (stash_clear s)\<lparr>stash_down := False\<rparr>"

definition stash_size :: "system \<Rightarrow> nat" where
  "stash_size s = (if stash_down s then 0 else length (stash_list s))"

section \<open>Life of a channel\<close>

text \<open>\<^verbatim>\<open>create_named_channel\<close>: a new id, an open channel, and a request to the registry.\<close>

definition create :: "byte list \<Rightarrow> nat \<Rightarrow> nat \<Rightarrow> system \<Rightarrow> system" where
  "create name n stop_at s =
     (let tid = last_id s + 1;
          ch = \<lparr>chan_name = name, chan_slots = [], chan_task = Some \<lparr>task_id = tid, signature_count = n, stop_idx = stop_at\<rparr>,
                chan_jobs = [], chan_timer = None\<rparr> in
      registry_post (Insert tid) (set_chan tid ch (s\<lparr>last_id := tid, held := tid # held s\<rparr>)))"

definition owned :: "nat \<Rightarrow> system \<Rightarrow> bool" where
  "owned r s \<longleftrightarrow> r \<in> set (held s) \<or> r \<in> snd ` set (stash_list s) \<or> Insert r \<in> set (reg_jobs s) \<or> Lock r \<in> set (stash_jobs s) \<or>
     (case chans s r of Some ch \<Rightarrow> chan_jobs ch \<noteq> [] \<or> chan_timer ch \<noteq> None | None \<Rightarrow> False)"

text \<open>\<^verbatim>\<open>auto_remove\<close>: the deleter of a channel takes it from the registry.\<close>

definition destroy :: "build \<Rightarrow> nat \<Rightarrow> system \<Rightarrow> effect" where
  "destroy b r s =
     (case chans s r of
        None \<Rightarrow> ([], Inr s)
      | Some ch \<Rightarrow>
          if owned r s then ([], Inr s)
          else ([], rbind (boost_assert b (\<not> is_open ch)) (\<lambda>_.
                 let s' = registry_post (Remove r) s in Inr (s'\<lparr>chans := (chans s')(r := None)\<rparr>))))"

section \<open>Runs\<close>

datatype command =
    Create "byte list" nat nat
  | Name_Slots nat "byte list list"
  | Dispatch nat nat msg
  | Dispatch_Named nat "byte list" msg
  | Dispatch_R nat nat msg nat
  | Next_Numbered nat nat nat msg
  | Next_Named nat "byte list" "byte list" msg
  | Suspend nat nat msg
  | Cancel_Timer nat
  | Fire nat
  | Stop nat
  | Run_Channel nat
  | Registry_Post registry_job
  | Run_Registry
  | Registry_Shutdown
  | Registry_Reset
  | Stash_Post stash_job
  | Run_Stash
  | Stash_Stop
  | Stash_Clear
  | Stash_Reset
  | Release_Ref nat
  | Destroy nat

text \<open>The user cannot post the requests that \<^verbatim>\<open>create\<close> and the deleter make.\<close>

definition user_request :: "registry_job \<Rightarrow> bool" where
  "user_request j = (case j of Insert r \<Rightarrow> False | Remove tid \<Rightarrow> False | _ \<Rightarrow> True)"

fun exec :: "build \<Rightarrow> (nat \<Rightarrow> nat \<Rightarrow> msg \<Rightarrow> msg) \<Rightarrow> command \<Rightarrow> system \<Rightarrow> effect" where
  "exec b reply (Create name n stop_at) s = ([], Inr (create name n stop_at s))"
| "exec b reply (Name_Slots r ss) s =
     on_chan r (\<lambda>ch. Inr (ch\<lparr>chan_slots := set_channel_names ss (chan_slots ch)\<rparr>, True)) [] s"
| "exec b reply (Dispatch r slot m) s = dispatch b r slot m s"
| "exec b reply (Dispatch_Named r name m) s = dispatch_named b r name m s"
| "exec b reply (Dispatch_R r slot m cb) s = dispatch_r b r slot m cb s"
| "exec b reply (Next_Numbered r p c m) s = next_numbered b r p c m s"
| "exec b reply (Next_Named r p c m) s = next_named b r p c m s"
| "exec b reply (Suspend r slot m) s = on_chan r (suspend b slot m) [] s"
| "exec b reply (Cancel_Timer r) s = on_chan r (\<lambda>ch. Inr (cancel_timer ch)) [] s"
| "exec b reply (Fire r) s = fire r s"
| "exec b reply (Stop r) s = stop r s"
| "exec b reply (Run_Channel r) s = run_channel b reply r s"
| "exec b reply (Registry_Post j) s = ([], Inr (if user_request j then registry_post j s else s))"
| "exec b reply Run_Registry s = run_registry b s"
| "exec b reply Registry_Shutdown s = registry_shutdown s"
| "exec b reply Registry_Reset s = registry_reset b s"
| "exec b reply (Stash_Post j) s = ([], Inr (case j of Lock r \<Rightarrow> if chans s r = None then s else stash_post j s | _ \<Rightarrow> stash_post j s))"
| "exec b reply Run_Stash s = run_stash s"
| "exec b reply Stash_Stop s = stash_stop s"
| "exec b reply Stash_Clear s = ([], Inr (stash_clear s))"
| "exec b reply Stash_Reset s = ([], Inr (stash_reset s))"
| "exec b reply (Release_Ref r) s = ([], Inr (s\<lparr>held := removeAll r (held s)\<rparr>))"
| "exec b reply (Destroy r) s = destroy b r s"

inductive reaches :: "build \<Rightarrow> (nat \<Rightarrow> nat \<Rightarrow> msg \<Rightarrow> msg) \<Rightarrow> event list \<Rightarrow> system \<Rightarrow> bool" for b reply where
  start: "reaches b reply [] system_init"
| step: "reaches b reply es s \<Longrightarrow> exec b reply c s = (es', Inr s') \<Longrightarrow> reaches b reply (es @ es') s'"

section \<open>What happens to one channel\<close>

text \<open>Answers to the user are nothing that happens to a channel; there is no channel 0.\<close>

definition subject :: "event \<Rightarrow> nat" where
  "subject e = (case e of Accepted r slot m \<Rightarrow> r | Called r slot m \<Rightarrow> r | Answer r cb m \<Rightarrow> 0 | Stopped r \<Rightarrow> r | Stop_Called r i \<Rightarrow> r)"

definition about :: "nat \<Rightarrow> event list \<Rightarrow> event list" where
  "about r es = filter (\<lambda>e. subject e = r) es"

definition accepted :: "event list \<Rightarrow> (nat \<times> msg) list" where
  "accepted es = concat (map (\<lambda>e. case e of Accepted r slot m \<Rightarrow> [(slot, m)] | _ \<Rightarrow> []) es)"

definition called :: "event list \<Rightarrow> (nat \<times> msg) list" where
  "called es = concat (map (\<lambda>e. case e of Called r slot m \<Rightarrow> [(slot, m)] | _ \<Rightarrow> []) es)"

definition stops :: "event list \<Rightarrow> nat" where
  "stops es = length (filter (\<lambda>e. case e of Stopped r \<Rightarrow> True | _ \<Rightarrow> False) es)"

definition stop_calls :: "event list \<Rightarrow> nat" where
  "stop_calls es = length (filter (\<lambda>e. case e of Stop_Called r i \<Rightarrow> True | _ \<Rightarrow> False) es)"

text \<open>No call after the channel was stopped.\<close>

fun quiet :: "event list \<Rightarrow> bool" where
  "quiet [] \<longleftrightarrow> True"
| "quiet (e # es) \<longleftrightarrow> (case e of Stopped r \<Rightarrow> called es = [] | _ \<Rightarrow> True) \<and> quiet es"

lemma events_simps [simp]:
  "about r [] = []" "about r (es @ es') = about r es @ about r es'"
  "about r (e # es) = (if subject e = r then e # about r es else about r es)"
  "accepted [] = []" "accepted (es @ es') = accepted es @ accepted es'"
  "accepted (e # es) = (case e of Accepted r slot m \<Rightarrow> [(slot, m)] | _ \<Rightarrow> []) @ accepted es"
  "called [] = []" "called (es @ es') = called es @ called es'"
  "called (e # es) = (case e of Called r slot m \<Rightarrow> [(slot, m)] | _ \<Rightarrow> []) @ called es"
  "stops [] = 0" "stops (es @ es') = stops es + stops es'"
  "stops (e # es) = (case e of Stopped r \<Rightarrow> 1 | _ \<Rightarrow> 0) + stops es"
  "stop_calls [] = 0" "stop_calls (es @ es') = stop_calls es + stop_calls es'"
  "stop_calls (e # es) = (case e of Stop_Called r i \<Rightarrow> 1 | _ \<Rightarrow> 0) + stop_calls es"
  by (auto simp: about_def accepted_def called_def stops_def stop_calls_def split: event.split)

lemma subject_simps [simp]:
  "subject (Accepted r slot m) = r" "subject (Called r slot m) = r" "subject (Answer r cb m) = 0"
  "subject (Stopped r) = r" "subject (Stop_Called r i) = r"
  by (simp_all add: subject_def)

lemma quiet_append:
  "quiet (es @ es') \<longleftrightarrow> quiet es \<and> quiet es' \<and> (stops es > 0 \<longrightarrow> called es' = [])"
  by (induction es) (auto split: event.split)

lemma quiet_unstopped: "stops es = 0 \<Longrightarrow> quiet es"
  by (induction es) (auto split: event.splits)

definition job_msg :: "job \<Rightarrow> (nat \<times> msg) list" where
  "job_msg j = (case j of Deliver slot m \<Rightarrow> [(slot, m)] | Deliver_R slot m cb \<Rightarrow> [(slot, m)]
     | Next_Job slot m t \<Rightarrow> [(slot, m)] | Stop_Job t \<Rightarrow> [])"

definition pending :: "job list \<Rightarrow> (nat \<times> msg) list" where
  "pending js = concat (map job_msg js)"

definition stop_jobs :: "job list \<Rightarrow> nat" where
  "stop_jobs js = length (filter (\<lambda>j. case j of Stop_Job t \<Rightarrow> True | _ \<Rightarrow> False) js)"

lemma job_simps [simp]:
  "job_msg (Deliver slot m) = [(slot, m)]" "job_msg (Deliver_R slot m cb) = [(slot, m)]"
  "job_msg (Next_Job slot m target) = [(slot, m)]" "job_msg (Stop_Job t) = []"
  "pending [] = []" "pending (j # js) = job_msg j @ pending js" "pending (js @ js') = pending js @ pending js'"
  "stop_jobs [] = 0" "stop_jobs (js @ js') = stop_jobs js + stop_jobs js'"
  "stop_jobs (j # js) = (case j of Stop_Job t \<Rightarrow> 1 | _ \<Rightarrow> 0) + stop_jobs js"
  by (auto simp: job_msg_def pending_def stop_jobs_def split: job.split)

text \<open>
  An open channel has called what it accepted, in order, up to the messages in its queue.  A closed one was
  stopped once, its stop function is called or in the queue, and it calls nothing else.
\<close>

definition open_ok :: "nat \<Rightarrow> event list \<Rightarrow> channel \<Rightarrow> task \<Rightarrow> bool" where
  "open_ok r es ch t \<longleftrightarrow> task_id t = r \<and> accepted es = called es @ pending (chan_jobs ch) \<and> stop_jobs (chan_jobs ch) = 0 \<and>
     stops es = 0 \<and> stop_calls es = 0 \<and> (\<forall>(slot, m) \<in> set (pending (chan_jobs ch)). slot < signature_count t) \<and>
     (case chan_timer ch of Some (slot, m) \<Rightarrow> slot < signature_count t | None \<Rightarrow> True)"

definition closed_ok :: "event list \<Rightarrow> channel \<Rightarrow> bool" where
  "closed_ok es ch \<longleftrightarrow> prefix (called es) (accepted es) \<and> stops es = 1 \<and> stop_calls es + stop_jobs (chan_jobs ch) = 1 \<and>
     quiet es \<and> chan_timer ch = None"

definition chan_ok :: "nat \<Rightarrow> event list \<Rightarrow> channel \<Rightarrow> bool" where
  "chan_ok r es ch \<longleftrightarrow> (case chan_task ch of Some t \<Rightarrow> open_ok r es ch t | None \<Rightarrow> closed_ok es ch)"

definition gone_ok :: "event list \<Rightarrow> bool" where
  "gone_ok es \<longleftrightarrow> prefix (called es) (accepted es) \<and> stops es \<le> 1 \<and> stop_calls es \<le> 1 \<and> quiet es"

definition ref_ok :: "nat \<Rightarrow> nat \<Rightarrow> event list \<Rightarrow> channel option \<Rightarrow> bool" where
  "ref_ok r n es c \<longleftrightarrow> (case c of
      Some ch \<Rightarrow> 0 < r \<and> r \<le> n \<and> chan_ok r es ch
    | None \<Rightarrow> gone_ok es \<and> (n < r \<longrightarrow> es = []))"

lemma ref_ok_simps [simp]:
  "ref_ok r n es (Some ch) \<longleftrightarrow> 0 < r \<and> r \<le> n \<and> chan_ok r es ch"
  "ref_ok r n es None \<longleftrightarrow> gone_ok es \<and> (n < r \<longrightarrow> es = [])"
  by (simp_all add: ref_ok_def)

definition system_ok :: "event list \<Rightarrow> system \<Rightarrow> bool" where
  "system_ok es s \<longleftrightarrow> (\<forall>r. ref_ok r (last_id s) (about r es) (chans s r))"

lemma system_ok_chan: "system_ok es s \<Longrightarrow> chans s r = Some ch \<Longrightarrow> 0 < r \<and> r \<le> last_id s \<and> chan_ok r (about r es) ch"
  unfolding system_ok_def by (metis ref_ok_simps(1))

text \<open>Only channels and ids matter; a change of one channel needs to be checked for that channel.\<close>

lemma system_ok_cong: "system_ok es s \<Longrightarrow> chans s' = chans s \<Longrightarrow> last_id s' = last_id s \<Longrightarrow> system_ok es s'"
  by (simp add: system_ok_def)

lemma about_other: "\<forall>e \<in> set es. subject e = r \<Longrightarrow> r' \<noteq> r \<Longrightarrow> about r' es = []"
  by (auto simp: about_def filter_empty_conv)

lemma about_own: "\<forall>e \<in> set es. subject e = r \<Longrightarrow> about r es = es"
  by (simp add: about_def)

lemma system_ok_set_chan:
  assumes "system_ok es s" "chans s r = Some ch" "\<forall>e \<in> set es'. subject e = r" "chan_ok r (about r es @ es') ch'"
  shows "system_ok (es @ es') (set_chan r ch' s)"
  unfolding system_ok_def
proof
  fix r'
  show "ref_ok r' (last_id (set_chan r ch' s)) (about r' (es @ es')) (chans (set_chan r ch' s) r')"
  proof (cases "r' = r")
    case True
    with assms system_ok_chan [OF assms(1,2)] show ?thesis by (simp add: set_chan_def about_own)
  next
    case False
    with assms(1) about_other [OF assms(3) False] show ?thesis
      by (simp add: set_chan_def system_ok_def)
  qed
qed

definition keeps :: "(system \<Rightarrow> effect) \<Rightarrow> bool" where
  "keeps f \<longleftrightarrow> (\<forall>es s es' s'. system_ok es s \<longrightarrow> f s = (es', Inr s') \<longrightarrow> system_ok (es @ es') s')"

lemma keepsD: "keeps f \<Longrightarrow> system_ok es s \<Longrightarrow> f s = (es', Inr s') \<Longrightarrow> system_ok (es @ es') s'"
  unfolding keeps_def by blast

lemma keeps_after: "keeps f \<Longrightarrow> keeps g \<Longrightarrow> keeps (\<lambda>s. after (f s) g)"
  unfolding keeps_def by (fastforce simp: after_eq_ok)

lemma keeps_each: "(\<And>r. keeps (f r)) \<Longrightarrow> keeps (\<lambda>s. each f s rs)"
proof (induction rs)
  case Nil
  then show ?case by (simp add: keeps_def)
next
  case (Cons r rs)
  then show ?case using keeps_after [of "f r" "\<lambda>s. each f s rs"] by simp
qed

lemma keeps_same: "(\<And>s s'. f s = ([], Inr s') \<Longrightarrow> chans s' = chans s \<and> last_id s' = last_id s) \<Longrightarrow>
   (\<And>s. fst (f s) = []) \<Longrightarrow> keeps f"
  unfolding keeps_def by (metis append_Nil2 fst_conv system_ok_cong)

lemma keeps_on_chan:
  assumes "\<And>ch es ch' done. chan_ok r es ch \<Longrightarrow> f ch = Inr (ch', done) \<Longrightarrow> chan_ok r (es @ (if done then es' else [])) ch'"
    and "\<forall>e \<in> set es'. subject e = r"
  shows "keeps (on_chan r f es')"
  unfolding keeps_def
proof (intro allI impI)
  fix es s es2 s'
  assume ok: "system_ok es s" and e: "on_chan r f es' s = (es2, Inr s')"
  then obtain ch ch' d where c: "chans s r = Some ch" "f ch = Inr (ch', d)" "es2 = (if d then es' else [])" "s' = set_chan r ch' s"
    by (auto simp: on_chan_def chan_def rbind_def split: option.splits sum.splits)
  have "chan_ok r (about r es @ es2) ch'"
    using assms(1) [OF _ c(2)] system_ok_chan [OF ok c(1)] c(3) by auto
  with system_ok_set_chan [OF ok c(1)] assms(2) c show "system_ok (es @ es2) s'" by auto
qed

lemma submit_ok:
  assumes "chan_ok r es ch" "submit b slot j ch = Inr (ch', done)" "job_msg j = [(slot, m)]"
  shows "chan_ok r (es @ (if done then [Accepted r slot m] else [])) ch'"
proof (cases "chan_task ch")
  case None
  with assms show ?thesis
    by (auto simp: submit_def is_open_slot_def rbind_def split: if_splits sum.splits)
next
  case (Some t)
  have "stop_jobs [j] = 0" using assms(3) by (cases j) auto
  with Some assms show ?thesis
    by (auto simp: submit_def is_open_slot_def rbind_def chan_ok_def open_ok_def post_def split: if_splits sum.splits)
qed

lemma stop_channel_ok:
  assumes "chan_ok r es ch" "stop_channel ch = (ch', done)"
  shows "chan_ok r (es @ (if done then [Stopped r] else [])) ch'"
proof (cases "chan_task ch")
  case None
  with assms show ?thesis by (auto simp: stop_channel_def)
next
  case (Some t)
  with assms show ?thesis
    by (auto simp: stop_channel_def chan_ok_def open_ok_def closed_ok_def post_def quiet_append quiet_unstopped)
qed

lemma keeps_submit:
  "job_msg j = [(slot, m)] \<Longrightarrow> keeps (on_chan r (submit b slot j) [Accepted r slot m])"
  by (rule keeps_on_chan) (auto dest: submit_ok)

lemma keeps_stop: "keeps (stop r)"
  unfolding stop_def by (rule keeps_on_chan) (auto dest: stop_channel_ok)

lemma keeps_dispatch: "keeps (dispatch b r slot m)"
  unfolding dispatch_def by (rule keeps_submit) simp

lemma keeps_id: "keeps (\<lambda>s. ([], Inr s))"
  by (simp add: keeps_def)

lemma keeps_fault: "keeps (\<lambda>s. (es, Inl e))"
  by (simp add: keeps_def)

text \<open>An operation that reads the state to choose what to do.\<close>

lemma keeps_choice: "(\<And>s. \<exists>g. keeps g \<and> f s = g s) \<Longrightarrow> keeps f"
  unfolding keeps_def by metis

lemma keeps_by: "keeps g \<Longrightarrow> f s = g s \<Longrightarrow> \<exists>g. keeps g \<and> f s = g s"
  by blast

lemma keeps_with_chan: "(\<And>ch. keeps (g ch)) \<Longrightarrow> keeps (\<lambda>s. case chan s r of Inl e \<Rightarrow> ([], Inl e) | Inr ch \<Rightarrow> g ch s)"
  by (rule keeps_choice) (metis (no_types, lifting) keeps_fault old.sum.exhaust old.sum.simps(5,6))

lemma keeps_dispatch_named: "keeps (dispatch_named b r name m)"
  unfolding dispatch_named_def [abs_def] by (rule keeps_with_chan) (rule keeps_dispatch)

lemma keeps_if: "keeps f \<Longrightarrow> keeps g \<Longrightarrow> keeps (\<lambda>s. if P s then f s else g s)"
  unfolding keeps_def by presburger

lemma fire_ok:
  assumes "chan_ok r es ch" "chan_timer ch = Some (slot, m)"
  shows "chan_ok r (es @ [Accepted r slot m]) (post (Deliver slot m) (ch\<lparr>chan_timer := None\<rparr>))"
  using assms by (auto simp: chan_ok_def open_ok_def closed_ok_def post_def split: option.splits)

lemma keeps_fire: "keeps (fire r)"
  unfolding keeps_def
proof (intro allI impI)
  fix es s es' s'
  assume ok: "system_ok es s" and f: "fire r s = (es', Inr s')"
  then obtain ch where c: "chans s r = Some ch" by (auto simp: fire_def chan_def split: option.splits)
  show "system_ok (es @ es') s'"
  proof (cases "chan_timer ch")
    case None
    with f c ok show ?thesis by (simp add: fire_def chan_def)
  next
    case (Some p)
    then obtain slot m where t: "chan_timer ch = Some (slot, m)" by (cases p) auto
    have "chan_ok r (about r es @ [Accepted r slot m]) (post (Deliver slot m) (ch\<lparr>chan_timer := None\<rparr>))"
      using fire_ok [OF _ t] system_ok_chan [OF ok c] by blast
    from system_ok_set_chan [OF ok c _ this] f c t show ?thesis by (auto simp: fire_def chan_def)
  qed
qed

text \<open>A turn of the strand of an open channel calls the first message of the queue.\<close>

lemma called_ok:
  assumes "open_ok r es ch t" "chan_jobs ch = j # js" "job_msg j = [(slot, m)]"
  shows "open_ok r (es @ [Called r slot m]) (ch\<lparr>chan_jobs := js\<rparr>) t" "slot < signature_count t"
  using assms by (auto simp: open_ok_def split: job.splits option.splits)

lemma skipped_ok:
  assumes "closed_ok es ch" "chan_jobs ch = j # js" "job_msg j = [(slot, m)]"
  shows "closed_ok es (ch\<lparr>chan_jobs := js\<rparr>)"
  using assms by (cases j) (auto simp: closed_ok_def)

lemma keeps_guarded:
  assumes ok: "system_ok es s" and c: "chans s r = Some ch" "chan_jobs ch = j # js" "job_msg j = [(slot, m)]"
    and k: "\<And>res. keeps (k res)"
    and e: "guarded b reply r ch slot m k (set_chan r (ch\<lparr>chan_jobs := js\<rparr>) s) = (es', Inr s')"
  shows "system_ok (es @ es') s'"
proof (cases "chan_task ch")
  case None
  have "closed_ok (about r es) (ch\<lparr>chan_jobs := js\<rparr>)"
    using skipped_ok [OF _ c(2,3)] system_ok_chan [OF ok c(1)] None by (simp add: chan_ok_def)
  then have "chan_ok r (about r es @ []) (ch\<lparr>chan_jobs := js\<rparr>)" using None by (simp add: chan_ok_def)
  from system_ok_set_chan [OF ok c(1) _ this] e None show ?thesis
    by (auto simp: guarded_def is_open_slot_def split: if_splits)
next
  case (Some t)
  then have o: "open_ok r (about r es) ch t" using system_ok_chan [OF ok c(1)] by (simp add: chan_ok_def)
  note n = called_ok [OF o c(2,3)]
  have "chan_ok r (about r es @ [Called r slot m]) (ch\<lparr>chan_jobs := js\<rparr>)" using n(1) Some by (simp add: chan_ok_def)
  from system_ok_set_chan [OF ok c(1) _ this]
  have 1: "system_ok (es @ [Called r slot m]) (set_chan r (ch\<lparr>chan_jobs := js\<rparr>) s)" by simp
  have "guarded b reply r ch slot m k (set_chan r (ch\<lparr>chan_jobs := js\<rparr>) s) =
      emit [Called r slot m] (k (reply r slot m) (set_chan r (ch\<lparr>chan_jobs := js\<rparr>) s))"
    using n(2) Some by (simp add: guarded_def is_open_slot_def call_def)
  with e obtain es2 where "es' = Called r slot m # es2"
    "k (reply r slot m) (set_chan r (ch\<lparr>chan_jobs := js\<rparr>) s) = (es2, Inr s')"
    by (cases "k (reply r slot m) (set_chan r (ch\<lparr>chan_jobs := js\<rparr>) s)") (auto simp: emit_def)
  with keepsD [OF k 1] show ?thesis by auto
qed

lemma keeps_answer: "keeps (\<lambda>s. ([Answer r cb res], Inr s))"
  unfolding keeps_def
proof (intro allI impI)
  fix es s es' s'
  assume ok: "system_ok es s" and "([Answer r cb res], Inr s) = (es', Inr s' :: system result)"
  then have e: "es' = [Answer r cb res]" "s' = s" by auto
  show "system_ok (es @ es') s'"
    unfolding system_ok_def e
  proof
    fix r'
    have r: "ref_ok r' (last_id s) (about r' es) (chans s r')" using ok by (simp add: system_ok_def)
    show "ref_ok r' (last_id s) (about r' (es @ [Answer r cb res])) (chans s r')"
    proof (cases "r' = 0")
      case True
      with r have "chans s r' = None" by (cases "chans s r'") auto
      with r True show ?thesis by (simp add: gone_ok_def quiet_append)
    qed (use r in simp)
  qed
qed

lemma keeps_run_channel: "keeps (run_channel b reply r)"
  unfolding keeps_def
proof (intro allI impI)
  fix es s es' s'
  assume ok: "system_ok es s" and run: "run_channel b reply r s = (es', Inr s')"
  then obtain ch where c: "chans s r = Some ch" by (auto simp: run_channel_def chan_def split: option.splits)
  show "system_ok (es @ es') s'"
  proof (cases "chan_jobs ch")
    case Nil
    with run c ok show ?thesis by (simp add: run_channel_def chan_def)
  next
    case (Cons j js)
    show ?thesis
    proof (cases j)
      case (Deliver slot m)
      have "guarded b reply r ch slot m (\<lambda>_ s. ([], Inr s)) (set_chan r (ch\<lparr>chan_jobs := js\<rparr>) s) = (es', Inr s')"
        using run c Cons Deliver by (simp add: run_channel_def chan_def)
      from keeps_guarded [OF ok c Cons _ _ this] Deliver keeps_id show ?thesis by simp
    next
      case (Deliver_R slot m cb)
      have "guarded b reply r ch slot m (\<lambda>res s. ([Answer r cb res], Inr s)) (set_chan r (ch\<lparr>chan_jobs := js\<rparr>) s) = (es', Inr s')"
        using run c Cons Deliver_R by (simp add: run_channel_def chan_def)
      from keeps_guarded [OF ok c Cons _ _ this] Deliver_R keeps_answer show ?thesis by simp
    next
      case (Next_Job slot m target)
      let ?k = "\<lambda>res s. (case target of None \<Rightarrow> ([], Inl Undefined) | Some (c, name) \<Rightarrow> dispatch_named b c name res s)"
      have g: "guarded b reply r ch slot m ?k (set_chan r (ch\<lparr>chan_jobs := js\<rparr>) s) = (es', Inr s')"
        using run c Cons Next_Job by (simp add: run_channel_def chan_def)
      have k: "keeps (?k res)" for res
        using keeps_fault keeps_dispatch_named by (cases target) auto
      show ?thesis by (rule keeps_guarded [OF ok c Cons _ k g]) (simp add: Next_Job)
    next
      case (Stop_Job t)
      have o: "chan_ok r (about r es) ch" using system_ok_chan [OF ok c] by simp
      have n: "chan_task ch = None"
      proof (cases "chan_task ch")
        case (Some t')
        with o Cons Stop_Job show ?thesis by (simp add: chan_ok_def open_ok_def)
      qed simp
      with o have "closed_ok (about r es) ch" by (simp add: chan_ok_def)
      with Cons Stop_Job have "closed_ok (about r es @ [Stop_Called r (stop_idx t)]) (ch\<lparr>chan_jobs := js\<rparr>)"
        by (auto simp: closed_ok_def quiet_append)
      with n have "chan_ok r (about r es @ [Stop_Called r (stop_idx t)]) (ch\<lparr>chan_jobs := js\<rparr>)" by (simp add: chan_ok_def)
      from system_ok_set_chan [OF ok c _ this] run c Cons Stop_Job show ?thesis
        by (auto simp: run_channel_def chan_def)
    qed
  qed
qed

lemma keeps_registry_post [simp]:
  "chans (registry_post j s) = chans s" "last_id (registry_post j s) = last_id s"
  by (simp_all add: registry_post_def)

lemma keeps_update:
  "(\<And>s. chans (g s) = chans s \<and> last_id (g s) = last_id s) \<Longrightarrow> keeps (\<lambda>s. ([], Inr (g s)))"
  unfolding keeps_def by (auto intro: system_ok_cong)

lemma keeps_before:
  assumes "keeps f" "\<And>s. chans (g s) = chans s \<and> last_id (g s) = last_id s"
  shows "keeps (\<lambda>s. f (g s))"
  using keeps_after [OF keeps_update [OF assms(2)] assms(1)] by simp

lemma keeps_dispatch_id: "keeps (dispatch_id b slot m i)"
  by (rule keeps_choice) (auto simp: dispatch_id_def keeps_id keeps_dispatch_named split: option.split intro: keeps_id keeps_dispatch_named)

lemma keeps_dispatch_other: "keeps (dispatch_other b i slot m r)"
  unfolding dispatch_other_def [abs_def]
  by (rule keeps_with_chan) (rule keeps_if [OF keeps_dispatch_named keeps_id])

lemma keeps_run_registry: "keeps (run_registry b)"
proof (rule keeps_choice)
  fix s
  show "\<exists>g. keeps g \<and> run_registry b s = g s"
  proof (cases "reg_jobs s")
    case Nil
    then show ?thesis using keeps_id by (intro exI [of _ "\<lambda>s. ([], Inr s)"]) (simp add: run_registry_def)
  next
    case (Cons j js)
    let ?pop = "\<lambda>s. s\<lparr>reg_jobs := js\<rparr>"
    have pop: "chans (?pop s) = chans s \<and> last_id (?pop s) = last_id s" for s :: system by simp
    note before = keeps_before [where g = ?pop, OF _ pop]
    show ?thesis
    proof (cases j)
      case (Insert r)
      have k: "keeps (registry_insert b r)"
        by (rule keeps_same) (auto simp: registry_insert_def rbind_def split: sum.splits)
      show ?thesis by (rule keeps_by [OF before [OF k]]) (simp add: run_registry_def Let_def Cons Insert)
    next
      case (Remove i)
      show ?thesis
        by (rule keeps_by, rule keeps_update [where g = "\<lambda>s. (?pop s)\<lparr>reg_list := map_erase i (reg_list s)\<rparr>"])
          (simp_all add: run_registry_def Let_def Cons Remove)
    next
      case (Dispatch_Ids ids slot m)
      have k: "keeps (\<lambda>s. each (dispatch_id b slot m) s ids)" by (rule keeps_each) (rule keeps_dispatch_id)
      show ?thesis by (rule keeps_by [OF before [OF k]]) (simp add: run_registry_def Let_def Cons Dispatch_Ids)
    next
      case (Dispatch_To name slot m)
      have k: "keeps (\<lambda>s. each (\<lambda>r. dispatch_named b r slot m) s (lookup_named name (?pop t)))" for t
        by (rule keeps_each) (rule keeps_dispatch_named)
      show ?thesis by (rule keeps_by [OF before [OF k [of s]]]) (simp add: run_registry_def Let_def Cons Dispatch_To)
    next
      case (Dispatch_Exclude i name slot m)
      have k: "keeps (\<lambda>s. each (dispatch_other b i slot m) s (lookup_named name (?pop t)))" for t
        by (rule keeps_each) (rule keeps_dispatch_other)
      show ?thesis by (rule keeps_by [OF before [OF k [of s]]]) (simp add: run_registry_def Let_def Cons Dispatch_Exclude)
    next
      case (Stop_Named name)
      have k: "keeps (\<lambda>s. each stop s (lookup_named name (?pop t)))" for t
        by (rule keeps_each) (rule keeps_stop)
      show ?thesis by (rule keeps_by [OF before [OF k [of s]]]) (simp add: run_registry_def Let_def Cons Stop_Named)
    qed
  qed
qed


lemma keeps_stop_if_alive: "keeps (stop_if_alive r)"
  unfolding stop_if_alive_def [abs_def] by (rule keeps_if) (rule keeps_id keeps_stop)+

lemma keeps_registry_shutdown: "keeps registry_shutdown"
proof -
  have "keeps (\<lambda>s. after (each stop_if_alive (s\<lparr>reg_down := True\<rparr>) rs) (\<lambda>s'. ([], Inr (s'\<lparr>reg_list := []\<rparr>))))" for rs
    by (rule keeps_after, rule keeps_before [OF keeps_each]) (auto intro: keeps_stop_if_alive keeps_update)
  then show ?thesis
    by (intro keeps_choice) (auto simp: registry_shutdown_def [abs_def] split: if_splits intro: keeps_id keeps_by)
qed

lemma keeps_registry_reset: "keeps (registry_reset b)"
  by (rule keeps_same) (auto simp: registry_reset_def rbind_def split: sum.splits)

lemma keeps_run_stash: "keeps run_stash"
proof (rule keeps_choice)
  fix s
  show "\<exists>g. keeps g \<and> run_stash s = g s"
  proof (cases "\<exists>name js. stash_jobs s = Stash_Stop_Named name # js \<and> \<not> stash_down s")
    case True
    then obtain name js where j: "stash_jobs s = Stash_Stop_Named name # js" "\<not> stash_down s" by auto
    let ?stay = "filter (\<lambda>p. \<not> named_in_stash name s p) (stash_list s)"
    have k: "keeps (\<lambda>s. each stop s rs)" for rs by (rule keeps_each) (rule keeps_stop)
    show ?thesis
      by (rule keeps_by, rule keeps_before [where g = "\<lambda>s. s\<lparr>stash_jobs := js, stash_list := ?stay\<rparr>", OF k])
        (auto simp: run_stash_def j Let_def)
  next
    case False
    let ?g = "\<lambda>t. if t = s then run_stash s else ([], Inl Undefined)"
    have "keeps ?g"
      using False by (intro keeps_same)
        (auto simp: run_stash_def Let_def rbind_def split: if_splits list.splits stash_job.splits sum.splits)
    then show ?thesis by (rule keeps_by) simp
  qed
qed

lemma keeps_stash_stop: "keeps stash_stop"
proof -
  have "keeps (\<lambda>s. each stop s rs)" for rs by (rule keeps_each) (rule keeps_stop)
  then show ?thesis
    by (intro keeps_choice) (auto simp: stash_stop_def [abs_def] split: if_splits intro: keeps_id keeps_by)
qed

lemma stash_same [simp]:
  "chans (stash_post j s) = chans s" "last_id (stash_post j s) = last_id s"
  "chans (stash_clear s) = chans s" "last_id (stash_clear s) = last_id s"
  "chans (stash_reset s) = chans s" "last_id (stash_reset s) = last_id s"
  by (simp_all add: stash_post_def stash_clear_def stash_reset_def)

lemma fresh_about: "system_ok es s \<Longrightarrow> last_id s < r \<Longrightarrow> about r es = []"
  unfolding system_ok_def by (metis leD option.exhaust ref_ok_simps)

lemma create_ok:
  assumes "system_ok es s"
  shows "system_ok es (create name n stop_at s)"
  unfolding system_ok_def
proof
  fix r
  have "ref_ok r (last_id s) (about r es) (chans s r)" using assms by (simp add: system_ok_def)
  then show "ref_ok r (last_id (create name n stop_at s)) (about r es) (chans (create name n stop_at s) r)"
    using fresh_about [OF assms, of r]
    by (cases "chans s r") (auto simp: create_def Let_def set_chan_def chan_ok_def open_ok_def)
qed

lemma gone_ok_chan: "chan_ok r es ch \<Longrightarrow> gone_ok es"
  by (auto simp: chan_ok_def open_ok_def closed_ok_def gone_ok_def quiet_unstopped split: option.splits)

lemma keeps_destroy: "keeps (destroy b r)"
  unfolding keeps_def
proof (intro allI impI)
  fix es s es' s'
  assume ok: "system_ok es s" and d: "destroy b r s = (es', Inr s')"
  show "system_ok (es @ es') s'"
  proof (cases "chans s r = None \<or> owned r s")
    case True
    with d ok show ?thesis by (auto simp: destroy_def split: option.splits if_splits)
  next
    case False
    with d obtain ch where ch: "chans s r = Some ch" "es' = []" "last_id s' = last_id s" "chans s' = (chans s)(r := None)"
      by (auto simp: destroy_def rbind_def Let_def split: option.splits if_splits sum.splits)
    from system_ok_chan [OF ok ch(1)] gone_ok_chan have "r \<le> last_id s" "gone_ok (about r es)" by auto
    with ok ch show ?thesis by (auto simp: system_ok_def)
  qed
qed

lemma suspend_ok:
  assumes "chan_ok r es ch" "suspend b slot m ch = Inr (ch', d)"
  shows "chan_ok r es ch'"
  using assms by (cases "chan_task ch")
    (auto simp: suspend_def is_open_slot_def rbind_def chan_ok_def open_ok_def split: if_splits sum.splits option.splits)

lemma chan_ok_slots: "chan_ok r es (ch\<lparr>chan_slots := ns\<rparr>) \<longleftrightarrow> chan_ok r es ch"
  by (simp add: chan_ok_def open_ok_def closed_ok_def split: option.split)

lemma cancel_ok: "chan_ok r es ch \<Longrightarrow> chan_ok r es (fst (cancel_timer ch))"
  by (auto simp: cancel_timer_def chan_ok_def open_ok_def closed_ok_def split: option.splits)

lemma keeps_exec: "keeps (exec b reply c)"
proof (cases c)
  case (Create name n stop_at)
  then show ?thesis by (simp add: keeps_def create_ok)
next
  case (Name_Slots r ss)
  have "keeps (on_chan r (\<lambda>ch. Inr (ch\<lparr>chan_slots := set_channel_names ss (chan_slots ch)\<rparr>, True)) [])"
    by (rule keeps_on_chan) (auto simp: chan_ok_slots)
  then show ?thesis by (simp add: keeps_def Name_Slots)
next
  case (Suspend r slot m)
  have "keeps (on_chan r (suspend b slot m) [])"
    by (rule keeps_on_chan) (auto dest: suspend_ok)
  then show ?thesis by (simp add: keeps_def Suspend)
next
  case (Cancel_Timer r)
  have "keeps (on_chan r (\<lambda>ch. Inr (cancel_timer ch)) [])"
    by (rule keeps_on_chan) (auto dest: cancel_ok)
  then show ?thesis by (simp add: keeps_def Cancel_Timer)
next
  case (Dispatch_R r slot m cb)
  have "keeps (dispatch_r b r slot m cb)" unfolding dispatch_r_def by (rule keeps_submit) simp
  then show ?thesis by (simp add: keeps_def Dispatch_R)
next
  case (Next_Numbered r p q m)
  have "keeps (next_numbered b r p q m)" unfolding next_numbered_def by (rule keeps_submit) simp
  then show ?thesis by (simp add: keeps_def Next_Numbered)
next
  case (Next_Named r p q m)
  have "keeps (next_named b r p q m)"
    unfolding next_named_def [abs_def] Let_def by (rule keeps_with_chan) (rule keeps_submit, simp)
  then show ?thesis by (simp add: keeps_def Next_Named)
next
  case (Stash_Post j)
  have "keeps (\<lambda>s. ([], Inr (case j of Lock r \<Rightarrow> if chans s r = None then s else stash_post j s | _ \<Rightarrow> stash_post j s)))"
    by (rule keeps_update) (simp split: stash_job.split)
  then show ?thesis by (simp add: keeps_def Stash_Post)
qed (use keeps_dispatch keeps_dispatch_named keeps_fire keeps_stop keeps_run_channel keeps_run_registry
    keeps_registry_shutdown keeps_registry_reset keeps_run_stash keeps_stash_stop keeps_destroy in
    \<open>auto simp: keeps_def intro: system_ok_cong\<close>)

lemma reaches_ok: "reaches b reply es s \<Longrightarrow> system_ok es s"
proof (induction rule: reaches.induct)
  case start
  show ?case by (simp add: system_ok_def system_init_def gone_ok_def)
next
  case (step es s c es' s')
  then show ?case using keepsD [OF keeps_exec] by blast
qed

section \<open>Properties\<close>

text \<open>C25. Whatever the order in which the user's calls and the strands' turns follow each other: each channel
  calls the functions of its task with the messages it accepted, in the order in which it accepted them and
  without leaving one out; it is stopped at most once, its stop function is called at most once, nothing is
  called after it was stopped, and as long as it is open the messages not yet called are those in its queue.\<close>

theorem task_order:
  assumes "reaches b reply es s"
  shows "prefix (called (about r es)) (accepted (about r es)) \<and> stops (about r es) \<le> 1 \<and> stop_calls (about r es) \<le> 1 \<and>
    quiet (about r es) \<and>
    (\<forall>ch. chans s r = Some ch \<longrightarrow> is_open ch \<longrightarrow>
       accepted (about r es) = called (about r es) @ pending (chan_jobs ch) \<and> stops (about r es) = 0)"
proof -
  have ok: "system_ok es s" using reaches_ok [OF assms] .
  have "gone_ok (about r es)"
    using ok system_ok_chan [OF ok] gone_ok_chan unfolding system_ok_def by (metis option.exhaust ref_ok_simps(2))
  moreover have "accepted (about r es) = called (about r es) @ pending (chan_jobs ch) \<and> stops (about r es) = 0"
    if "chans s r = Some ch" "is_open ch" for ch
    using system_ok_chan [OF ok that(1)] that(2) by (auto simp: is_open_def chan_ok_def open_ok_def)
  ultimately show ?thesis by (simp add: gone_ok_def)
qed

definition echo :: "nat \<Rightarrow> nat \<Rightarrow> msg \<Rightarrow> msg" where
  "echo r slot m = m"

lemmas run_defs = create_def Let_def registry_post_def set_chan_def system_init_def dispatch_def on_chan_def chan_def submit_def
  is_open_slot_def post_def rbind_def stop_def stop_channel_def run_channel_def guarded_def call_def after_def emit_def npos_def
  boost_assert_def

fun execs :: "build \<Rightarrow> (nat \<Rightarrow> nat \<Rightarrow> msg \<Rightarrow> msg) \<Rightarrow> command list \<Rightarrow> system \<Rightarrow> effect" where
  "execs b reply [] s = ([], Inr s)"
| "execs b reply (c # cs) s = after (exec b reply c s) (execs b reply cs)"

lemma reaches_execs:
  "reaches b reply es s \<Longrightarrow> execs b reply cs s = (es', Inr s') \<Longrightarrow> reaches b reply (es @ es') s'"
proof (induction cs arbitrary: es es' s)
  case Nil
  then show ?case by simp
next
  case (Cons c cs)
  then obtain e1 s1 e2 where "exec b reply c s = (e1, Inr s1)" "execs b reply cs s1 = (e2, Inr s')" "es' = e1 @ e2"
    by (auto simp: after_eq_ok)
  with Cons.IH reaches.step [OF Cons.prems(1)] show ?case by fastforce
qed

definition example_commands :: "command list" where
  "example_commands = [Create [] 2 1, Dispatch 1 0 [], Dispatch 1 1 [], Run_Channel 1, Stop 1, Run_Registry]"

lemma example_commands_run:
  "\<exists>s. execs Release echo example_commands system_init = ([Accepted 1 0 [], Accepted 1 1 [], Called 1 0 [], Stopped 1], Inr s) \<and>
     chans s 1 \<noteq> None"
  by (simp add: example_commands_def run_defs run_registry_def registry_insert_def)

lemma task_order_witness:
  "prefix [(0::nat, [] :: msg)] (accepted (about 1 [Accepted 1 0 [], Accepted 1 1 [], Called 1 0 [], Stopped 1]))"
proof -
  obtain s where "execs Release echo example_commands system_init = ([Accepted 1 0 [], Accepted 1 1 [], Called 1 0 [], Stopped 1], Inr s)"
    using example_commands_run by blast
  from task_order [OF reaches_execs [OF reaches.start this], of 1] show ?thesis by simp
qed

text \<open>Turns of one strand.\<close>

fun turns :: "build \<Rightarrow> (nat \<Rightarrow> nat \<Rightarrow> msg \<Rightarrow> msg) \<Rightarrow> nat \<Rightarrow> nat \<Rightarrow> system \<Rightarrow> effect" where
  "turns b reply r 0 s = ([], Inr s)"
| "turns b reply r (Suc n) s = after (run_channel b reply r s) (turns b reply r n)"

definition plain_job :: "job \<Rightarrow> bool" where
  "plain_job j = (case j of Next_Job slot m target \<Rightarrow> False | _ \<Rightarrow> True)"

lemma plain_turn_open:
  assumes "chans s r = Some ch" "chan_task ch = Some t" "chan_jobs ch = j # js" "plain_job j" "stop_jobs [j] = 0"
    "\<forall>(slot, m) \<in> set (job_msg j). slot < signature_count t"
  shows "\<exists>es. run_channel b reply r s = (es, Inr (set_chan r (ch\<lparr>chan_jobs := js\<rparr>) s)) \<and> called es = job_msg j \<and> stop_calls es = 0"
  using assms by (cases j) (auto simp: run_channel_def chan_def guarded_def is_open_slot_def call_def plain_job_def)

lemma set_chan_again [simp]: "set_chan r ch (set_chan r ch' s) = set_chan r ch s"
  by (simp add: set_chan_def)

lemma set_chan_same: "chans s r = Some ch \<Longrightarrow> set_chan r ch s = s"
  by (simp add: set_chan_def fun_upd_idem)

lemma plain_turns_open:
  assumes "chans s r = Some ch" "chan_task ch = Some t" "\<forall>j \<in> set (chan_jobs ch). plain_job j" "stop_jobs (chan_jobs ch) = 0"
    "\<forall>(slot, m) \<in> set (pending (chan_jobs ch)). slot < signature_count t"
  shows "\<exists>es. turns b reply r (length (chan_jobs ch)) s = (es, Inr (set_chan r (ch\<lparr>chan_jobs := []\<rparr>) s)) \<and>
    called es = pending (chan_jobs ch) \<and> stop_calls es = 0"
  using assms
proof (induction "chan_jobs ch" arbitrary: ch s)
  case Nil
  then have "ch\<lparr>chan_jobs := []\<rparr> = ch" by simp
  with Nil show ?case by (simp add: set_chan_same)
next
  case (Cons j js)
  let ?ch = "ch\<lparr>chan_jobs := js\<rparr>" and ?s = "set_chan r (ch\<lparr>chan_jobs := js\<rparr>) s"
  have jobs: "chan_jobs ch = j # js" using Cons by simp
  have j: "plain_job j" "stop_jobs [j] = 0" "\<forall>(slot, m) \<in> set (job_msg j). slot < signature_count t"
    and js: "\<forall>j \<in> set js. plain_job j" "stop_jobs js = 0" "\<forall>(slot, m) \<in> set (pending js). slot < signature_count t"
    using Cons.prems(3-5) unfolding jobs by auto
  obtain e1 where 1: "run_channel b reply r s = (e1, Inr ?s)" "called e1 = job_msg j" "stop_calls e1 = 0"
    using plain_turn_open [OF Cons.prems(1,2) jobs j] by blast
  have "chans ?s r = Some ?ch" by (simp add: set_chan_def)
  from Cons.hyps(1) [OF _ this] Cons.prems(2) js
  obtain e2 where 2: "turns b reply r (length js) ?s = (e2, Inr (set_chan r (?ch\<lparr>chan_jobs := []\<rparr>) ?s))"
    "called e2 = pending js" "stop_calls e2 = 0" by auto
  from 1 2 jobs show ?case
    by (intro exI [of _ "e1 @ e2"]) (auto simp: after_def emit_def)
qed

lemma turn_closed:
  assumes "chans s r = Some ch" "chan_task ch = None" "chan_jobs ch = j # js"
  shows "\<exists>es. run_channel Release reply r s = (es, Inr (set_chan r (ch\<lparr>chan_jobs := js\<rparr>) s)) \<and> called es = [] \<and>
    stop_calls es = stop_jobs [j]"
  using assms by (cases j) (auto simp: run_channel_def chan_def guarded_def is_open_slot_def)

lemma turns_closed:
  assumes "chans s r = Some ch" "chan_task ch = None"
  shows "\<exists>es. turns Release reply r (length (chan_jobs ch)) s = (es, Inr (set_chan r (ch\<lparr>chan_jobs := []\<rparr>) s)) \<and>
    called es = [] \<and> stop_calls es = stop_jobs (chan_jobs ch)"
  using assms
proof (induction "chan_jobs ch" arbitrary: ch s)
  case Nil
  then have "ch\<lparr>chan_jobs := []\<rparr> = ch" by simp
  with Nil show ?case by (simp add: set_chan_same)
next
  case (Cons j js)
  let ?ch = "ch\<lparr>chan_jobs := js\<rparr>" and ?s = "set_chan r (ch\<lparr>chan_jobs := js\<rparr>) s"
  have jobs: "chan_jobs ch = j # js" using Cons by simp
  obtain e1 where 1: "run_channel Release reply r s = (e1, Inr ?s)" "called e1 = []" "stop_calls e1 = stop_jobs [j]"
    using turn_closed [OF Cons.prems(1,2) jobs] by blast
  have "chans ?s r = Some ?ch" by (simp add: set_chan_def)
  from Cons.hyps(1) [OF _ this] Cons.prems(2)
  obtain e2 where 2: "turns Release reply r (length js) ?s = (e2, Inr (set_chan r (?ch\<lparr>chan_jobs := []\<rparr>) ?s))"
    "called e2 = []" "stop_calls e2 = stop_jobs js" by auto
  from 1 2 jobs show ?case by (intro exI [of _ "e1 @ e2"]) (auto simp: after_def emit_def)
qed

text \<open>C26. The strand of a channel gets everything done, if it gets its turns, from any state that can be reached: an
  open channel whose queue holds no producer-consumer job has, after as many turns as there are jobs, called
  everything it ever accepted, with and without assertions.  A closed one, likewise without such jobs, calls its stop
  function and nothing else, exactly once in its life, in a build without assertions; with assertions, jobs that are
  still pending when a channel is closed have no defined behaviour.\<close>

theorem task_drains:
  assumes "reaches b reply es s" "chans s r = Some ch" "\<forall>j \<in> set (chan_jobs ch). plain_job j"
    "\<not> is_open ch \<longrightarrow> b = Release"
  shows "\<exists>es' s'. turns b reply r (length (chan_jobs ch)) s = (es', Inr s') \<and> chans s' r = Some (ch\<lparr>chan_jobs := []\<rparr>) \<and>
    (is_open ch \<longrightarrow> called (about r es) @ called es' = accepted (about r es)) \<and>
    (\<not> is_open ch \<longrightarrow> called es' = [] \<and> stop_calls (about r es) + stop_calls es' = 1)"
proof -
  have ok: "chan_ok r (about r es) ch" using system_ok_chan [OF reaches_ok [OF assms(1)] assms(2)] by simp
  show ?thesis
  proof (cases "chan_task ch")
    case (Some t)
    with ok have o: "open_ok r (about r es) ch t" by (simp add: chan_ok_def)
    then have "stop_jobs (chan_jobs ch) = 0" "\<forall>(slot, m) \<in> set (pending (chan_jobs ch)). slot < signature_count t"
      and a: "accepted (about r es) = called (about r es) @ pending (chan_jobs ch)"
      by (auto simp: open_ok_def)
    from plain_turns_open [OF assms(2) Some assms(3) this(1,2)]
    obtain es' where "turns b reply r (length (chan_jobs ch)) s = (es', Inr (set_chan r (ch\<lparr>chan_jobs := []\<rparr>) s))"
      "called es' = pending (chan_jobs ch)" by blast
    with a Some show ?thesis
      by (intro exI [of _ es'] exI [of _ "set_chan r (ch\<lparr>chan_jobs := []\<rparr>) s"]) (simp add: is_open_def set_chan_def)
  next
    case None
    with ok have "stop_calls (about r es) + stop_jobs (chan_jobs ch) = 1" by (simp add: chan_ok_def closed_ok_def)
    moreover have "b = Release" using None assms(4) by (simp add: is_open_def)
    ultimately show ?thesis
      using turns_closed [OF assms(2) None, of reply] None by (auto simp: is_open_def set_chan_def)
  qed
qed

lemma task_drains_witness:
  "\<exists>s ch. chans s 1 = Some ch \<and> \<not> is_open ch \<and> length (chan_jobs ch) = 2 \<and>
     (\<exists>es' s'. turns Release echo 1 2 s = (es', Inr s') \<and> called es' = [] \<and> stop_calls es' = 1)"
proof -
  have "\<exists>s ch. execs Release echo example_commands system_init = ([Accepted 1 0 [], Accepted 1 1 [], Called 1 0 [], Stopped 1], Inr s) \<and>
     chans s 1 = Some ch \<and> chan_task ch = None \<and> (\<exists>t. chan_jobs ch = [Deliver 1 [], Stop_Job t])"
    by (simp add: example_commands_def run_defs run_registry_def registry_insert_def)
  then obtain s ch t where e: "execs Release echo example_commands system_init =
      ([Accepted 1 0 [], Accepted 1 1 [], Called 1 0 [], Stopped 1], Inr s)"
    and c: "chans s 1 = Some ch" "chan_task ch = None" "chan_jobs ch = [Deliver 1 [], Stop_Job t]" by blast
  from task_drains [OF reaches_execs [OF reaches.start e] c(1)] c show ?thesis
    by (intro exI [of _ s] exI [of _ ch]) (auto simp: is_open_def plain_job_def numeral_2_eq_2)
qed

text \<open>C27. A channel that was stopped is not guarded against in a build with assertions: the guard reads the
  number of functions of a task that is no longer there, when a message is sent and when the job of a message
  that was accepted before the stop runs.  Without assertions the message is dropped silently, in both places.\<close>

theorem task_closed:
  assumes "chans s r = Some ch" "\<not> is_open ch"
  shows "dispatch Debug r slot m s = ([], Inl Undefined) \<and> dispatch Release r slot m s = ([], Inr s) \<and>
    (\<forall>js. chan_jobs ch = Deliver slot m # js \<longrightarrow>
       run_channel Debug reply r s = ([], Inl Undefined) \<and>
       run_channel Release reply r s = ([], Inr (set_chan r (ch\<lparr>chan_jobs := js\<rparr>) s)))"
  using assms
  by (auto simp: dispatch_def on_chan_def chan_def submit_def is_open_slot_def is_open_def rbind_def set_chan_same
      run_channel_def guarded_def)

lemma task_closed_witness:
  "\<exists>s. fst (execs Debug echo [Create [] 2 1, Dispatch 1 0 [], Stop 1] system_init) = [Accepted 1 0 [], Stopped 1] \<and>
     snd (execs Debug echo [Create [] 2 1, Dispatch 1 0 [], Stop 1] system_init) = Inr s \<and>
     run_channel Debug echo 1 s = ([], Inl Undefined)"
proof -
  have "\<exists>s ch. execs Debug echo [Create [] 2 1, Dispatch 1 0 [], Stop 1] system_init = ([Accepted 1 0 [], Stopped 1], Inr s) \<and>
     chans s 1 = Some ch \<and> \<not> is_open ch \<and> (\<exists>t. chan_jobs ch = [Deliver 0 [], Stop_Job t])"
    by (simp add: run_defs is_open_def)
  then obtain s ch t where "execs Debug echo [Create [] 2 1, Dispatch 1 0 [], Stop 1] system_init = ([Accepted 1 0 [], Stopped 1], Inr s)"
    "chans s 1 = Some ch" "\<not> is_open ch" "chan_jobs ch = [Deliver 0 [], Stop_Job t]" by blast
  with task_closed [of s 1 ch 0 "[]" echo] show ?thesis by auto
qed

text \<open>With numbered slots \<^verbatim>\<open>next\<close> posts a job that refers to its parameters, which are gone by the time it
  runs: the producer is called, what follows is undefined.  With names the result of the producer goes to
  the consumer's slot.\<close>

theorem task_next:
  assumes "chans s r = Some ch" "chan_task ch = Some t" "chan_jobs ch = []"
    "lookup_slot producer (chan_slots ch) = p" "p < signature_count t" "p \<noteq> npos"
    "lookup_slot consumer (chan_slots ch) = c" "c < signature_count t" "c \<noteq> npos"
  shows "(\<exists>s'. next_numbered b r p c m s = ([Accepted r p m], Inr s') \<and>
      run_channel b reply r s' = ([Called r p m], Inl Undefined)) \<and>
    (\<exists>s'. next_named b r producer consumer m s = ([Accepted r p m], Inr s') \<and>
      run_channel b reply r s' =
        ([Called r p m, Accepted r c (reply r p m)], Inr (set_chan r (post (Deliver c (reply r p m)) ch) s)))"
  using assms
  by (auto simp: next_numbered_def next_named_def dispatch_named_def dispatch_def on_chan_def chan_def submit_def is_open_slot_def
      rbind_def post_def set_chan_def run_channel_def guarded_def call_def after_def emit_def boost_assert_def Let_def)

definition example_channel :: channel where
  "example_channel = \<lparr>chan_name = [], chan_slots = set_channel_names [[97], [98]] [],
     chan_task = Some \<lparr>task_id = 1, signature_count = 2, stop_idx = 1\<rparr>, chan_jobs = [], chan_timer = None\<rparr>"

lemma task_next_witness:
  "\<exists>s'. run_channel Debug echo 1 s' = ([Called 1 0 []], Inl Undefined)"
proof -
  have 1: "chans (set_chan 1 example_channel system_init) 1 = Some example_channel" by (simp add: set_chan_def)
  have 2: "chan_task example_channel = Some \<lparr>task_id = 1, signature_count = 2, stop_idx = 1\<rparr>" "chan_jobs example_channel = []"
    "lookup_slot [97] (chan_slots example_channel) = 0" "lookup_slot [98] (chan_slots example_channel) = 1"
    by (simp_all add: example_channel_def set_channel_names_def set_channel_name_def lookup_slot_def)
  from task_next [OF 1 2(1,2,3) _ _ 2(4), of Debug "[]" echo] show ?thesis
    by (auto simp: npos_def)
qed

text \<open>Requests to all channels of a name.\<close>

text \<open>The slot a name has in a channel, and whether a message for it is accepted there.\<close>

definition slot_in :: "byte list \<Rightarrow> system \<Rightarrow> nat \<Rightarrow> nat" where
  "slot_in name s r = (case chans s r of Some ch \<Rightarrow> lookup_slot name (chan_slots ch) | None \<Rightarrow> npos)"

definition takes :: "byte list \<Rightarrow> system \<Rightarrow> nat \<Rightarrow> bool" where
  "takes name s r =
     (case Option.bind (chans s r) chan_task of Some t \<Rightarrow> slot_in name s r < signature_count t | None \<Rightarrow> False)"

lemma slot_in_post:
  assumes "chans s r = Some ch"
  shows "slot_in name (set_chan r (post j ch) s) = slot_in name s" and "takes name (set_chan r (post j ch) s) = takes name s"
proof -
  show 1: "slot_in name (set_chan r (post j ch) s) = slot_in name s"
    using assms by (auto simp: fun_eq_iff slot_in_def set_chan_def post_def)
  have "Option.bind (chans (set_chan r (post j ch) s) q) chan_task = Option.bind (chans s q) chan_task" for q
    using assms by (simp add: set_chan_def post_def)
  then show "takes name (set_chan r (post j ch) s) = takes name s" by (simp add: fun_eq_iff takes_def 1 cong: option.case_cong)
qed

lemma dispatch_named_takes:
  assumes "chans s r = Some ch"
  shows "takes name s r \<Longrightarrow> slot_in name s r \<noteq> npos \<or> b = Release \<Longrightarrow>
      dispatch_named b r name m s =
        ([Accepted r (slot_in name s r) m], Inr (set_chan r (post (Deliver (slot_in name s r) m) ch) s))"
    and "\<not> takes name s r \<Longrightarrow> dispatch_named Release r name m s = ([], Inr s)"
    and "\<not> (takes name s r \<and> slot_in name s r \<noteq> npos) \<Longrightarrow> \<exists>f. dispatch_named Debug r name m s = ([], Inl f)"
  using assms
  by (auto simp: dispatch_named_def dispatch_def on_chan_def chan_def submit_def is_open_slot_def slot_in_def takes_def
      boost_assert_def rbind_def set_chan_same split: option.splits)

lemma dispatch_each:
  assumes "\<forall>r \<in> set rs. chans s r \<noteq> None" "b = Debug \<longrightarrow> (\<forall>r \<in> set rs. takes name s r \<and> slot_in name s r \<noteq> npos)"
  shows "\<exists>s'. each (\<lambda>r. dispatch_named b r name m) s rs =
      (map (\<lambda>r. Accepted r (slot_in name s r) m) (filter (takes name s) rs), Inr s') \<and>
    (\<forall>r. chans s' r = map_option (\<lambda>ch. ch\<lparr>chan_jobs := chan_jobs ch @
       replicate (if takes name s r then count_list rs r else 0) (Deliver (slot_in name s r) m)\<rparr>) (chans s r))"
  using assms
proof (induction rs arbitrary: s)
  case Nil
  have "map_option (\<lambda>ch. ch\<lparr>chan_jobs := chan_jobs ch @ []\<rparr>) x = x" for x :: "channel option" by (cases x) auto
  then show ?case by simp
next
  case (Cons r rs)
  then obtain ch where c: "chans s r = Some ch" by auto
  show ?case
  proof (cases "takes name s r")
    case True
    let ?s = "set_chan r (post (Deliver (slot_in name s r) m) ch) s"
    have 1: "dispatch_named b r name m s = ([Accepted r (slot_in name s r) m], Inr ?s)"
      using Cons.prems(2) by (intro dispatch_named_takes(1) [OF c True]) (cases b; simp)
    note same = slot_in_post [OF c]
    have "\<forall>q \<in> set rs. chans ?s q \<noteq> None" using Cons.prems(1) by (auto simp: set_chan_def)
    from Cons.IH [OF this] Cons.prems(2) obtain s' where
      "each (\<lambda>r. dispatch_named b r name m) ?s rs = (map (\<lambda>r. Accepted r (slot_in name s r) m) (filter (takes name s) rs), Inr s')"
      and q: "\<forall>q. chans s' q = map_option (\<lambda>ch. ch\<lparr>chan_jobs := chan_jobs ch @
         replicate (if takes name s q then count_list rs q else 0) (Deliver (slot_in name s q) m)\<rparr>) (chans ?s q)"
      by (auto simp: same)
    moreover have "chans s' q = map_option (\<lambda>ch. ch\<lparr>chan_jobs := chan_jobs ch @
         replicate (if takes name s q then count_list (r # rs) q else 0) (Deliver (slot_in name s q) m)\<rparr>) (chans s q)" for q
      using q c True by (cases "q = r") (auto simp: set_chan_def post_def)
    ultimately show ?thesis using 1 True by (intro exI [of _ s']) (simp add: after_def emit_def)
  next
    case False
    with Cons.prems(2) have b: "b = Release" by (cases b) auto
    with Cons.IH [of s] Cons.prems(1) obtain s' where
      "each (\<lambda>r. dispatch_named b r name m) s rs = (map (\<lambda>r. Accepted r (slot_in name s r) m) (filter (takes name s) rs), Inr s')"
      and q: "\<forall>q. chans s' q = map_option (\<lambda>ch. ch\<lparr>chan_jobs := chan_jobs ch @
         replicate (if takes name s q then count_list rs q else 0) (Deliver (slot_in name s q) m)\<rparr>) (chans s q)" by auto
    moreover have "chans s' q = map_option (\<lambda>ch. ch\<lparr>chan_jobs := chan_jobs ch @
         replicate (if takes name s q then count_list (r # rs) q else 0) (Deliver (slot_in name s q) m)\<rparr>) (chans s q)" for q
      using q False by (cases "q = r") auto
    ultimately show ?thesis using b False dispatch_named_takes(2) [OF c False, of m] by (intro exI [of _ s']) (simp add: after_def emit_def)
  qed
qed

lemma dispatch_each_fault:
  assumes "\<forall>r \<in> set rs. chans s r \<noteq> None" "\<exists>r \<in> set rs. \<not> (takes name s r \<and> slot_in name s r \<noteq> npos)"
  shows "\<exists>es f. each (\<lambda>r. dispatch_named Debug r name m) s rs = (es, Inl f)"
  using assms
proof (induction rs arbitrary: s)
  case (Cons r rs)
  then obtain ch where c: "chans s r = Some ch" by auto
  show ?case
  proof (cases "takes name s r \<and> slot_in name s r \<noteq> npos")
    case True
    let ?s = "set_chan r (post (Deliver (slot_in name s r) m) ch) s"
    have "\<forall>q \<in> set rs. chans ?s q \<noteq> None" using Cons.prems(1) by (auto simp: set_chan_def)
    with Cons.IH [of ?s] Cons.prems(2) True obtain es f where "each (\<lambda>r. dispatch_named Debug r name m) ?s rs = (es, Inl f)"
      by (auto simp: slot_in_post [OF c])
    with dispatch_named_takes(1) [OF c, of name Debug m] True show ?thesis by (simp add: after_def emit_def)
  next
    case False
    from dispatch_named_takes(3) [OF c False, of m] show ?thesis by (auto simp: after_def)
  qed
qed simp

lemma each_keeps_reg:
  assumes "\<And>r s es s'. f r s = (es, Inr s') \<Longrightarrow> reg_jobs s' = reg_jobs s"
  shows "each f s rs = (es, Inr s') \<Longrightarrow> reg_jobs s' = reg_jobs s"
proof (induction rs arbitrary: s es)
  case (Cons r rs)
  then show ?case by (auto simp: after_eq_ok dest: assms)
qed simp

lemma each_dispatch_reg: "each (\<lambda>r. dispatch_named b r name m) s rs = (es, Inr s') \<Longrightarrow> reg_jobs s' = reg_jobs s"
  by (rule each_keeps_reg)
    (auto simp: dispatch_named_def dispatch_def on_chan_def set_chan_def split: sum.splits if_splits)

lemma lookup_named_living: "r \<in> set (lookup_named name s) \<Longrightarrow> chans s r \<noteq> None"
  by (auto simp: lookup_named_def split: option.splits)

lemma run_dispatch_to:
  "reg_jobs s = Dispatch_To name slot m # js \<Longrightarrow>
   run_registry b s = each (\<lambda>r. dispatch_named b r slot m) (s\<lparr>reg_jobs := js\<rparr>) (lookup_named name s)"
  by (simp add: run_registry_def Let_def lookup_named_def)

text \<open>C28. A request to a name reaches every living channel of that name that is open and in which the function has a
  slot, once for each entry the channel has in the registry, in the order of the registry, and no other channel: its
  queue grows by jobs with the slot the name of the function has in that channel.  A channel that was stopped or has no
  such slot is left out in a build without assertions; with assertions it makes the request fail.\<close>

theorem task_named:
  assumes "reg_jobs s = Dispatch_To name slot m # js"
  shows "if b = Debug \<and> (\<exists>r \<in> set (lookup_named name s). \<not> (takes slot s r \<and> slot_in slot s r \<noteq> npos))
    then \<exists>es f. run_registry b s = (es, Inl f)
    else \<exists>s'. run_registry b s =
        (map (\<lambda>r. Accepted r (slot_in slot s r) m) (filter (takes slot s) (lookup_named name s)), Inr s') \<and> reg_jobs s' = js \<and>
      (\<forall>r. chans s' r = map_option (\<lambda>ch. ch\<lparr>chan_jobs := chan_jobs ch @
         replicate (if takes slot s r then count_list (lookup_named name s) r else 0) (Deliver (slot_in slot s r) m)\<rparr>) (chans s r))"
proof -
  let ?s = "s\<lparr>reg_jobs := js\<rparr>" and ?rs = "lookup_named name s"
  have same: "slot_in slot ?s = slot_in slot s" "takes slot ?s = takes slot s" by (simp_all add: fun_eq_iff slot_in_def takes_def cong: option.case_cong)
  have "\<forall>r \<in> set ?rs. chans ?s r \<noteq> None" using lookup_named_living by simp
  note each = dispatch_each [OF this, of b slot m] dispatch_each_fault [OF this, of slot m]
  note run = run_dispatch_to [OF assms, of b]
  show ?thesis
  proof (cases "b = Debug \<and> (\<exists>r \<in> set ?rs. \<not> (takes slot s r \<and> slot_in slot s r \<noteq> npos))")
    case True
    with each(2) show ?thesis unfolding run same by simp
  next
    case False
    with each(1) obtain s' where s': "each (\<lambda>r. dispatch_named b r slot m) ?s ?rs =
        (map (\<lambda>r. Accepted r (slot_in slot s r) m) (filter (takes slot s) ?rs), Inr s')"
      "\<forall>r. chans s' r = map_option (\<lambda>ch. ch\<lparr>chan_jobs := chan_jobs ch @
         replicate (if takes slot s r then count_list ?rs r else 0) (Deliver (slot_in slot s r) m)\<rparr>) (chans s r)"
      unfolding same by auto
    with each_dispatch_reg [OF s'(1)] False show ?thesis unfolding run by (simp only: if_False) auto
  qed
qed

text \<open>Two channels of a name; in the second the function has another slot.\<close>

lemma task_named_witness:
  "\<exists>s. run_registry Debug ((set_chan 2 (example_channel\<lparr>chan_slots := set_channel_names [[98], [97]] []\<rparr>)
       (set_chan 1 example_channel system_init))\<lparr>reg_list := [(1, 1), (2, 2)], reg_jobs := [Dispatch_To [] [97] [ONull]]\<rparr>)
     = ([Accepted 1 0 [ONull], Accepted 2 1 [ONull]], Inr s)"
proof -
  let ?s = "(set_chan 2 (example_channel\<lparr>chan_slots := set_channel_names [[98], [97]] []\<rparr>)
       (set_chan 1 example_channel system_init))\<lparr>reg_list := [(1, 1), (2, 2)], reg_jobs := [Dispatch_To [] [97] [ONull]]\<rparr>"
  have 1: "lookup_named [] ?s = [1, 2]" by (simp add: lookup_named_def set_chan_def example_channel_def)
  have 2: "slot_in [97] ?s 1 = 0" "slot_in [97] ?s 2 = 1"
    by (simp_all add: slot_in_def set_chan_def example_channel_def set_channel_names_def set_channel_name_def lookup_slot_def)
  then have 3: "takes [97] ?s 1" "takes [97] ?s 2" by (simp_all add: takes_def set_chan_def example_channel_def)
  have "reg_jobs ?s = Dispatch_To [] [97] [ONull] # []" by simp
  from task_named [OF this, of Debug] show ?thesis unfolding 1 using 2 3 by (auto simp: npos_def)
qed
text \<open>Two orders the registry is not prepared for.  A channel created before a shutdown whose request to be
  registered comes up after it is registered all the same and stays open, and the next reset finds the
  registry occupied.  A channel that is stopped before it is registered has lost its id: an assertion fails, or
  it is filed under the id 0.\<close>

theorem task_registry_races:
  assumes "\<not> reg_down s" "reg_list s = []" "reg_jobs s = []"
  shows "(\<exists>s'. execs b reply [Create name n i, Registry_Shutdown, Run_Registry] s = ([], Inr s') \<and>
        reg_down s' \<and> reg_list s' = [(last_id s + 1, last_id s + 1)] \<and>
        (\<exists>ch. chans s' (last_id s + 1) = Some ch \<and> is_open ch) \<and>
        registry_reset Debug s' = ([], Inl Assertion)) \<and>
    snd (execs Debug reply [Create name n i, Stop (last_id s + 1), Run_Registry] s) = Inl Assertion \<and>
    (\<exists>s'. snd (execs Release reply [Create name n i, Stop (last_id s + 1), Run_Registry] s) = Inr s' \<and>
       reg_list s' = [(0, last_id s + 1)])"
  using assms
  by (simp add: run_defs registry_shutdown_def run_registry_def registry_insert_def is_open_def get_id_def registry_reset_def)

lemma task_registry_races_witness:
  "snd (execs Debug echo [Create [] 2 1, Stop 1, Run_Registry] system_init) = Inl Assertion"
  using task_registry_races [of system_init Debug echo "[]" 2 1] by (simp add: system_init_def)

end
