(* ===== verification/Sql.thy ===== *)
theory Sql
  imports Schema Text
begin

text \<open>
  The generator of SQL statements: \<^verbatim>\<open>src/sql/src/sql.cpp\<close>, \<^verbatim>\<open>dialect.cpp\<close>, \<^verbatim>\<open>operators.cpp\<close>, \<^verbatim>\<open>constant.cpp\<close>,
  \<^verbatim>\<open>variable.cpp\<close>, \<^verbatim>\<open>placeholder.cpp\<close> and their headers under \<^verbatim>\<open>include/cyng/sql\<close>.

  A statement is a clause: the list of its words, which are joined at the end.  The objects of the
  generator keep a clause and hand it over when a step is taken; a step gives the clause handed over and
  the one that stays behind.  Type codes are named as in \<open>Object.names\<close>.
\<close>

section \<open>Dialects: dialect.cpp\<close>

datatype dialect = GENERIC | MYSQL | SQLITE | ORACLE | ACCESS | SQLSERVER | POSTGRESQL

datatype feature = IF_NOT_EXISTS | DATE_TIME_SUPPORT

text \<open>\<^verbatim>\<open>boost::algorithm::iequals\<close> in the C locale.\<close>

definition upper_case :: "byte \<Rightarrow> byte" where
  "upper_case c = (if 0x61 \<le> c \<and> c \<le> 0x7A then c - 0x20 else c)"

definition iequals :: "byte list \<Rightarrow> byte list \<Rightarrow> bool" where
  "iequals s t \<longleftrightarrow> map upper_case s = map upper_case t"

definition get_dialect :: "byte list \<Rightarrow> dialect" where
  "get_dialect name =
     (if iequals name (str ''MYSQL'') then MYSQL
      else if iequals name (str ''SQLITE'') \<or> iequals name (str ''SQLITE3'') then SQLITE
      else if iequals name (str ''ORACLE'') then ORACLE
      else if iequals name (str ''ACCESS'') \<or> iequals name (str ''MSACCESS'') then ACCESS
      else if iequals name (str ''SQLSERVER'') \<or> iequals name (str ''MSSQLServer'') \<or> iequals name (str ''MSSQL'') then SQLSERVER
      else if iequals name (str ''POSTGRESQL'') \<or> iequals name (str ''POSTGRES'') \<or> iequals name (str ''PGSQL'') then POSTGRESQL
      else GENERIC)"

fun has_feature :: "dialect \<Rightarrow> feature \<Rightarrow> bool" where
  "has_feature d IF_NOT_EXISTS \<longleftrightarrow> d \<in> {MYSQL, SQLITE, POSTGRESQL}"
| "has_feature d DATE_TIME_SUPPORT \<longleftrightarrow> d \<noteq> SQLITE"

text \<open>The names of types, one table for each switch.\<close>

definition mysql_types :: "(string \<times> string) list" where
  "mysql_types =
    [(''bool'', ''TINYINT(1)''), (''char'', ''TINYINT  UNSIGNED''), (''i8'', ''TINYINT  UNSIGNED''),
     (''u8'', ''TINYINT''), (''i16'', ''SMALLINT''), (''u16'', ''SMALLINT UNSIGNED''), (''i32'', ''INT''),
     (''u32'', ''INT UNSIGNED''), (''i64'', ''BIGINT''), (''u64'', ''BIGINT UNSIGNED''), (''f'', ''FLOAT''),
     (''d'', ''DOUBLE''), (''ld'', ''DOUBLE''), (''chrono:tp'', ''DATETIME''), (''chrono:ns'', ''BIGINT''),
     (''chrono:us'', ''BIGINT''), (''chrono:ms'', ''BIGINT''), (''chrono:sec'', ''BIGINT''),
     (''chrono:min'', ''BIGINT''), (''chrono:h'', ''BIGINT''), (''v'', ''INT UNSIGNED''),
     (''r'', ''BIGINT UNSIGNED''), (''op'', ''INT UNSIGNED''), (''binary'', ''BLOB''),
     (''mac48'', ''CHAR(17)''), (''mac64'', ''CHAR(19)''), (''pid'', ''BIGINT''), (''obis'', ''INT UNSIGNED''),
     (''edis'', ''CHAR(8)''), (''crypto:MD5'', ''CHAR(32)''), (''crypto:SHA1'', ''CHAR(40)''),
     (''crypto:SHA256'', ''CHAR(64)''), (''crypto:SHA512'', ''CHAR(128)''), (''crypto::AES128'', ''CHAR(32)''),
     (''crypto::AES192'', ''CHAR(48)''), (''crypto::AES256'', ''CHAR(64)''), (''amap'', ''TEXT''),
     (''pmap'', ''TEXT''), (''attr'', ''TEXT''), (''param'', ''TEXT''), (''tpl'', ''TEXT''),
     (''vec'', ''TEXT''), (''deque'', ''TEXT''), (''uuid'', ''CHAR(36)''), (''fs:path'', ''VARCHAR(1024)''),
     (''ec'', ''INT UNSIGNED''), (''ip:tcp:ep'', ''CHAR(48)''), (''ip:udp:ep'', ''CHAR(48)''),
     (''ip:icmp:ep'', ''CHAR(48)''), (''ip:address'', ''CHAR(40)'')]"

definition sqlite_types :: "(string \<times> string) list" where
  "sqlite_types =
    [(''bool'', ''INT''), (''char'', ''INT''), (''i8'', ''INT''), (''u8'', ''INT''), (''i16'', ''INT''),
     (''u16'', ''INT''), (''i32'', ''INT''), (''u32'', ''INT''), (''i64'', ''INT''), (''u64'', ''INT''),
     (''f'', ''FLOAT''), (''d'', ''FLOAT''), (''ld'', ''FLOAT''), (''s'', ''TEXT''),
     (''chrono:tp'', ''FLOAT''), (''chrono:ns'', ''INT''), (''chrono:us'', ''INT''), (''chrono:ms'', ''INT''),
     (''chrono:sec'', ''INT''), (''chrono:min'', ''INT''), (''chrono:h'', ''INT''), (''v'', ''INT''),
     (''r'', ''INT''), (''op'', ''INT''), (''binary'', ''BLOB''), (''mac48'', ''TEXT''), (''mac64'', ''TEXT''),
     (''pid'', ''INT''), (''obis'', ''INT''), (''edis'', ''TEXT''), (''crypto:MD5'', ''TEXT''),
     (''crypto:SHA1'', ''TEXT''), (''crypto:SHA256'', ''TEXT''), (''crypto:SHA512'', ''TEXT''),
     (''crypto::AES128'', ''TEXT''), (''crypto::AES192'', ''TEXT''), (''crypto::AES256'', ''TEXT''),
     (''amap'', ''TEXT''), (''pmap'', ''TEXT''), (''attr'', ''TEXT''), (''param'', ''TEXT''),
     (''tpl'', ''TEXT''), (''vec'', ''TEXT''), (''deque'', ''TEXT''), (''uuid'', ''TEXT''),
     (''fs:path'', ''TEXT''), (''ip:tcp:ep'', ''TEXT''), (''ip:udp:ep'', ''TEXT''), (''ip:icmp:ep'', ''TEXT''),
     (''ip:address'', ''TEXT'')]"

definition oracle_types :: "(string \<times> string) list" where
  "oracle_types =
    [(''bool'', ''BIT(1)''), (''char'', ''TINYINT''), (''i8'', ''TINYINT''), (''u8'', ''UNSIGNED TINYINT''),
     (''i16'', ''SMALLINT''), (''u16'', ''UNSIGNED SMALLINT''), (''i32'', ''INTEGER''),
     (''u32'', ''UNSIGNED INTEGER''), (''i64'', ''BIGINT''), (''u64'', ''UNSIGNED BIGINT''), (''f'', ''REAL''),
     (''d'', ''DOUBLE''), (''ld'', ''DOUBLE''), (''chrono:tp'', ''DATETIME''), (''chrono:ns'', ''BIGINT''),
     (''chrono:us'', ''BIGINT''), (''chrono:ms'', ''BIGINT''), (''chrono:sec'', ''BIGINT''),
     (''chrono:min'', ''BIGINT''), (''chrono:h'', ''BIGINT''), (''v'', ''UNSIGNED INTEGER''),
     (''r'', ''UNSIGNED BIGINT''), (''op'', ''UNSIGNED INTEGER''), (''binary'', ''BLOB''),
     (''mac48'', ''CHAR(17)''), (''mac64'', ''CHAR(19)''), (''pid'', ''BIGINT''),
     (''obis'', ''UNSIGNED INTEGER''), (''edis'', ''CHAR(8)''), (''crypto:MD5'', ''CHAR(32)''),
     (''crypto:SHA1'', ''CHAR(40)''), (''crypto:SHA256'', ''CHAR(64)''), (''crypto:SHA512'', ''CHAR(128)''),
     (''crypto::AES128'', ''CHAR(32)''), (''crypto::AES192'', ''CHAR(48)''),
     (''crypto::AES256'', ''CHAR(64)''), (''amap'', ''VARCHAR(2048)''), (''pmap'', ''VARCHAR(2048)''),
     (''attr'', ''VARCHAR(512)''), (''param'', ''VARCHAR(512)''), (''tpl'', ''VARCHAR(2048)''),
     (''vec'', ''VARCHAR(2048)''), (''deque'', ''VARCHAR(2048)''), (''uuid'', ''CHAR(36)''),
     (''fs:path'', ''CHAR(1024)'')]"

definition sqlserver_types :: "(string \<times> string) list" where
  "sqlserver_types =
    [(''bool'', ''BIT''), (''char'', ''SMALLINT''), (''i8'', ''SMALLINT''), (''u8'', ''TINYINT''),
     (''i16'', ''SMALLINT''), (''u16'', ''INTEGER''), (''i32'', ''INT''), (''u32'', ''INTEGER''),
     (''i64'', ''BIGINT''), (''u64'', ''BIGINT''), (''f'', ''REAL''), (''d'', ''FLOAT(24)''),
     (''ld'', ''FLOAT(53)''), (''chrono:tp'', ''DATETIME''), (''chrono:ns'', ''BIGINT''),
     (''chrono:us'', ''BIGINT''), (''chrono:ms'', ''BIGINT''), (''chrono:sec'', ''BIGINT''),
     (''chrono:min'', ''BIGINT''), (''chrono:h'', ''BIGINT''), (''v'', ''INT''), (''r'', ''INT''),
     (''op'', ''INT''), (''binary'', ''BLOB''), (''mac48'', ''CHAR(17)''), (''mac64'', ''CHAR(19)''),
     (''pid'', ''BIGINT''), (''obis'', ''INTEGER''), (''edis'', ''CHAR(8)''), (''crypto:MD5'', ''CHAR(32)''),
     (''crypto:SHA1'', ''CHAR(40)''), (''crypto:SHA256'', ''CHAR(64)''), (''crypto:SHA512'', ''CHAR(128)''),
     (''crypto::AES128'', ''CHAR(32)''), (''crypto::AES192'', ''CHAR(48)''),
     (''crypto::AES256'', ''CHAR(64)''), (''amap'', ''VARCHAR(2048)''), (''pmap'', ''VARCHAR(2048)''),
     (''attr'', ''VARCHAR(512)''), (''param'', ''VARCHAR(512)''), (''tpl'', ''VARCHAR(2048)''),
     (''vec'', ''VARCHAR(2048)''), (''deque'', ''VARCHAR(2048)''), (''uuid'', ''CHAR(36)''),
     (''fs:path'', ''CHAR(1024)'')]"

definition postgresql_types :: "(string \<times> string) list" where
  "postgresql_types =
    [(''bool'', ''bool''), (''char'', ''smallint''), (''i8'', ''smallint''), (''u8'', ''smallint''),
     (''i16'', ''smallint''), (''u16'', ''smallint''), (''i32'', ''integer''), (''u32'', ''integer''),
     (''i64'', ''bigint''), (''u64'', ''bigint''), (''f'', ''real''), (''d'', ''double precision''),
     (''ld'', ''double precision''), (''chrono:tp'', ''timestamp''), (''chrono:ns'', ''bigint''),
     (''chrono:us'', ''bigint''), (''chrono:ms'', ''bigint''), (''chrono:sec'', ''bigint''),
     (''chrono:min'', ''bigint''), (''chrono:h'', ''bigint''), (''v'', ''bigint''), (''r'', ''bigint''),
     (''op'', ''integer''), (''mac48'', ''macaddr''), (''mac64'', ''macaddr''), (''pid'', ''bigint''),
     (''obis'', ''integer''), (''edis'', ''TEXT''), (''crypto:MD5'', ''char(32)''),
     (''crypto:SHA1'', ''char(40)''), (''crypto:SHA256'', ''char(64)''), (''crypto:SHA512'', ''char(128)''),
     (''crypto::AES128'', ''char(32)''), (''crypto::AES192'', ''char(48)''),
     (''crypto::AES256'', ''char(64)''), (''amap'', ''text''), (''pmap'', ''text''), (''attr'', ''text''),
     (''param'', ''text''), (''tpl'', ''text''), (''vec'', ''text''), (''deque'', ''text''),
     (''uuid'', ''uuid''), (''fs:path'', ''varchar(1024)'')]"

definition generic_types :: "(string \<times> string) list" where
  "generic_types =
    [(''bool'', ''SMALLINT''), (''char'', ''SMALLINT''), (''i8'', ''SMALLINT''),
     (''u8'', ''INTEGER UNSIGNED''), (''i16'', ''INTEGER''), (''u16'', ''INTEGER UNSIGNED''),
     (''i32'', ''INTEGER''), (''u32'', ''INTEGER UNSIGNED''), (''i64'', ''INTEGER''),
     (''u64'', ''BIGINT UNSIGNED''), (''f'', ''FLOAT''), (''d'', ''REAL''), (''ld'', ''DOUBLE''),
     (''chrono:tp'', ''DATETIME''), (''chrono:ns'', ''INTEGER''), (''chrono:us'', ''INTEGER''),
     (''chrono:ms'', ''INTEGER''), (''chrono:sec'', ''INTEGER''), (''chrono:min'', ''INTEGER''),
     (''chrono:h'', ''INTEGER''), (''v'', ''INTEGER UNSIGNED''), (''r'', ''BIGINT UNSIGNED''),
     (''op'', ''INTEGER UNSIGNED''), (''binary'', ''BIT VARYING''), (''mac48'', ''CHARACTER(17)''),
     (''mac64'', ''CHARACTER(19)''), (''pid'', ''INTEGER''), (''obis'', ''INTEGER UNSIGNED''),
     (''edis'', ''CHARACTER(8)''), (''crypto:MD5'', ''CHARACTER(32)''), (''crypto:SHA1'', ''CHARACTER(40)''),
     (''crypto:SHA256'', ''CHARACTER(64)''), (''crypto:SHA512'', ''CHARACTER(128)''),
     (''crypto::AES128'', ''CHARACTER(32)''), (''crypto::AES192'', ''CHARACTER(48)''),
     (''crypto::AES256'', ''CHARACTER(64)''), (''amap'', ''VARCHAR(2048)''), (''pmap'', ''VARCHAR(2048)''),
     (''attr'', ''VARCHAR(512)''), (''param'', ''VARCHAR(512)''), (''tpl'', ''VARCHAR(2048)''),
     (''vec'', ''VARCHAR(2048)''), (''deque'', ''VARCHAR(2048)''), (''uuid'', ''CHARACTER(36)''),
     (''fs:path'', ''VARCHAR(1024)'')]"

definition field_types :: "dialect \<Rightarrow> (string \<times> string) list" where
  "field_types d =
     (case d of MYSQL \<Rightarrow> mysql_types | SQLITE \<Rightarrow> sqlite_types | ORACLE \<Rightarrow> oracle_types | SQLSERVER \<Rightarrow> sqlserver_types
      | POSTGRESQL \<Rightarrow> postgresql_types | _ \<Rightarrow> generic_types)"

definition sized :: "build \<Rightarrow> string \<Rightarrow> nat \<Rightarrow> byte list result" where
  "sized b prefix width =
     rbind (boost_assert b (width \<noteq> 0)) (\<lambda>_. Inr (str prefix @ str ''('' @ show_base 10 width @ str '')''))"

definition get_field_type :: "build \<Rightarrow> dialect \<Rightarrow> nat \<Rightarrow> nat \<Rightarrow> byte list result" where
  "get_field_type b d code width =
     (let name = intrinsic_name_by_type_code code;
          listed = (case map_of (field_types d) name of Some t \<Rightarrow> str t | None \<Rightarrow> str ''BLOB'') in
      if name = ''s'' \<and> d \<noteq> SQLITE then sized b (if d = GENERIC \<or> d = ACCESS then ''CHARACTER'' else ''VARCHAR'') width
      else if name = ''binary'' \<and> d = POSTGRESQL then sized b ''bit varying'' width
      else if name = ''uuid'' \<and> d = MYSQL then
        rbind (boost_assert b (width = 36 \<or> width = 2 ^ 64 - 1)) (\<lambda>_. Inr listed)
      else if name = ''fs:path'' \<and> d = MYSQL then
        rbind (boost_assert b (width = 1024 \<or> width = 2 ^ 64 - 1)) (\<lambda>_. Inr listed)
      else Inr listed)"

section \<open>Clauses: sql.cpp\<close>

type_synonym clause = "byte list list"

definition time_point_code :: nat where "time_point_code = 16"

definition substitute_ph :: "dialect \<Rightarrow> nat \<Rightarrow> byte list" where
  "substitute_ph d code = (if d = SQLITE \<and> code = time_point_code then str ''julianday(?)'' else str ''?'')"

definition substitute_dt :: "byte list \<Rightarrow> dialect \<Rightarrow> nat \<Rightarrow> byte list" where
  "substitute_dt name d code =
     (if d = SQLITE \<and> code = time_point_code then str ''datetime('' @ name @ str '')'' else name)"

text \<open>\<^verbatim>\<open>base::to_string\<close>: no blank before a comma and an opening bracket, nor between two closing brackets.\<close>

definition is_between_brackets :: "byte list \<Rightarrow> byte list \<Rightarrow> bool" where
  "is_between_brackets s e \<longleftrightarrow> e = str '')'' \<and> s \<noteq> [] \<and> [last s] = str '')''"

fun join_words :: "byte list \<Rightarrow> clause \<Rightarrow> byte list" where
  "join_words s [] = s"
| "join_words s (e # es) =
     join_words (s @ (if e \<noteq> str '','' \<and> e \<noteq> str ''('' \<and> \<not> is_between_brackets s e then str '' '' else []) @ e) es"

definition sql_text :: "clause \<Rightarrow> byte list" where
  "sql_text c = (case c of [] \<Rightarrow> [] | e # es \<Rightarrow> join_words e es)"

definition do_skip :: "dialect \<Rightarrow> byte list \<Rightarrow> bool" where
  "do_skip d name \<longleftrightarrow> d = SQLITE \<and> name = str ''ROWID''"

text \<open>The loops that put a separator before each entry but the first.\<close>

fun separated :: "byte list \<Rightarrow> clause list \<Rightarrow> clause" where
  "separated sep [] = []"
| "separated sep [x] = x"
| "separated sep (x # xs) = x @ [sep] @ separated sep xs"

definition pk_columns :: "meta_sql \<Rightarrow> column_sql list" where
  "pk_columns m = map (fst \<circ> snd) (filter (snd \<circ> snd) (meta_loop m))"

definition body_columns :: "meta_sql \<Rightarrow> column_sql list" where
  "body_columns m = map (fst \<circ> snd) (filter (Not \<circ> snd \<circ> snd) (meta_loop m))"

definition own_columns :: "dialect \<Rightarrow> meta_sql \<Rightarrow> column_sql list" where
  "own_columns d m = filter (\<lambda>col. \<not> do_skip d (col_name col)) (map (fst \<circ> snd) (meta_loop m))"

definition null_column_sql :: column_sql where
  "null_column_sql = \<lparr>col_name = [], col_type = TC_EOD, col_width = 0\<rparr>"

definition get_column_name :: "meta_sql \<Rightarrow> nat \<Rightarrow> byte list" where
  "get_column_name m i = (if i < meta_size m then col_name (columns m ! i) else show_base 10 i)"

definition get_column_sql :: "meta_sql \<Rightarrow> nat \<Rightarrow> column_sql" where
  "get_column_sql m i = (if i < meta_size m then columns m ! i else null_column_sql)"

definition get_body_column_sql :: "meta_sql \<Rightarrow> nat \<Rightarrow> column_sql" where
  "get_body_column_sql m i = (if i < meta_size m - pk_size m then columns m ! (i + pk_size m) else null_column_sql)"

text \<open>SELECT: \<^verbatim>\<open>all()\<close> moves the clause out and does not start a new one.\<close>

definition select_init :: clause where
  "select_init = [str ''SELECT'']"

definition sql_from :: "clause \<Rightarrow> clause" where
  "sql_from c = c @ [str ''FROM'']"

definition select_all :: "clause \<Rightarrow> clause \<times> clause" where
  "select_all c = (sql_from (c @ [str ''*'']), [])"

definition select_columns :: "dialect \<Rightarrow> meta_sql \<Rightarrow> bool \<Rightarrow> clause \<Rightarrow> clause \<times> clause" where
  "select_columns d m qualified c =
     (sql_from (c @ separated (str '','') (map (\<lambda>(idx, col, pk).
        [substitute_dt (if qualified then meta_name m @ str ''.'' @ col_name col else col_name col) d (col_type col)]) (meta_loop m))),
      select_init)"

definition select_count :: "clause \<Rightarrow> clause \<times> clause" where
  "select_count c = (sql_from (c @ [str ''COUNT(*)'']), select_init)"

definition select_sum :: "byte list \<Rightarrow> clause \<Rightarrow> clause \<times> clause" where
  "select_sum col c = (sql_from (c @ [str ''SUM('' @ col @ str '')'']), select_init)"

definition select_avg :: "byte list \<Rightarrow> clause \<Rightarrow> clause \<times> clause" where
  "select_avg col c = (sql_from (c @ [str ''AVG('' @ col @ str '')'']), select_init)"

definition select_sum_at :: "meta_sql \<Rightarrow> nat \<Rightarrow> clause \<Rightarrow> clause \<times> clause" where
  "select_sum_at m i = select_sum (get_column_name m i)"

definition select_avg_at :: "meta_sql \<Rightarrow> nat \<Rightarrow> clause \<Rightarrow> clause \<times> clause" where
  "select_avg_at m i = select_avg (get_column_name m i)"

definition from_table :: "byte list \<Rightarrow> clause \<Rightarrow> clause \<times> clause" where
  "from_table name c = (c @ [name], [str ''FROM''])"

text \<open>WHERE and ORDER BY: the clause is moved out.\<close>

definition where_cond :: "byte list \<Rightarrow> clause \<Rightarrow> clause \<times> clause" where
  "where_cond cond c = (c @ [str ''WHERE'', cond], [])"

definition where_pk :: "dialect \<Rightarrow> meta_sql \<Rightarrow> clause \<Rightarrow> clause \<times> clause" where
  "where_pk d m c =
     (c @ [str ''WHERE''] @
        separated (str ''AND'') (map (\<lambda>col. [col_name col, str ''='', substitute_ph d (col_type col)]) (pk_columns m)), [])"

definition order_by :: "byte list \<Rightarrow> clause \<Rightarrow> clause \<times> clause" where
  "order_by cond c = (c @ [str ''ORDER'', str ''BY'', cond], [])"

text \<open>A condition given as a string literal goes to \<^verbatim>\<open>order_by\<close>.\<close>

definition where_literal :: "byte list \<Rightarrow> clause \<Rightarrow> clause \<times> clause" where
  "where_literal cond = order_by cond"

text \<open>CREATE and DROP.\<close>

fun create_columns :: "build \<Rightarrow> dialect \<Rightarrow> column_sql list \<Rightarrow> clause list result" where
  "create_columns b d [] = Inr []"
| "create_columns b d (col # cols) =
     rbind (get_field_type b d (col_type col) (col_width col)) (\<lambda>t.
     rbind (create_columns b d cols) (\<lambda>ts. Inr ([col_name col, t] # ts)))"

definition create_pks :: "meta_sql \<Rightarrow> clause" where
  "create_pks m =
     [str '','', str ''PRIMARY KEY'', str ''(''] @ separated (str '','') (map (\<lambda>col. [col_name col]) (pk_columns m)) @ [str '')'']"

definition sql_create :: "build \<Rightarrow> dialect \<Rightarrow> meta_sql \<Rightarrow> clause result" where
  "sql_create b d m =
     rbind (create_columns b d (own_columns d m)) (\<lambda>cols. Inr (
       [str ''CREATE'', str ''TABLE''] @ (if has_feature d IF_NOT_EXISTS then [str ''IF NOT EXISTS''] else []) @
       [meta_name m, str ''(''] @ separated (str '','') cols @ (if has_pk m then create_pks m else []) @ [str '')'']))"

definition sql_drop :: "dialect \<Rightarrow> meta_sql \<Rightarrow> clause" where
  "sql_drop d m =
     [str ''DROP'', str ''TABLE''] @ (if has_feature d IF_NOT_EXISTS then [str ''IF EXISTS''] else []) @ [meta_name m]"

text \<open>INSERT.\<close>

definition insert_columns :: "dialect \<Rightarrow> meta_sql \<Rightarrow> clause" where
  "insert_columns d m = [str ''(''] @ separated (str '','') (map (\<lambda>col. [col_name col]) (own_columns d m)) @ [str '')'']"

definition insert_init :: "dialect \<Rightarrow> meta_sql \<Rightarrow> clause" where
  "insert_init d m = [str ''INSERT'', str ''INTO'', meta_name m] @ insert_columns d m"

definition bind_values :: "dialect \<Rightarrow> meta_sql \<Rightarrow> clause \<Rightarrow> clause \<times> clause" where
  "bind_values d m c =
     (c @ [str ''VALUES'', str ''(''] @
        separated (str '','') (map (\<lambda>col. [substitute_ph d (col_type col)]) (own_columns d m)) @ [str '')''], insert_init d m)"

text \<open>Values written into the statement (\<^verbatim>\<open>convert.hpp\<close>); a string comes in double quotes.\<close>

datatype sql_value = Value_String "byte list" | Value_Literal "byte list" | Value_Time "byte list" | Value_Other "byte list"

definition to_sql_value :: "sql_value \<Rightarrow> byte list" where
  "to_sql_value v =
     (case v of
        Value_String s \<Rightarrow> str [CHR 0x22] @ s @ str [CHR 0x22]
      | Value_Literal s \<Rightarrow> [0x27] @ s @ [0x27]
      | Value_Time s \<Rightarrow> str ''datetime('' @ s @ str '')''
      | Value_Other s \<Rightarrow> s)"

definition insert_values :: "build \<Rightarrow> dialect \<Rightarrow> meta_sql \<Rightarrow> sql_value list \<Rightarrow> clause \<Rightarrow> (clause \<times> clause) result" where
  "insert_values b d m vs c =
     rbind (boost_assert b (meta_size m = length vs)) (\<lambda>_.
     Inr (c @ [str ''VALUES'', str ''(''] @ separated (str '','') (map (\<lambda>v. [to_sql_value v]) vs) @ [str '')''], insert_init d m))"

text \<open>UPDATE: the whole body, or one column of it, with \<^verbatim>\<open>gen\<close>.\<close>

definition update_init :: "meta_sql \<Rightarrow> clause" where
  "update_init m = [str ''UPDATE'', meta_name m]"

definition set_entry :: "dialect \<Rightarrow> column_sql \<Rightarrow> clause" where
  "set_entry d col = [col_name col, str ''='', substitute_ph d (col_type col)]"

definition set_placeholder :: "dialect \<Rightarrow> meta_sql \<Rightarrow> clause \<Rightarrow> clause \<times> clause" where
  "set_placeholder d m c = (c @ [str ''SET''] @ separated (str '','') (map (set_entry d) (body_columns m)), update_init m)"

definition set_placeholder_at :: "build \<Rightarrow> dialect \<Rightarrow> meta_sql \<Rightarrow> nat \<Rightarrow> clause \<Rightarrow> (clause \<times> clause) result" where
  "set_placeholder_at b d m i c =
     rbind (boost_assert b (i < meta_size m - pk_size m)) (\<lambda>_.
     let col = get_body_column_sql m (i + 1); gen = get_column_sql m (pk_size m) in
     rbind (boost_assert b (col_name gen = str ''gen'')) (\<lambda>_.
     Inr (c @ [str ''SET''] @ set_entry d col @ [str '',''] @ set_entry d gen, update_init m)))"

text \<open>DELETE: the clause is copied.\<close>

definition remove_init :: "meta_sql \<Rightarrow> clause" where
  "remove_init m = [str ''DELETE'', str ''FROM'', meta_name m]"

definition remove_self :: "clause \<Rightarrow> clause \<times> clause" where
  "remove_self c = (c, c)"

definition remove_where :: "byte list \<Rightarrow> clause \<Rightarrow> clause \<times> clause" where
  "remove_where cond c = (fst (where_cond cond (fst (remove_self c))), c)"

definition remove_where_pk :: "dialect \<Rightarrow> meta_sql \<Rightarrow> clause \<Rightarrow> clause \<times> clause" where
  "remove_where_pk d m c = (fst (where_pk d m (fst (remove_self c))), c)"

section \<open>Expressions: the dsl directory\<close>

datatype sql_op = GT | LT | EQ | NE | LE | GE | MUL | DIV | ADD | SUB | LAND | LOR

fun op_text :: "sql_op \<Rightarrow> byte list" where
  "op_text GT = str ''>''"
| "op_text LT = str ''<''"
| "op_text EQ = str ''=''"
| "op_text NE = str ''<>''"
| "op_text LE = str ''<=''"
| "op_text GE = str ''>=''"
| "op_text MUL = str ''*''"
| "op_text DIV = str ''/''"
| "op_text ADD = str ''+''"
| "op_text SUB = str ''-''"
| "op_text LAND = str ''AND''"
| "op_text LOR = str ''OR''"

text \<open>
  Constants and variables print alike.  A value of another type is given by its text; the printer of time
  points is a parameter.
\<close>

datatype expr =
    Text_Const "byte list"
  | Bool_Const bool
  | Time_Const u64
  | Other_Const "byte list"
  | Placeholder "byte list"
  | Binary sql_op expr expr

fun expr_text :: "(u64 \<Rightarrow> byte list) \<Rightarrow> dialect \<Rightarrow> meta_sql \<Rightarrow> expr \<Rightarrow> byte list" where
  "expr_text put_time d m (Text_Const s) = [0x27] @ s @ [0x27]"
| "expr_text put_time d m (Bool_Const v) =
     (if d = SQLITE then (if v then str ''1'' else str ''0'') else (if v then str ''TRUE'' else str ''FALSE''))"
| "expr_text put_time d m (Time_Const tp) =
     (if d = SQLITE then str ''julianday('' @ [0x27] @ put_time tp @ [0x27] @ str '')'' else put_time tp)"
| "expr_text put_time d m (Other_Const s) = s"
| "expr_text put_time d m (Placeholder name) =
     substitute_ph d (col_type (get_column_sql m (unat (get_index_by_name m name))))"
| "expr_text put_time d m (Binary f l r) =
     str ''('' @ expr_text put_time d m l @ str '' '' @ op_text f @ str '' '' @ expr_text put_time d m r @ str '')''"

definition where_expr :: "(u64 \<Rightarrow> byte list) \<Rightarrow> dialect \<Rightarrow> meta_sql \<Rightarrow> expr \<Rightarrow> clause \<Rightarrow> clause \<times> clause" where
  "where_expr put_time d m e = where_cond (expr_text put_time d m e)"

section \<open>What the statements mean\<close>

text \<open>
  An INSERT statement read as SQL reads it: a list of names in brackets, VALUES, a list of placeholders in
  brackets; the values bound to the placeholders, in order, go to the columns of these names, in order.
\<close>

definition placeholders :: "byte list set" where
  "placeholders = {str ''?'', str ''julianday(?)''}"

fun items :: "clause \<Rightarrow> (clause \<times> clause) option" where
  "items (x # y # ys) =
     (if y = str '','' then map_option (\<lambda>(xs, rest). (x # xs, rest)) (items ys)
      else if y = str '')'' then Some ([x], ys) else None)"
| "items _ = None"

fun in_brackets :: "clause \<Rightarrow> (clause \<times> clause) option" where
  "in_brackets (x # xs) = (if x = str ''('' then items xs else None)"
| "in_brackets [] = None"

definition insert_meaning :: "clause \<Rightarrow> 'v list \<Rightarrow> (byte list \<times> (byte list \<times> 'v) list) option" where
  "insert_meaning c vs =
     (case c of
        x1 # x2 # table # rest \<Rightarrow>
          (case in_brackets rest of
             Some (ns, x3 # rest2) \<Rightarrow>
               (case in_brackets rest2 of
                  Some (phs, []) \<Rightarrow>
                    if [x1, x2, x3] = [str ''INSERT'', str ''INTO'', str ''VALUES''] \<and> set phs \<subseteq> placeholders \<and>
                      length ns = length phs \<and> length vs = length phs then Some (table, zip ns vs) else None
                | _ \<Rightarrow> None)
           | _ \<Rightarrow> None)
      | _ \<Rightarrow> None)"

lemma brackets_differ [simp]:
  "str '')'' \<noteq> str '',''" "str '','' \<noteq> str '')''" "str ''('' \<noteq> str '',''" "str ''='' \<noteq> str '',''" "str '','' \<noteq> str ''=''"
  by (simp_all add: str_def byte_of_char_def)

lemma items_separated:
  "xs \<noteq> [] \<Longrightarrow> items (separated (str '','') (map (\<lambda>x. [f x]) xs) @ str '')'' # rest) = Some (map f xs, rest)"
  by (induction xs rule: induct_list012) auto

lemma substitute_ph_placeholder: "substitute_ph d code \<in> placeholders"
  by (simp add: substitute_ph_def placeholders_def)

lemma loop_columns: "map (fst \<circ> snd) (meta_loop m) = columns m"
proof -
  have "map (fst \<circ> snd) (meta_loop m) = map snd (enumerate 0 (columns m))"
    by (simp add: meta_loop_def case_prod_beta comp_def)
  then show ?thesis by simp
qed

text \<open>The names after which a placeholder is assigned or compared, in the order of the placeholders.\<close>

fun assigned :: "clause \<Rightarrow> clause" where
  "assigned (n # e # p # c) = (if e = str ''='' \<and> p \<in> placeholders then n # assigned c else assigned (e # p # c))"
| "assigned _ = []"

definition no_eq :: "clause \<Rightarrow> bool" where
  "no_eq c \<longleftrightarrow> c = [] \<or> hd c \<noteq> str ''=''"

lemma no_eq_simps [simp]: "no_eq []" "no_eq (w # c) \<longleftrightarrow> w \<noteq> str ''=''"
  by (simp_all add: no_eq_def)

lemma assigned_skip: "no_eq c \<Longrightarrow> assigned (w # c) = assigned c"
  by (cases c; cases "tl c") (auto simp: no_eq_def)

lemma assigned_entry: "assigned (set_entry d col @ c) = col_name col # assigned c"
  by (simp add: set_entry_def substitute_ph_placeholder)

lemma no_eq_entries:
  "\<forall>col \<in> set cols. col_name col \<noteq> str ''='' \<Longrightarrow> no_eq c \<Longrightarrow> no_eq (separated sep (map (set_entry d) cols) @ c)"
  by (cases cols rule: remdups_adj.cases) (simp_all add: set_entry_def)

lemma assigned_entries:
  assumes "sep \<noteq> str ''=''" "\<forall>col \<in> set cols. col_name col \<noteq> str ''=''" "no_eq c"
  shows "assigned (separated sep (map (set_entry d) cols) @ c) = map col_name cols @ assigned c"
  using assms(2)
proof (induction cols rule: induct_list012)
  case (3 col col' cols)
  have "assigned (sep # separated sep (map (set_entry d) (col' # cols)) @ c) =
      assigned (separated sep (map (set_entry d) (col' # cols)) @ c)"
    using 3 assms(3) by (intro assigned_skip no_eq_entries) auto
  with 3 show ?case by (simp add: assigned_entry)
qed (simp_all add: assigned_entry)

lemma enumerate_split:
  fixes cs :: "'c list"
  shows "map snd (filter (\<lambda>p. fst p < n) (enumerate k cs)) = take (n - k) cs \<and>
    map snd (filter (\<lambda>p. \<not> fst p < n) (enumerate k cs)) = drop (n - k) cs"
proof (induction cs arbitrary: k)
  case Nil
  then show ?case by simp
next
  case (Cons c cs)
  have "n - k = Suc (n - Suc k)" if "k < n" using that by simp
  with Cons.IH [of "Suc k"] show ?case by (cases "k < n") auto
qed

lemma key_and_body: "pk_columns m = take (pk_size m) (columns m)" "body_columns m = drop (pk_size m) (columns m)"
  using enumerate_split [of "pk_size m" 0 "columns m"]
  by (simp_all add: pk_columns_def body_columns_def meta_loop_def filter_map comp_def case_prod_unfold)

text \<open>C29. The generated statements mean what they are made for.  An INSERT whose placeholders are bound to the
  values of the columns gives each column its own value, and the generator is ready for the next statement;
  an UPDATE of a whole row by its key takes the values of the body first and those of the
  key after them, a DELETE by key those of the key.\<close>

theorem sql_statements:
  assumes "own_columns d m \<noteq> []" "length vs = length (own_columns d m)"
    and "\<forall>col \<in> set (columns m). col_name col \<noteq> str ''=''" "meta_name m \<noteq> str ''=''"
  shows "insert_meaning (fst (bind_values d m (insert_init d m))) vs =
      Some (meta_name m, zip (map col_name (own_columns d m)) vs) \<and>
    snd (bind_values d m (insert_init d m)) = insert_init d m \<and>
    assigned (fst (where_pk d m (fst (set_placeholder d m (update_init m))))) =
      map col_name (drop (pk_size m) (columns m) @ take (pk_size m) (columns m)) \<and>
    assigned (fst (remove_where_pk d m (remove_init m))) = map col_name (take (pk_size m) (columns m))"
proof (intro conjI)
  have w: "str ''WHERE'' \<noteq> str ''=''" "str ''SET'' \<noteq> str ''=''" "str ''AND'' \<noteq> str ''=''" "str ''FROM'' \<noteq> str ''=''"
    by (simp_all add: str_def byte_of_char_def)
  have pk: "\<forall>col \<in> set (take (pk_size m) (columns m)). col_name col \<noteq> str ''=''"
    and body: "\<forall>col \<in> set (drop (pk_size m) (columns m)). col_name col \<noteq> str ''=''"
    using assms(3) by (auto dest: in_set_dropD in_set_takeD)
  note names = assigned_entries [OF _ pk, of "str ''AND''" "[]" d] no_eq_entries [OF pk, of "[]" "str ''AND''" d]
  have key: "assigned (str ''WHERE'' # separated (str ''AND'') (map (set_entry d) (take (pk_size m) (columns m)))) =
      map col_name (take (pk_size m) (columns m))"
    using names w by (simp add: assigned_skip)
  show "insert_meaning (fst (bind_values d m (insert_init d m))) vs =
      Some (meta_name m, zip (map col_name (own_columns d m)) vs)"
    using items_separated [OF assms(1)] assms(2)
    by (auto simp: insert_meaning_def bind_values_def insert_init_def insert_columns_def substitute_ph_placeholder)
  show "snd (bind_values d m (insert_init d m)) = insert_init d m" by (simp add: bind_values_def)
  show "assigned (fst (where_pk d m (fst (set_placeholder d m (update_init m))))) =
      map col_name (drop (pk_size m) (columns m) @ take (pk_size m) (columns m))"
    using assigned_entries [OF _ body, of "str '',''" _ d] no_eq_entries [OF body, of _ "str '',''" d] key w assms(4)
    by (simp add: where_pk_def set_placeholder_def update_init_def key_and_body assigned_skip set_entry_def [abs_def])
  show "assigned (fst (remove_where_pk d m (remove_init m))) = map col_name (take (pk_size m) (columns m))"
    using key w assms(4)
    by (simp add: remove_where_pk_def remove_self_def where_pk_def remove_init_def key_and_body assigned_skip set_entry_def [abs_def])
qed

definition sample_sql :: meta_sql where
  "sample_sql = \<lparr>meta_name = str ''TDevice'',
     columns = [\<lparr>col_name = str ''tag'', col_type = 56, col_width = 36\<rparr>, gen_column,
       \<lparr>col_name = str ''name'', col_type = 14, col_width = 64\<rparr>], pk_size = 1\<rparr>"

theorem sql_statements_witness:
  "insert_meaning (fst (bind_values SQLITE sample_sql (insert_init SQLITE sample_sql))) [1 :: nat, 2, 3] =
     Some (str ''TDevice'', [(str ''tag'', 1), (str ''gen'', 2), (str ''name'', 3)])"
proof -
  have own: "own_columns SQLITE sample_sql = columns sample_sql"
    by (simp add: own_columns_def do_skip_def sample_sql_def gen_column_def meta_loop_def str_def byte_of_char_def)
  have "\<forall>col \<in> set (columns sample_sql). col_name col \<noteq> str ''=''" "meta_name sample_sql \<noteq> str ''=''"
    by (simp_all add: sample_sql_def gen_column_def str_def byte_of_char_def)
  from sql_statements [OF _ _ this, of SQLITE "[1 :: nat, 2, 3]"] show ?thesis
    unfolding own by (simp add: sample_sql_def gen_column_def)
qed

section \<open>Expressions can be read back\<close>

text \<open>Leaves whose text does not run into what follows: constants without quotes, and truth values.\<close>

fun readable_expr :: "expr \<Rightarrow> bool" where
  "readable_expr (Text_Const s) \<longleftrightarrow> 0x27 \<notin> set s"
| "readable_expr (Bool_Const v) \<longleftrightarrow> True"
| "readable_expr (Binary f l r) \<longleftrightarrow> readable_expr l \<and> readable_expr r"
| "readable_expr _ \<longleftrightarrow> False"

lemma quoted_end:
  assumes "q \<notin> set s" "q \<notin> set t" "s @ [q] @ x = t @ [q] @ y"
  shows "s = t \<and> x = y"
  using assms
proof (induction s arbitrary: t)
  case Nil
  then show ?case by (cases t) auto
next
  case (Cons a s)
  then show ?case by (cases t) auto
qed

lemma op_text_end: "op_text f @ str '' '' @ x = op_text g @ str '' '' @ y \<Longrightarrow> f = g \<and> x = y"
  by (cases f; cases g) (simp_all add: str_def byte_of_char_def)

lemma expr_text_end:
  assumes "readable_expr e" "readable_expr e'" "expr_text p d m e @ x = expr_text p d m e' @ y"
  shows "e = e' \<and> x = y"
  using assms
proof (induction e arbitrary: e' x y)
  case (Text_Const s)
  then show ?case
    using quoted_end [of "0x27" s _ x y] by (cases e') (auto simp: str_def byte_of_char_def split: if_splits)
next
  case (Bool_Const v)
  then show ?case by (cases e') (auto simp: str_def byte_of_char_def split: if_splits)
next
  case (Binary f l r)
  note IH = Binary.IH and prems = Binary.prems
  show ?case
  proof (cases e')
    case (Binary g l' r')
    have read: "readable_expr l" "readable_expr r" "readable_expr l'" "readable_expr r'"
      using prems(1,2) Binary by simp_all
    have "expr_text p d m l @ str '' '' @ op_text f @ str '' '' @ expr_text p d m r @ str '')'' @ x =
        expr_text p d m l' @ str '' '' @ op_text g @ str '' '' @ expr_text p d m r' @ str '')'' @ y"
      using prems(3) unfolding Binary by simp
    from IH(1) [OF read(1,3) this] have 1: "l = l'"
      "op_text f @ str '' '' @ expr_text p d m r @ str '')'' @ x = op_text g @ str '' '' @ expr_text p d m r' @ str '')'' @ y"
      by simp_all
    from op_text_end [OF 1(2)] have 2: "f = g" "expr_text p d m r @ str '')'' @ x = expr_text p d m r' @ str '')'' @ y"
      by simp_all
    from IH(2) [OF read(2,4) 2(2)] 1 2 Binary show ?thesis by simp
  qed (use prems in \<open>auto simp: str_def byte_of_char_def split: if_splits\<close>)
qed simp_all

text \<open>C30. The brackets around every expression make its text unambiguous for expressions built by operators from text
  constants without single quotes and truth values: different ones have different texts.  (Other leaves are left
  out: two placeholders both print a question mark, and a number prints like a truth value.)  Quotes are not escaped,
  and with them two different comparisons have the same text.\<close>

theorem sql_expressions:
  assumes "readable_expr e" "readable_expr e'"
  shows "(expr_text p d m e = expr_text p d m e' \<longrightarrow> e = e') \<and>
    expr_text p d m (Binary EQ (Text_Const (s @ [0x27] @ str '' = '' @ [0x27] @ t)) (Text_Const u)) =
      expr_text p d m (Binary EQ (Text_Const s) (Text_Const (t @ [0x27] @ str '' = '' @ [0x27] @ u)))"
  using expr_text_end [OF assms, of p d m "[]" "[]"]
  by (simp add: str_def byte_of_char_def)

theorem sql_expressions_witness:
  "expr_text (\<lambda>_. []) SQLITE sample_sql (Binary EQ (Text_Const [97]) (Bool_Const True)) \<noteq>
     expr_text (\<lambda>_. []) SQLITE sample_sql (Binary EQ (Bool_Const True) (Text_Const [97]))"
  using sql_expressions [of "Binary EQ (Text_Const [97]) (Bool_Const True)" "Binary EQ (Bool_Const True) (Text_Const [97])"
    "\<lambda>_. []" SQLITE sample_sql] by auto

section \<open>Types of columns\<close>

text \<open>The documented ranges of the integer types of MySQL and PostgreSQL, and of the program's.\<close>

definition sql_range :: "byte list \<Rightarrow> (int \<times> int) option" where
  "sql_range t = map_of (map (\<lambda>(n, r). (str n, r))
     [(''TINYINT'', (- (2 ^ 7), 2 ^ 7 - 1)), (''TINYINT  UNSIGNED'', (0, 2 ^ 8 - 1)),
      (''SMALLINT'', (- (2 ^ 15), 2 ^ 15 - 1)), (''SMALLINT UNSIGNED'', (0, 2 ^ 16 - 1)),
      (''INT'', (- (2 ^ 31), 2 ^ 31 - 1)), (''INT UNSIGNED'', (0, 2 ^ 32 - 1)),
      (''BIGINT'', (- (2 ^ 63), 2 ^ 63 - 1)), (''BIGINT UNSIGNED'', (0, 2 ^ 64 - 1)),
      (''smallint'', (- (2 ^ 15), 2 ^ 15 - 1)), (''integer'', (- (2 ^ 31), 2 ^ 31 - 1)),
      (''bigint'', (- (2 ^ 63), 2 ^ 63 - 1))]) t"

definition value_range :: "nat \<Rightarrow> int \<times> int" where
  "value_range code =
     (case map_of [(6, (0, 2 ^ 8 - 1)), (7, (0, 2 ^ 16 - 1)), (8, (0, 2 ^ 32 - 1)), (9, (0, 2 ^ 64 - 1)),
        (10, (- (2 ^ 7), 2 ^ 7 - 1)), (11, (- (2 ^ 15), 2 ^ 15 - 1)), (12, (- (2 ^ 31), 2 ^ 31 - 1)),
        (13, (- (2 ^ 63), 2 ^ 63 - 1)), (31, (0, 2 ^ 48 - 1))] code of Some r \<Rightarrow> r | None \<Rightarrow> (0, 0))"

definition column_holds :: "dialect \<Rightarrow> nat \<Rightarrow> bool" where
  "column_holds d code =
     (case get_field_type Release d code 0 of
        Inr t \<Rightarrow> (case sql_range t of
          Some (lo, hi) \<Rightarrow> lo \<le> fst (value_range code) \<and> snd (value_range code) \<le> hi | None \<Rightarrow> False)
      | Inl e \<Rightarrow> False)"

text \<open>Which integer types fit into the column they get: in MySQL all but the 8-bit ones, whose types are
  exchanged, and OBIS codes; in PostgreSQL not the unsigned ones of more than 8 bits, nor OBIS codes.  A text
  column needs a width except in SQLite.\<close>

theorem sql_integer_columns:
  "list_all (\<lambda>code. column_holds MYSQL code \<longleftrightarrow> code \<notin> {6, 10, 31}) [6, 7, 8, 9, 10, 11, 12, 13, 31] \<and>
   list_all (\<lambda>code. column_holds POSTGRESQL code \<longleftrightarrow> code \<notin> {7, 8, 9, 31}) [6, 7, 8, 9, 10, 11, 12, 13, 31] \<and>
   list_all (\<lambda>d. (get_field_type Debug d 14 0 = Inl Assertion) \<longleftrightarrow> d \<noteq> SQLITE)
     [GENERIC, MYSQL, SQLITE, ORACLE, ACCESS, SQLSERVER, POSTGRESQL]"
  by (intro conjI) code_simp+

end
