(* ===== verification/Sqlite.thy ===== *)
theory Sqlite
  imports Sql Plain
begin

text \<open>
  Values on their way to SQLite and back: \<^verbatim>\<open>src/db/src/sqlite3/sqlite_statement.cpp\<close> and
  \<^verbatim>\<open>sqlite_result.cpp\<close>.  SQLite itself is not modelled: what it does with a value is the record \<open>sqlite\<close>,
  what a step of a statement gives is the argument \<open>outcome\<close>.
\<close>

section \<open>SQLite, as far as it is used\<close>

datatype cell = Null_Cell | Int_Cell u64 | Real_Cell u64 | Text_Cell "byte list" | Blob_Cell "byte list"

text \<open>
  The conversions of \<^verbatim>\<open>sqlite3_column_...\<close>; what a column of a declared type, written through a placeholder,
  gives back; conversions between floating point formats (\<open>None\<close>: out of range) and points in time as text.
\<close>

record sqlite =
  q_int64 :: "cell \<Rightarrow> u64"
  q_double :: "cell \<Rightarrow> u64"
  q_text :: "cell \<Rightarrow> byte list option"
  q_blob :: "cell \<Rightarrow> byte list"
  q_column :: "byte list \<Rightarrow> byte list \<Rightarrow> cell \<Rightarrow> cell"
  q_widen :: "u32 \<Rightarrow> u64"
  q_narrow :: "u64 \<Rightarrow> u32 option"
  q_shorten :: "128 word \<Rightarrow> u64"
  q_lengthen :: "u64 \<Rightarrow> 128 word"
  q_put_time :: "u64 \<Rightarrow> byte list"
  q_get_time :: "byte list \<Rightarrow> u64"

section \<open>Statements: sqlite_statement.cpp\<close>

text \<open>
  A prepared statement of SQLite: its number, the values bound to its parameters, whether it has been stepped
  since its last reset, its current row and whether its last step failed.
\<close>

record handle =
  h_no :: nat
  h_cells :: "cell list"
  h_busy :: bool
  h_row :: "cell list"
  h_failed :: bool

datatype stmt_state = INITIAL | READY | RUNNING | DONE

text \<open>\<open>unfinished\<close> is SQLite's list of statements that are prepared and not finalized.\<close>

record statement =
  stmt :: "handle option"
  state :: stmt_state
  bind_counter :: nat
  static_data :: "object list"
  unfinished :: "nat list"

definition statement_init :: "nat list \<Rightarrow> statement" where
  "statement_init open = \<lparr>stmt = None, state = INITIAL, bind_counter = 1, static_data = [], unfinished = open\<rparr>"

datatype outcome = Row "cell list" | No_More | Failed

text \<open>
  What \<^verbatim>\<open>sqlite3_bind_...\<close> does, as \<^verbatim>\<open>sqlite3.h\<close> documents it: an index out of range and a statement that
  has been stepped and not reset are errors.
\<close>

definition bind_at :: "nat \<Rightarrow> cell \<Rightarrow> statement \<Rightarrow> bool \<times> statement" where
  "bind_at i c s =
     (case stmt s of
        None \<Rightarrow> (False, s)
      | Some p \<Rightarrow>
          if \<not> h_busy p \<and> 1 \<le> i \<and> i \<le> length (h_cells p)
          then (True, s\<lparr>stmt := Some (p\<lparr>h_cells := (h_cells p)[i - 1 := c]\<rparr>)\<rparr>) else (False, s))"

text \<open>Values that are bound as text.\<close>

definition bound_text :: "object \<Rightarrow> byte list option" where
  "bound_text obj =
     (case obj of
        OMac48 v \<Rightarrow> Some (show_mac48 v)
      | OMac64 v \<Rightarrow> Some (show_mac64 v)
      | OOctets t v \<Rightarrow> Some (show_octets t v)
      | OPath v \<Rightarrow> Some v
      | OIpAddress v \<Rightarrow> Some v
      | OEndpoint Tcp port address \<Rightarrow> Some (address @ str '':'' @ show_dec port)
      | _ \<Rightarrow> None)"

definition bind_chrono :: "build \<Rightarrow> sqlite \<Rightarrow> chrono \<Rightarrow> u64 \<Rightarrow> cell result" where
  "bind_chrono b q t v =
     (case t of
        TimePoint \<Rightarrow> rbind (boost_assert b (length (q_put_time q v) = 19)) (\<lambda>_. Inr (Text_Cell (q_put_time q v)))
      | NanoSecond \<Rightarrow> Inr (Int_Cell (scast (ucast v :: u32)))
      | _ \<Rightarrow> Inr (Int_Cell v))"

text \<open>The overloads of \<^verbatim>\<open>bind_value\<close>; \<open>None\<close> for types that have none.\<close>

definition bind_value :: "build \<Rightarrow> endian \<Rightarrow> sqlite \<Rightarrow> object \<Rightarrow> cell result option" where
  "bind_value b h q obj =
     (case obj of
        OBool v \<Rightarrow> Some (Inr (Int_Cell (if v then 1 else 0)))
      | OI8 v \<Rightarrow> Some (Inr (Int_Cell (scast v)))
      | OU8 v \<Rightarrow> Some (Inr (Int_Cell (ucast v)))
      | OI16 v \<Rightarrow> Some (Inr (Int_Cell (scast v)))
      | OU16 v \<Rightarrow> Some (Inr (Int_Cell (ucast v)))
      | OI32 v \<Rightarrow> Some (Inr (Int_Cell (scast v)))
      | OU32 v \<Rightarrow> Some (Inr (Int_Cell (scast v)))
      | OI64 v \<Rightarrow> Some (Inr (Int_Cell v))
      | OU64 v \<Rightarrow> Some (Inr (Int_Cell v))
      | OFloat v \<Rightarrow> Some (Inr (Real_Cell (q_widen q v)))
      | ODouble v \<Rightarrow> Some (Inr (Real_Cell v))
      | OFloat80 v \<Rightarrow> Some (Inr (Real_Cell (q_shorten q v)))
      | OString v \<Rightarrow> Some (Inr (Text_Cell v))
      | OChrono t v \<Rightarrow> Some (bind_chrono b q t v)
      | OBuffer v \<Rightarrow> Some (Inr (Blob_Cell v))
      | OObis v \<Rightarrow> Some (rbind (to_uint64 b h v) (\<lambda>n. Inr (Int_Cell n)))
      | _ \<Rightarrow> map_option (\<lambda>s. Inr (Text_Cell s)) (bound_text obj))"

text \<open>\<^verbatim>\<open>bind(index, obj, column_size)\<close>: null goes to the parameter whose number is the size of the column.\<close>

definition bind_object :: "build \<Rightarrow> endian \<Rightarrow> sqlite \<Rightarrow> object \<Rightarrow> nat \<Rightarrow> statement \<Rightarrow> (bool \<times> statement) result" where
  "bind_object b h q obj width s =
     (if obj = ONull then Inr (bind_at (width mod 2 ^ 32) Null_Cell s)
      else
        let s' = (case obj of OString _ \<Rightarrow> s\<lparr>static_data := static_data s @ [obj]\<rparr>
                  | OBuffer _ \<Rightarrow> s\<lparr>static_data := static_data s @ [obj]\<rparr> | _ \<Rightarrow> s) in
        case bind_value b h q obj of
          None \<Rightarrow> rbind (boost_assert b False) (\<lambda>_. Inr (False, s'))
        | Some m \<Rightarrow>
            rbind (boost_assert b (stmt s' \<noteq> None)) (\<lambda>_.
            rbind m (\<lambda>c. Inr (bind_at (bind_counter s') c s'))))"

definition push :: "build \<Rightarrow> endian \<Rightarrow> sqlite \<Rightarrow> object \<Rightarrow> nat \<Rightarrow> statement \<Rightarrow> statement result" where
  "push b h q obj width s =
     rbind (boost_assert b (bind_counter s \<noteq> 0)) (\<lambda>_.
     rbind (bind_object b h q obj width s) (\<lambda>(ok, s').
     Inr (if ok then s'\<lparr>bind_counter := bind_counter s' + 1\<rparr> else s')))"

fun push_all :: "build \<Rightarrow> endian \<Rightarrow> sqlite \<Rightarrow> meta_sql \<Rightarrow> object list \<Rightarrow> statement \<Rightarrow> statement result" where
  "push_all b h q m [] s = Inr s"
| "push_all b h q m (v # vs) s =
     rbind (push b h q v (col_width (get_column_sql m (bind_counter s - 1))) s) (push_all b h q m vs)"

definition bind_key :: "build \<Rightarrow> endian \<Rightarrow> sqlite \<Rightarrow> key \<Rightarrow> meta_sql \<Rightarrow> statement \<Rightarrow> (bool \<times> statement) result" where
  "bind_key b h q key m s =
     (if check_key_integrity m key then rbind (push_all b h q m key s) (\<lambda>s'. Inr (True, s')) else Inr (False, s))"

definition push_key :: "build \<Rightarrow> endian \<Rightarrow> sqlite \<Rightarrow> key \<Rightarrow> meta_sql \<Rightarrow> statement \<Rightarrow> statement result" where
  "push_key b h q key m s =
     rbind (bind_key b h q key m s) (\<lambda>(ok, s').
     Inr (if ok then s'\<lparr>bind_counter := bind_counter s' + length key\<rparr> else s'))"

definition bind_row :: "build \<Rightarrow> endian \<Rightarrow> sqlite \<Rightarrow> key \<Rightarrow> object list \<Rightarrow> meta_sql \<Rightarrow> statement \<Rightarrow> (bool \<times> statement) result" where
  "bind_row b h q key data m s =
     rbind (boost_assert b (length key + length data = meta_size m)) (\<lambda>_.
     rbind (boost_assert b (bind_counter s = 1)) (\<lambda>_.
     if check_integrity m key data then
       rbind (bind_key b h q key m s) (\<lambda>(_, s').
       rbind (push_all b h q m data s') (\<lambda>s''. Inr (True, s'')))
     else Inr (False, s)))"

text \<open>\<open>compiled\<close> is the answer of \<^verbatim>\<open>sqlite3_prepare_v2\<close>: the number of parameters, or an error.\<close>

definition prepare :: "nat \<Rightarrow> nat option \<Rightarrow> statement \<Rightarrow> (nat \<times> bool) \<times> statement" where
  "prepare no compiled s =
     (if state s = INITIAL \<or> state s = RUNNING then
        (case compiled of
           None \<Rightarrow> ((0, False), s\<lparr>stmt := None\<rparr>)
         | Some n \<Rightarrow> ((n, True), s\<lparr>stmt := Some \<lparr>h_no = no, h_cells = replicate n Null_Cell, h_busy = False,
             h_row = [], h_failed = False\<rparr>, state := READY, unfinished := no # unfinished s\<rparr>))
      else ((0, False), s))"

definition execute :: "build \<Rightarrow> outcome \<Rightarrow> statement \<Rightarrow> (bool \<times> statement) result" where
  "execute b step s =
     (case stmt s of
        None \<Rightarrow> rbind (boost_assert b False) (\<lambda>_. Inr (False, s))
      | Some p \<Rightarrow> Inr
          (case step of
             Row cs \<Rightarrow> (True, s\<lparr>stmt := Some (p\<lparr>h_busy := True, h_row := cs, h_failed := False\<rparr>), state := RUNNING\<rparr>)
           | No_More \<Rightarrow> (True, s\<lparr>stmt := Some (p\<lparr>h_busy := True, h_row := [], h_failed := False\<rparr>), state := DONE\<rparr>)
           | Failed \<Rightarrow> (False, s\<lparr>stmt := Some (p\<lparr>h_busy := True, h_row := [], h_failed := True\<rparr>)\<rparr>)))"

definition execute_sql :: "build \<Rightarrow> nat \<Rightarrow> nat option \<Rightarrow> outcome \<Rightarrow> statement \<Rightarrow> (bool \<times> statement) result" where
  "execute_sql b no compiled step s =
     (let (r, s') = prepare no compiled s in if snd r then execute b step s' else Inr (False, s'))"

definition close :: "statement \<Rightarrow> bool \<times> statement" where
  "close s =
     (if state s = RUNNING \<or> state s = DONE then
        (case stmt s of
           Some p \<Rightarrow> (\<not> h_failed p, s\<lparr>stmt := None, state := INITIAL, unfinished := remove1 (h_no p) (unfinished s)\<rparr>)
         | None \<Rightarrow> (False, s))
      else (False, s))"

definition get_result :: "build \<Rightarrow> outcome \<Rightarrow> statement \<Rightarrow> (cell list option \<times> statement) result" where
  "get_result b step s =
     (if state s = READY \<or> state s = RUNNING then
        rbind (execute b step s) (\<lambda>(ok, s').
        Inr (if ok \<and> state s' = RUNNING then map_option h_row (stmt s') else None, s'))
      else Inr (None, s))"

text \<open>\<^verbatim>\<open>sqlite3_clear_bindings\<close> never fails; it reads the statement, so there must be one.\<close>

definition clear :: "statement \<Rightarrow> statement result" where
  "clear s =
     (case stmt s of
        None \<Rightarrow> Inl Undefined
      | Some p \<Rightarrow> Inr (s\<lparr>stmt := Some (p\<lparr>h_cells := map (\<lambda>_. Null_Cell) (h_cells p), h_busy := False, h_row := []\<rparr>),
          state := RUNNING, bind_counter := 1, static_data := []\<rparr>))"

section \<open>Results: sqlite_result.cpp\<close>

text \<open>The lower half of the number; \<^verbatim>\<open>boost::numeric::converter\<close> checks the range, zero stands for what is out of it.\<close>

definition column_int :: "sqlite \<Rightarrow> cell \<Rightarrow> u32" where
  "column_int q c = ucast (q_int64 q c)"

definition in_range :: "int \<Rightarrow> int \<Rightarrow> int \<Rightarrow> 'a::len word" where
  "in_range lo hi n = (if lo \<le> n \<and> n \<le> hi then word_of_int n else 0)"

definition get_text :: "sqlite \<Rightarrow> cell \<Rightarrow> (byte list \<Rightarrow> object result) \<Rightarrow> object result" where
  "get_text q c f = (case q_text q c of Some s \<Rightarrow> f s | None \<Rightarrow> Inr ONull)"

definition get_hex :: "build \<Rightarrow> endian \<Rightarrow> sqlite \<Rightarrow> octets \<Rightarrow> cell \<Rightarrow> object result" where
  "get_hex b h q t c = get_text q c (\<lambda>s.
     rbind (boost_assert b (length s = 2 * octets_size t)) (\<lambda>_. octets_of_hex b h t s))"

text \<open>The specializations of \<^verbatim>\<open>get_value\<close>, by groups of types.\<close>

definition get_integer :: "sqlite \<Rightarrow> nat \<Rightarrow> cell \<Rightarrow> object result" where
  "get_integer q code c =
     (let n = sint (column_int q c); l = q_int64 q c in
      if code = 1 then Inr (OBool (n = 1))
      else if code = 10 then Inr (OI8 (in_range (- (2 ^ 7)) (2 ^ 7 - 1) n))
      else if code = 6 then Inr (OU8 (in_range 0 (2 ^ 8 - 1) n))
      else if code = 11 then Inr (OI16 (in_range (- (2 ^ 15)) (2 ^ 15 - 1) n))
      else if code = 7 then Inr (OU16 (in_range 0 (2 ^ 16 - 1) n))
      else if code = 12 then Inr (OI32 (in_range (- (2 ^ 31)) (2 ^ 31 - 1) n))
      else if code = 8 then Inr (OU32 (in_range 0 (2 ^ 32 - 1) n))
      else if code = 13 then Inr (OU64 l)
      else Inr (OU64 (in_range 0 (2 ^ 64 - 1) (sint l))))"

definition get_real :: "sqlite \<Rightarrow> nat \<Rightarrow> cell \<Rightarrow> object result" where
  "get_real q code c =
     (if code = 3 then Inr (OFloat (case q_narrow q (q_double q c) of Some f \<Rightarrow> f | None \<Rightarrow> 0))
      else if code = 4 then Inr (ODouble (q_double q c))
      else Inr (OFloat80 (q_lengthen q (q_double q c))))"

definition get_standard :: "sqlite \<Rightarrow> nat \<Rightarrow> cell \<Rightarrow> object result" where
  "get_standard q code c =
     (let l = q_int64 q c in
      if code = 14 then get_text q c (\<lambda>s. Inr (OString s))
      else if code = 16 then get_text q c (\<lambda>s. Inr (OChrono TimePoint (q_get_time q s)))
      else if code = 17 then Inr (OChrono NanoSecond l)
      else if code = 18 then Inr (OChrono MicroSecond l)
      else if code = 19 then Inr (OChrono MilliSecond l)
      else if code = 20 then Inr (OChrono Second l)
      else if code = 21 then Inr (OChrono Minute l)
      else Inr (OChrono Hour l))"

definition get_cyng :: "build \<Rightarrow> endian \<Rightarrow> parsers \<Rightarrow> sqlite \<Rightarrow> nat \<Rightarrow> cell \<Rightarrow> object result" where
  "get_cyng b h p q code c =
     (let l = q_int64 q c in
      if code = 24 then Inr (OVersion (Version (in_range 0 (2 ^ 32 - 1) (sint (column_int q c)))))
      else if code = 25 then rbind (throw_unless (0 \<le> sint l)) (\<lambda>_. Inr (ORevision (Revision l)))
      else if code = 23 then Inr (if q_blob q c \<noteq> [] then OBuffer (q_blob q c) else ONull)
      else if code = 28 then get_text q c (\<lambda>s.
        rbind (boost_assert b (length s = 17)) (\<lambda>_. rapply OMac48 (to_mac48 b h (p_split p) s)))
      else if code = 29 then get_text q c (\<lambda>s.
        rbind (boost_assert b (length s = 19)) (\<lambda>_. rapply OMac64 (to_mac64 b h (p_split p) s)))
      else Inr (OObis (make_obis_u64 h l)))"

definition get_crypto :: "build \<Rightarrow> endian \<Rightarrow> sqlite \<Rightarrow> nat \<Rightarrow> cell \<Rightarrow> object result" where
  "get_crypto b h q code c =
     (if code = 36 then get_text q c (\<lambda>s.
        rbind (boost_assert b (length s = 32)) (\<lambda>_. rbind (boost_assert b False) (\<lambda>_. Inr ONull)))
      else if code = 37 then get_hex b h q Sha1 c
      else if code = 38 then get_hex b h q Sha256 c
      else if code = 39 then get_hex b h q Sha512 c
      else if code = 40 then get_hex b h q Aes128 c
      else if code = 41 then get_hex b h q Aes192 c
      else get_hex b h q Aes256 c)"

text \<open>The text of a map is read and dropped.\<close>

definition get_map :: "sqlite \<Rightarrow> cell \<Rightarrow> object result" where
  "get_map q c = get_text q c (\<lambda>s. Inr ONull)"

definition get_boost :: "build \<Rightarrow> parsers \<Rightarrow> sqlite \<Rightarrow> nat \<Rightarrow> cell \<Rightarrow> object result" where
  "get_boost b p q code c =
     (let any_address = str ''0.0.0.0'' in
      if code = 56 then get_text q c (\<lambda>s.
        Inr (OOctets Uuid (if length s \<noteq> 36 then replicate 16 0 else p_uuid p s)))
      else if code = 15 then get_text q c (\<lambda>s. rbind (boost_assert b (length s < 1024)) (\<lambda>_. Inr (OPath s)))
      else if code = 57 then
        (case q_text q c of
           None \<Rightarrow> Inr (OIpAddress any_address)
         | Some s \<Rightarrow> rbind (boost_assert b (length s > 6)) (\<lambda>_. Inr (OIpAddress (p_address p s))))
      else
        (case q_text q c of
           None \<Rightarrow> Inr (OEndpoint Tcp 0 any_address)
         | Some s \<Rightarrow> rbind (boost_assert b (length s > 6)) (\<lambda>_. rbind (boost_assert b False) (\<lambda>_.
             Inr (OEndpoint Tcp 0 any_address)))))"

definition get_value :: "build \<Rightarrow> endian \<Rightarrow> parsers \<Rightarrow> sqlite \<Rightarrow> nat \<Rightarrow> cell \<Rightarrow> object result" where
  "get_value b h p q code c =
     (if code = 1 \<or> 6 \<le> code \<and> code \<le> 13 then get_integer q code c
      else if 3 \<le> code \<and> code \<le> 5 then get_real q code c
      else if code = 14 \<or> 16 \<le> code \<and> code \<le> 22 then get_standard q code c
      else if code \<in> {23, 24, 25, 28, 29, 31} then get_cyng b h p q code c
      else if 36 \<le> code \<and> code \<le> 42 then get_crypto b h q code c
      else if code = 48 \<or> code = 50 then get_map q c
      else if code \<in> {15, 56, 57, 58} then get_boost b p q code c
      else Inr ONull)"

lemmas get_value_defs = get_value_def get_integer_def get_real_def get_standard_def get_cyng_def get_crypto_def
  get_map_def get_boost_def
lemmas bind_value_defs = bind_value_def bind_chrono_def bound_text_def

text \<open>\<^verbatim>\<open>get\<close>: the index starts with 1; exceptions give null.\<close>

definition get :: "build \<Rightarrow> endian \<Rightarrow> parsers \<Rightarrow> sqlite \<Rightarrow> cell list \<Rightarrow> nat \<Rightarrow> nat \<Rightarrow> object result" where
  "get b h p q row index code =
     rbind (boost_assert b (index \<noteq> 0)) (\<lambda>_.
     rbind (defined_if (1 \<le> index \<and> index \<le> length row)) (\<lambda>_.
     case get_value b h p q code (row ! (index - 1)) of Inl Exception \<Rightarrow> Inr ONull | m \<Rightarrow> m))"

section \<open>What comes back\<close>

text \<open>
  What is assumed of SQLite, from its documentation: a column gives back integers, texts without a null
  character, blobs and floating point numbers other than NaN and negative zero, if the affinity of its
  declared type is the class of the value; \<^verbatim>\<open>datetime\<close> undoes \<^verbatim>\<open>julianday\<close> on whole seconds.
\<close>

definition plain_double :: "u64 \<Rightarrow> bool" where
  "plain_double v \<longleftrightarrow> v \<noteq> 0x8000000000000000 \<and> v AND 0x7FFFFFFFFFFFFFFF \<le> 0x7FF0000000000000"

definition sqlite_ok :: "sqlite \<Rightarrow> bool" where
  "sqlite_ok q \<longleftrightarrow>
     (\<forall>v. q_int64 q (Int_Cell v) = v) \<and> (\<forall>v. q_double q (Real_Cell v) = v) \<and>
     (\<forall>s. q_text q (Text_Cell s) = Some s) \<and> (\<forall>s. q_blob q (Blob_Cell s) = s) \<and>
     (\<forall>v. q_column q (str ''INT'') (str ''?'') (Int_Cell v) = Int_Cell v) \<and>
     (\<forall>v. plain_double v \<longrightarrow> q_column q (str ''FLOAT'') (str ''?'') (Real_Cell v) = Real_Cell v) \<and>
     (\<forall>s. 0 \<notin> set s \<longrightarrow> q_column q (str ''TEXT'') (str ''?'') (Text_Cell s) = Text_Cell s) \<and>
     (\<forall>s. q_column q (str ''BLOB'') (str ''?'') (Blob_Cell s) = Blob_Cell s) \<and>
     (\<forall>v. q_get_time q (q_put_time q v) = v \<longrightarrow>
        q_column q (str ''FLOAT'') (str ''julianday(?)'') (Text_Cell (q_put_time q v)) = Text_Cell (q_put_time q v))"

definition declared :: "column_sql \<Rightarrow> byte list" where
  "declared col = (case get_field_type Release SQLITE (col_type col) (col_width col) of Inr t \<Rightarrow> t | Inl _ \<Rightarrow> [])"

definition through :: "sqlite \<Rightarrow> column_sql \<Rightarrow> cell \<Rightarrow> cell" where
  "through q col = q_column q (declared col) (substitute_ph SQLITE (col_type col))"

text \<open>The values that survive.\<close>

definition storable :: "parsers \<Rightarrow> sqlite \<Rightarrow> object \<Rightarrow> bool" where
  "storable p q obj =
     (case obj of
        OBool v \<Rightarrow> True | OI8 v \<Rightarrow> True | OU8 v \<Rightarrow> True | OI16 v \<Rightarrow> True | OU16 v \<Rightarrow> True | OI32 v \<Rightarrow> True
      | OU32 v \<Rightarrow> v < 0x80000000
      | OU64 v \<Rightarrow> v < 0x8000000000000000
      | OFloat v \<Rightarrow> q_narrow q (q_widen q v) = Some v \<and> plain_double (q_widen q v)
      | ODouble v \<Rightarrow> plain_double v
      | OFloat80 v \<Rightarrow> q_lengthen q (q_shorten q v) = v \<and> plain_double (q_shorten q v)
      | OString s \<Rightarrow> 0 \<notin> set s
      | OChrono t v \<Rightarrow>
          (case t of TimePoint \<Rightarrow> length (q_put_time q v) = 19 \<and> q_get_time q (q_put_time q v) = v
           | NanoSecond \<Rightarrow> scast (ucast v :: u32) = v | _ \<Rightarrow> True)
      | OBuffer v \<Rightarrow> v \<noteq> []
      | OMac48 v \<Rightarrow> True | OMac64 v \<Rightarrow> True
      | OObis v \<Rightarrow> v \<noteq> Obis 0xFF 0xFF 0xFF 0xFF 0xFF 0xFF
      | OOctets t v \<Rightarrow> length v = octets_size t \<and> t \<noteq> Md5 \<and> (t = Uuid \<longrightarrow> p_uuid p (show_uuid v) = v)
      | OPath s \<Rightarrow> 0 \<notin> set s \<and> length s < 1024
      | OIpAddress s \<Rightarrow> 0 \<notin> set s \<and> length s > 6 \<and> p_address p s = s
      | _ \<Rightarrow> False)"

lemma declared_code:
  "declared col = (case get_field_type Release SQLITE (col_type col) 0 of Inr t \<Rightarrow> t | Inl _ \<Rightarrow> [])"
  by (simp add: declared_def get_field_type_def Let_def)

lemma declared_types:
  "list_all (\<lambda>code. get_field_type Release SQLITE code 0 = Inr (str ''INT'')) [1, 6, 7, 8, 9, 10, 11, 12, 13, 17, 18, 19, 20, 21, 22, 31]"
  "list_all (\<lambda>code. get_field_type Release SQLITE code 0 = Inr (str ''FLOAT'')) [3, 4, 5, 16]"
  "list_all (\<lambda>code. get_field_type Release SQLITE code 0 = Inr (str ''TEXT'')) [14, 15, 28, 29, 36, 37, 38, 39, 40, 41, 42, 56, 57]"
  "get_field_type Release SQLITE 23 0 = Inr (str ''BLOB'')"
  by code_simp+

lemma declared_in:
  "col_type col \<in> set [1, 6, 7, 8, 9, 10, 11, 12, 13, 17, 18, 19, 20, 21, 22, 31] \<Longrightarrow> declared col = str ''INT''"
  "col_type col \<in> set [3, 4, 5, 16] \<Longrightarrow> declared col = str ''FLOAT''"
  "col_type col \<in> set [14, 15, 28, 29, 36, 37, 38, 39, 40, 41, 42, 56, 57] \<Longrightarrow> declared col = str ''TEXT''"
  "col_type col = 23 \<Longrightarrow> declared col = str ''BLOB''"
  by (simp only: declared_code declared_types [unfolded list_all_iff, rule_format] sum.case)+

lemma through_column:
  assumes "sqlite_ok q"
  shows "col_type col \<in> set [1, 6, 7, 8, 9, 10, 11, 12, 13, 17, 18, 19, 20, 21, 22, 31] \<Longrightarrow>
      through q col (Int_Cell v) = Int_Cell v"
    and "col_type col \<in> set [3, 4, 5] \<Longrightarrow> plain_double v \<Longrightarrow> through q col (Real_Cell v) = Real_Cell v"
    and "col_type col \<in> set [14, 15, 28, 29, 36, 37, 38, 39, 40, 41, 42, 56, 57] \<Longrightarrow> 0 \<notin> set s \<Longrightarrow>
      through q col (Text_Cell s) = Text_Cell s"
    and "col_type col = 23 \<Longrightarrow> through q col (Blob_Cell s) = Blob_Cell s"
    and "col_type col = 16 \<Longrightarrow> q_get_time q (q_put_time q v) = v \<Longrightarrow>
      through q col (Text_Cell (q_put_time q v)) = Text_Cell (q_put_time q v)"
proof -
  note [simp] = through_def substitute_ph_def time_point_code_def
  note ok = assms [unfolded sqlite_ok_def]
  show "through q col (Int_Cell v) = Int_Cell v" if c: "col_type col \<in> set [1, 6, 7, 8, 9, 10, 11, 12, 13, 17, 18, 19, 20, 21, 22, 31]"
  proof -
    from c have "col_type col \<noteq> 16" by auto
    then show ?thesis using ok by (simp add: declared_in(1) [OF c])
  qed
  show "through q col (Real_Cell v) = Real_Cell v" if c: "col_type col \<in> set [3, 4, 5]" and v: "plain_double v"
  proof -
    from c have "col_type col \<in> set [3, 4, 5, 16]" "col_type col \<noteq> 16" by auto
    then show ?thesis using ok v by (simp add: declared_in(2))
  qed
  show "through q col (Text_Cell s) = Text_Cell s"
    if c: "col_type col \<in> set [14, 15, 28, 29, 36, 37, 38, 39, 40, 41, 42, 56, 57]" and v: "0 \<notin> set s"
  proof -
    from c have "col_type col \<noteq> 16" by auto
    then show ?thesis using ok v by (simp add: declared_in(3) [OF c])
  qed
  show "through q col (Blob_Cell s) = Blob_Cell s" if c: "col_type col = 23"
    using ok by (simp add: declared_in(4) [OF c] c)
  show "through q col (Text_Cell (q_put_time q v)) = Text_Cell (q_put_time q v)"
    if c: "col_type col = 16" and v: "q_get_time q (q_put_time q v) = v"
    using ok v declared_in(2) [of col] by (simp add: c)
qed

lemma zero_digit: "0 \<notin> digit_char ` {..<16}"
proof -
  have "\<forall>d < 16. digit_char d \<noteq> 0" unfolding on_digits by code_simp
  then show ?thesis by auto
qed

lemma to_hex_no_0 [simp]: "0 \<notin> set (to_hex (c :: byte))"
  using set_fixed [of 0 16 2 "unat c"] zero_digit by (auto simp: to_hex_byte)

lemma fixed_no_0 [simp]: "0 \<notin> set (fixed 16 n k)"
  using set_fixed [of 0 16 n k] zero_digit by auto

lemma join_no_0: "c \<noteq> 0 \<Longrightarrow> (\<forall>s \<in> set xs. 0 \<notin> set s) \<Longrightarrow> 0 \<notin> set (join c xs)"
  by (induction c xs rule: join.induct) auto

lemma show_buffer_hex: "show_buffer v = to_hex_buffer v"
  by (simp add: show_buffer_def octet_text to_hex_buffer_def)

lemma mac_texts:
  "length (show_mac48 m) = 17" "0 \<notin> set (show_mac48 m)" "length (show_mac64 n) = 19" "0 \<notin> set (show_mac64 n)"
proof -
  obtain a b c d e f where m: "m = Mac48 a b c d e f" by (cases m)
  obtain w x y z where n: "n = Mac64 w x y z" by (cases n)
  show "length (show_mac48 m) = 17" by (simp add: m show_mac48_def octet_text)
  show "0 \<notin> set (show_mac48 m)" unfolding show_mac48_def octet_text by (rule join_no_0) auto
  show "length (show_mac64 n) = 19" by (simp add: n show_mac64_def word_text)
  show "0 \<notin> set (show_mac64 n)" unfolding show_mac64_def word_text by (rule join_no_0) auto
qed

lemma octets_text:
  assumes "t \<noteq> Uuid" "length v = octets_size t"
  shows "0 \<notin> set (show_octets t v)" "length (show_octets t v) = 2 * octets_size t"
    "octets_of_hex b Little t (show_octets t v) = Inr (OOctets t v)"
  using assms by (simp_all add: show_octets_def show_buffer_hex octets_of_hex_def hex_to_buffer_to_hex
      to_hex_buffer_def hex_to_buffer_to_hex [unfolded to_hex_buffer_def])

lemma uuid_text:
  assumes "length v = 16"
  shows "0 \<notin> set (show_uuid v)" "length (show_uuid v) = 36"
proof -
  have dash: "str ''-'' = [45]" by (simp add: str_def byte_of_char_def)
  show "0 \<notin> set (show_uuid v)" by (auto simp: show_uuid_def dash show_buffer_hex to_hex_buffer_def)
  show "length (show_uuid v) = 36"
    by (simp add: show_uuid_def dash show_buffer_hex to_hex_buffer_def length_concat assms upt_rec comp_def)
qed

lemma cast_down:
  fixes v :: "'a::len word"
  assumes "LENGTH('a) \<le> 32"
  shows "sint (ucast (scast v :: u64) :: u32) = sint v"
proof -
  have "(ucast (scast v :: u64) :: u32) = scast v"
    using assms by (intro bit_word_eqI) (auto simp: bit_simps)
  then show ?thesis using assms by (simp add: sint_up_scast is_up)
qed

lemma cast_back [simp]: "ucast (scast v :: u64) = (v :: u32)"
  by (rule bit_word_eqI) (simp add: bit_simps)

lemma small_signed: "0 \<le> k \<Longrightarrow> k < 2 ^ n \<Longrightarrow> signed_take_bit n k = (k :: int)"
  by (rule signed_take_bit_int_eq_self) (auto intro: order_trans [of _ 0])

lemma cast_down_unsigned:
  fixes v :: "'a::len word"
  assumes "LENGTH('a) < 32"
  shows "sint (ucast (ucast v :: u64) :: u32) = uint v"
proof -
  have "(ucast (ucast v :: u64) :: u32) = ucast v"
    using assms by (intro bit_word_eqI) (auto simp: bit_simps)
  moreover have "sint (ucast v :: u32) = uint v"
  proof -
    have "uint v < 2 ^ LENGTH('a)" by simp
    also have "\<dots> \<le> 2 ^ 31" using assms by (intro power_increasing) auto
    finally have "uint v < 2 ^ 31" .
    then show ?thesis using assms
      by (simp add: sint_uint uint_up_ucast is_up small_signed)
  qed
  ultimately show ?thesis by simp
qed

lemma sint_small32: "v < 0x80000000 \<Longrightarrow> sint (v :: u32) = uint v"
  by (simp add: sint_uint small_signed word_less_def)

lemma sint_small64: "v < 0x8000000000000000 \<Longrightarrow> sint (v :: u64) = uint v"
  by (simp add: sint_uint small_signed word_less_def)

lemma in_range_signed:
  fixes v :: "'a::len word"
  shows "lo = - (2 ^ (LENGTH('a) - 1)) \<Longrightarrow> hi = 2 ^ (LENGTH('a) - 1) - 1 \<Longrightarrow> in_range lo hi (sint v) = v"
  using sint_ge [of v] sint_lt [of v] by (simp add: in_range_def)

lemma in_range_unsigned:
  fixes v :: "'a::len word"
  shows "hi = 2 ^ LENGTH('a) - 1 \<Longrightarrow> in_range 0 hi (uint v) = v"
  using uint_lt2p [of v] by (simp add: in_range_def)

lemma sqlite_reads:
  assumes "sqlite_ok q"
  shows "q_int64 q (Int_Cell v) = v" "q_double q (Real_Cell v) = v" "q_text q (Text_Cell s) = Some s"
    "q_blob q (Blob_Cell s) = s"
  using assms by (simp_all add: sqlite_ok_def)

lemma store_value:
  assumes "sqlite_ok q" "splits (p_split p)" "storable p q obj" "col_type col = unat (type_tag obj)"
  shows "\<exists>c. bind_value b Little q obj = Some (Inr c) \<and>
    get_value b Little p q (col_type col) (through q col c) = Inr obj"
proof -
  note reads = sqlite_reads [OF assms(1)] through_column [OF assms(1)]
  note ev = storable_def bind_value_defs get_value_defs reads column_int_def get_text_def get_hex_def rapply_def
    cast_down cast_down_unsigned in_range_signed in_range_unsigned sint_small32 sint_small64
  show ?thesis
  proof (cases obj)
    case (OBool v)
    then show ?thesis using assms(3,4) by (simp add: ev)
  next
    case (OI8 v)
    then show ?thesis using assms(3,4) by (simp add: ev)
  next
    case (OU8 v)
    then show ?thesis using assms(3,4) by (simp add: ev)
  next
    case (OI16 v)
    then show ?thesis using assms(3,4) by (simp add: ev)
  next
    case (OU16 v)
    then show ?thesis using assms(3,4) by (simp add: ev)
  next
    case (OI32 v)
    then show ?thesis using assms(3,4) by (simp add: ev)
  next
    case (OU32 v)
    then show ?thesis using assms(3,4) by (simp add: ev)
  next
    case (OU64 v)
    then show ?thesis using assms(3,4) by (simp add: ev)
  next
    case (OFloat v)
    then show ?thesis using assms(3,4) by (simp add: ev)
  next
    case (ODouble v)
    then show ?thesis using assms(3,4) by (simp add: ev)
  next
    case (OFloat80 v)
    then show ?thesis using assms(3,4) by (simp add: ev)
  next
    case (OString v)
    then show ?thesis using assms(3,4) by (simp add: ev)
  next
    case (OBuffer v)
    then show ?thesis using assms(3,4) by (simp add: ev)
  next
    case (OPath v)
    then show ?thesis using assms(3,4) by (simp add: ev)
  next
    case (OIpAddress v)
    then show ?thesis using assms(3,4) by (simp add: ev)
  next
    case (OChrono t v)
    then show ?thesis using assms(3,4) by (cases t) (simp_all add: ev)
  next
    case (OMac48 v)
    then show ?thesis using assms(4) mac48_text [OF assms(2), of b Little v] by (simp add: ev mac_texts)
  next
    case (OMac64 v)
    then show ?thesis using assms(4) mac64_text [OF assms(2)] by (cases v) (simp add: ev mac_texts host_word_def)
  next
    case (OObis v)
    then show ?thesis using assms(3,4) obis_number_roundtrip [of b v v] by (auto simp: ev)
  next
    case (OOctets t v)
    then have t: "length v = octets_size t" "t \<noteq> Md5" "t = Uuid \<Longrightarrow> p_uuid p (show_uuid v) = v"
      using assms(3) by (simp_all add: storable_def)
    show ?thesis
    proof (cases "t = Uuid")
      case True
      then show ?thesis using OOctets t assms(4) uuid_text [of v] by (simp add: ev show_octets_def)
    next
      case False
      note o = octets_text [OF False t(1)]
      show ?thesis using OOctets t(2) False assms(4) o by (cases t) (simp_all add: ev)
    qed
  qed (use assms(3) in \<open>simp_all add: storable_def\<close>)
qed

section \<open>Binding rows\<close>

lemma push_bound:
  assumes "stmt s = Some p" "\<not> h_busy p" "1 \<le> bind_counter s" "bind_counter s \<le> length (h_cells p)"
    and "obj \<noteq> ONull" "bind_value b h q obj = Some (Inr c)"
  shows "\<exists>sd. push b h q obj w s = Inr (s\<lparr>stmt := Some (p\<lparr>h_cells := (h_cells p)[bind_counter s - 1 := c]\<rparr>),
    bind_counter := bind_counter s + 1, static_data := sd\<rparr>)"
proof -
  define s' where "s' = (case obj of OString _ \<Rightarrow> s\<lparr>static_data := static_data s @ [obj]\<rparr>
                  | OBuffer _ \<Rightarrow> s\<lparr>static_data := static_data s @ [obj]\<rparr> | _ \<Rightarrow> s)"
  have s': "\<exists>sd. s' = s\<lparr>static_data := sd\<rparr>"
  proof (cases "\<exists>v. obj = OString v \<or> obj = OBuffer v")
    case True
    then show ?thesis by (auto simp: s'_def)
  next
    case False
    then have "s' = s\<lparr>static_data := static_data s\<rparr>" by (cases obj) (auto simp: s'_def)
    then show ?thesis by blast
  qed
  then obtain sd where sd: "s' = s\<lparr>static_data := sd\<rparr>" by blast
  have "bind_object b h q obj w s = Inr (bind_at (bind_counter s') c s')"
    using assms(1,5,6) sd by (simp add: bind_object_def s'_def [symmetric])
  then show ?thesis using assms(1-4) sd by (auto simp: push_def bind_at_def intro!: exI [of _ sd])
qed

lemma push_all_bound:
  assumes "list_all2 (\<lambda>obj c. obj \<noteq> ONull \<and> bind_value b h q obj = Some (Inr c)) objs cs"
    and "stmt s = Some p" "\<not> h_busy p" "bind_counter s = Suc (length pre)" "h_cells p = pre @ xs @ post"
    and "length xs = length objs"
  shows "\<exists>sd. push_all b h q m objs s = Inr (s\<lparr>stmt := Some (p\<lparr>h_cells := pre @ cs @ post\<rparr>),
    bind_counter := bind_counter s + length objs, static_data := sd\<rparr>)"
  using assms
proof (induction objs cs arbitrary: s p pre xs rule: list_all2_induct)
  case Nil
  then show ?case by (intro exI [of _ "static_data s"]) simp
next
  case (Cons obj objs c cs)
  obtain y ys where xs: "xs = y # ys" "length ys = length objs" using Cons.prems(5) by (cases xs) auto
  obtain sd where sd: "push b h q obj (col_width (get_column_sql m (bind_counter s - 1))) s =
      Inr (s\<lparr>stmt := Some (p\<lparr>h_cells := (h_cells p)[bind_counter s - 1 := c]\<rparr>),
        bind_counter := bind_counter s + 1, static_data := sd\<rparr>)"
    using push_bound [OF Cons.prems(1,2), of obj b h q c] Cons.prems(3-5) Cons.hyps by fastforce
  have "(h_cells p)[bind_counter s - 1 := c] = (pre @ [c]) @ ys @ post"
    using Cons.prems(3,4) xs by (simp add: list_update_append)
  then show ?case
    using Cons.IH [of "s\<lparr>stmt := Some (p\<lparr>h_cells := (pre @ [c]) @ ys @ post\<rparr>), bind_counter := bind_counter s + 1,
        static_data := sd\<rparr>" "p\<lparr>h_cells := (pre @ [c]) @ ys @ post\<rparr>" "pre @ [c]" ys] Cons.prems sd xs
    by auto
qed

lemma bind_row_bound:
  assumes "list_all2 (\<lambda>obj c. obj \<noteq> ONull \<and> bind_value b h q obj = Some (Inr c)) (key @ data) cs"
    and "stmt s = Some p" "\<not> h_busy p" "bind_counter s = 1" "length (h_cells p) = length (key @ data)"
    and "check_integrity m key data" "length key + length data = meta_size m"
  shows "\<exists>sd. bind_row b h q key data m s = Inr (True, s\<lparr>stmt := Some (p\<lparr>h_cells := cs\<rparr>),
    bind_counter := 1 + length (key @ data), static_data := sd\<rparr>)"
proof -
  obtain cs1 cs2 where cs: "cs = cs1 @ cs2"
    and l: "list_all2 (\<lambda>obj c. obj \<noteq> ONull \<and> bind_value b h q obj = Some (Inr c)) key cs1"
      "list_all2 (\<lambda>obj c. obj \<noteq> ONull \<and> bind_value b h q obj = Some (Inr c)) data cs2"
    using assms(1) by (auto simp: list_all2_append1)
  let ?x1 = "take (length key) (h_cells p)" and ?x2 = "drop (length key) (h_cells p)"
  obtain sd where k: "push_all b h q m key s = Inr (s\<lparr>stmt := Some (p\<lparr>h_cells := cs1 @ ?x2\<rparr>),
      bind_counter := 1 + length key, static_data := sd\<rparr>)"
    using push_all_bound [OF l(1) assms(2,3), of "[]" ?x1 ?x2 m] assms(4,5) by auto
  let ?s = "s\<lparr>stmt := Some (p\<lparr>h_cells := cs1 @ ?x2\<rparr>), bind_counter := 1 + length key, static_data := sd\<rparr>"
  have "length cs1 = length key" using l(1) by (simp add: list_all2_lengthD)
  then obtain sd' where "push_all b h q m data ?s = Inr (?s\<lparr>stmt := Some (p\<lparr>h_cells := cs1 @ cs2\<rparr>),
      bind_counter := 1 + length key + length data, static_data := sd'\<rparr>)"
    using push_all_bound [OF l(2), of ?s "p\<lparr>h_cells := cs1 @ ?x2\<rparr>" cs1 ?x2 "[]" m] assms(3,5) by auto
  moreover have "check_key_integrity m key" using assms(6) by (simp add: check_integrity_def)
  ultimately show ?thesis using k assms(4,6,7) cs by (auto simp: bind_row_def bind_key_def)
qed

section \<open>What does not come back\<close>

definition round_trip :: "build \<Rightarrow> endian \<Rightarrow> parsers \<Rightarrow> sqlite \<Rightarrow> column_sql \<Rightarrow> object \<Rightarrow> object result option" where
  "round_trip b h p q col obj =
     map_option (\<lambda>m. rbind m (\<lambda>c. get_value b h p q (col_type col) (through q col c))) (bind_value b h q obj)"

lemma top_bit_negative:
  assumes "2 ^ n \<le> k" "k < 2 ^ Suc n"
  shows "signed_take_bit n (k :: int) < 0"
proof -
  have "k div 2 ^ n = 1" using assms by (intro div_pos_neg_trivial int_div_pos_eq [where r = "k - 2 ^ n"]) auto
  then show ?thesis by (simp add: signed_take_bit_negative_iff bit_iff_odd)
qed

lemma sint_negative:
  "0x80000000 \<le> v \<Longrightarrow> \<not> 0 \<le> sint (v :: u32)"
  "0x8000000000000000 \<le> w \<Longrightarrow> \<not> 0 \<le> sint (w :: u64)"
  using top_bit_negative [of 31 "uint v"] top_bit_negative [of 63 "uint w"] uint_lt2p [of v] uint_lt2p [of w]
  by (simp_all add: sint_uint word_le_def)

text \<open>A database that stores everything as it is.\<close>

definition plain_sqlite :: sqlite where
  "plain_sqlite = \<lparr>q_int64 = (\<lambda>c. case c of Int_Cell v \<Rightarrow> v | _ \<Rightarrow> 0),
     q_double = (\<lambda>c. case c of Real_Cell v \<Rightarrow> v | _ \<Rightarrow> 0),
     q_text = (\<lambda>c. case c of Text_Cell s \<Rightarrow> Some s | _ \<Rightarrow> None),
     q_blob = (\<lambda>c. case c of Blob_Cell s \<Rightarrow> s | _ \<Rightarrow> []), q_column = (\<lambda>t ph c. c),
     q_widen = ucast, q_narrow = (\<lambda>v. Some (ucast v)), q_shorten = ucast, q_lengthen = ucast,
     q_put_time = (\<lambda>v. str ''1970-01-01 00:00:00''), q_get_time = (\<lambda>s. 0)\<rparr>"

definition plain_parsers :: parsers where
  "plain_parsers = \<lparr>p_split = (\<lambda>d. split_view [d]), p_float = (\<lambda>s. 0), p_double = (\<lambda>s. 0), p_float80 = (\<lambda>s. 0),
     p_scaled = (\<lambda>t s. Inl Exception), p_time_point = (\<lambda>s. 0), p_uuid = (\<lambda>s. replicate 16 0), p_address = (\<lambda>s. s)\<rparr>"

lemma plain_sqlite_ok: "sqlite_ok plain_sqlite"
  by (simp add: sqlite_ok_def plain_sqlite_def)

text \<open>C35. Values that change on their way through the database: a signed 64-bit number comes back as an unsigned
  one, an unsigned number with its top bit set as zero, nanoseconds lose all but their lower 32 bits, an empty
  buffer comes back as null; MD5 values are written but cannot be read (a debug build fails); versions have a
  column but cannot be written.\<close>

theorem db_losses:
  assumes "sqlite_ok q" "0x80000000 \<le> v32" "0x8000000000000000 \<le> v64" "length md5 = 16"
  shows "round_trip b h p q (col\<lparr>col_type := 13\<rparr>) (OI64 v) = Some (Inr (OU64 v)) \<and>
    round_trip b h p q (col\<lparr>col_type := 8\<rparr>) (OU32 v32) = Some (Inr (OU32 0)) \<and>
    round_trip b h p q (col\<lparr>col_type := 9\<rparr>) (OU64 v64) = Some (Inr (OU64 0)) \<and>
    round_trip b h p q (col\<lparr>col_type := 17\<rparr>) (OChrono NanoSecond n) =
      Some (Inr (OChrono NanoSecond (scast (ucast n :: u32)))) \<and>
    round_trip b h p q (col\<lparr>col_type := 23\<rparr>) (OBuffer []) = Some (Inr ONull) \<and>
    round_trip b h p q (col\<lparr>col_type := 36\<rparr>) (OOctets Md5 md5) =
      Some (if b = Debug then Inl Assertion else Inr ONull) \<and>
    round_trip b h p q col (OVersion ver) = None"
proof -
  note ev = round_trip_def bind_value_defs get_value_defs sqlite_reads [OF assms(1)] through_column [OF assms(1)] column_int_def
    get_text_def in_range_def sint_negative(1) [OF assms(2)] sint_negative(2) [OF assms(3)]
  have "0 \<notin> set (show_octets Md5 md5)" "length (show_octets Md5 md5) = 32"
    using octets_text [of Md5 md5] assms(4) by simp_all
  then have "round_trip b h p q (col\<lparr>col_type := 36\<rparr>) (OOctets Md5 md5) =
      Some (if b = Debug then Inl Assertion else Inr ONull)"
    by (simp add: ev boost_assert_def)
  then show ?thesis by (simp add: ev)
qed

theorem db_losses_witness:
  "round_trip Debug Little plain_parsers plain_sqlite \<lparr>col_name = str ''size'', col_type = 8, col_width = 0\<rparr> (OU32 0xC0000000) =
    Some (Inr (OU32 0))"
  using db_losses [OF plain_sqlite_ok, of "0xC0000000" "0xC000000000000000" "replicate 16 0" Debug Little plain_parsers
      "\<lparr>col_name = str ''size'', col_type = 8, col_width = 0\<rparr>"] by simp

text \<open>A null value in a column of width 0, which every number has, is not bound at all, and the parameter
  counter stays: the next value is bound in its place.  In a column whose width is the number of another
  parameter it overwrites the value bound there.\<close>

theorem null_moves_row:
  assumes "stmt s = Some p" "\<not> h_busy p" "1 \<le> bind_counter s" "bind_counter s \<le> length (h_cells p)"
    and "obj \<noteq> ONull" "bind_value b h q obj = Some (Inr c)" "w < 2 ^ 32"
  shows "push b h q ONull 0 s = Inr s \<and>
    (\<exists>s' p'. rbind (push b h q ONull 0 s) (push b h q obj w) = Inr s' \<and> stmt s' = Some p' \<and>
      h_cells p' = (h_cells p)[bind_counter s - 1 := c] \<and> bind_counter s' = bind_counter s + 1) \<and>
    (1 \<le> w \<and> w \<le> length (h_cells p) \<longrightarrow> (\<exists>s' p'. push b h q ONull w s = Inr s' \<and> stmt s' = Some p' \<and>
      h_cells p' = (h_cells p)[w - 1 := Null_Cell] \<and> bind_counter s' = bind_counter s + 1))"
proof -
  have 0: "push b h q ONull 0 s = Inr s"
    using assms(1,3) by (simp add: push_def bind_object_def bind_at_def)
  moreover have "push b h q ONull w s = Inr (s\<lparr>stmt := Some (p\<lparr>h_cells := (h_cells p)[w - 1 := Null_Cell]\<rparr>),
      bind_counter := bind_counter s + 1\<rparr>)" if "1 \<le> w \<and> w \<le> length (h_cells p)"
    using that assms(1,2,3,7) by (simp add: push_def bind_object_def bind_at_def)
  ultimately show ?thesis using push_bound [OF assms(1-6), of w] by auto
qed

definition two_parameters :: statement where
  "two_parameters = snd (prepare 1 (Some 2) (statement_init []))"

theorem null_moves_row_witness:
  "push Debug Little plain_sqlite ONull 0 two_parameters = Inr two_parameters \<and>
   (\<exists>s' p'. rbind (push Debug Little plain_sqlite ONull 0 two_parameters) (push Debug Little plain_sqlite (OU8 7) 2) = Inr s' \<and>
     stmt s' = Some p' \<and> h_cells p' = [Int_Cell 7, Null_Cell])"
proof -
  have s: "stmt two_parameters = Some \<lparr>h_no = 1, h_cells = [Null_Cell, Null_Cell], h_busy = False, h_row = [], h_failed = False\<rparr>"
    "bind_counter two_parameters = 1"
    by (simp_all add: two_parameters_def statement_init_def prepare_def numeral_2_eq_2)
  have v: "bind_value Debug Little plain_sqlite (OU8 7) = Some (Inr (Int_Cell 7))" by (simp add: bind_value_defs)
  show ?thesis using null_moves_row [OF s(1) _ _ _ _ v, of 2] by (fastforce simp: s(2))
qed

text \<open>C34. The life of a statement: prepared and executed, it is finalized when it is closed, whether it has given
  a row or all of them.  A statement that is prepared but was never executed, or whose first step failed, is
  not finalized; preparing again while rows are left forgets the statement before.\<close>

theorem statement_lifecycle:
  assumes "state s = INITIAL" "step = No_More \<or> step = Row cs"
  shows "\<exists>s1 s2. prepare no (Some n) s = ((n, True), s1) \<and> no \<in> set (unfinished s1) \<and>
    execute b step s1 = Inr (True, s2) \<and>
    close s2 = (True, s2\<lparr>stmt := None, state := INITIAL, unfinished := unfinished s\<rparr>) \<and>
    close s1 = (False, s1) \<and>
    (\<exists>s3. execute b Failed s1 = Inr (False, s3) \<and> close s3 = (False, s3) \<and> no \<in> set (unfinished s3)) \<and>
    (step = Row cs \<longrightarrow>
      (\<exists>s4 s5. prepare no' (Some n) s2 = ((n, True), s4) \<and> execute b No_More s4 = Inr (True, s5) \<and>
        unfinished (snd (close s5)) = no # unfinished s) \<and>
      (\<exists>s6. prepare no' None s2 = ((0, False), s6) \<and> stmt s6 = None \<and> get_result Debug No_More s6 = Inl Assertion))"
  using assms by (auto simp: prepare_def execute_def close_def get_result_def boost_assert_def)

theorem statement_lifecycle_witness:
  "\<exists>s1 s2. prepare 1 (Some 2) (statement_init []) = ((2, True), s1) \<and> execute Debug No_More s1 = Inr (True, s2) \<and>
    close s2 = (True, s2\<lparr>stmt := None, state := INITIAL, unfinished := []\<rparr>)"
  using statement_lifecycle [of "statement_init []" No_More "[]" 1 2 Debug 2] by (fastforce simp: statement_init_def)

end
