(* ===== verification/Storage.thy ===== *)
theory Storage
  imports Sqlite
begin

text \<open>
  Rows of tables in a database, \<^verbatim>\<open>src/db/src/storage.cpp\<close>, and the pool of sessions,
  \<^verbatim>\<open>src/db/src/session_pool.cpp\<close>.
\<close>

section \<open>Rows out of results: storage.cpp\<close>

text \<open>Every column of the result with its object, in the order of the schema; the objects are never empty.\<close>

fun read_columns :: "build \<Rightarrow> endian \<Rightarrow> parsers \<Rightarrow> sqlite \<Rightarrow> cell list \<Rightarrow> nat \<Rightarrow> (nat \<times> column_sql \<times> bool) list \<Rightarrow>
    (column_sql \<times> bool \<times> object) list result" where
  "read_columns b h p q row index [] = Inr []"
| "read_columns b h p q row index ((idx, col, pk) # xs) =
     rbind (get b h p q row index (col_type col)) (\<lambda>obj.
     rbind (read_columns b h p q row (index + 1) xs) (\<lambda>entries. Inr ((col, pk, obj) # entries)))"

definition is_gen :: "column_sql \<Rightarrow> bool" where
  "is_gen col \<longleftrightarrow> col_name col = str ''gen'' \<and> col_type col = 9"

text \<open>\<^verbatim>\<open>numeric_cast\<close> of what is read of a column of this type.\<close>

definition generation :: "(column_sql \<times> bool \<times> object) list \<Rightarrow> u64" where
  "generation entries =
     foldl (\<lambda>g (col, pk, obj). if \<not> pk \<and> is_gen col
       then word_of_int (numeric_cast (\<lambda>_. 0) (\<lambda>_. 0) 0 (2 ^ 64 - 1) obj 0) else g) 0 entries"

definition to_record :: "build \<Rightarrow> endian \<Rightarrow> parsers \<Rightarrow> sqlite \<Rightarrow> meta_sql \<Rightarrow> cell list option \<Rightarrow> row result" where
  "to_record b h p q ms result =
     rbind (to_mem b ms) (\<lambda>m.
     case result of
       None \<Rightarrow> Inr (empty_record m)
     | Some row \<Rightarrow>
         rbind (read_columns b h p q row 1 (meta_loop ms)) (\<lambda>entries.
         Inr \<lparr>rec_meta = m, rec_key = [obj. (col, pk, obj) \<leftarrow> entries, pk],
           rec_data = [obj. (col, pk, obj) \<leftarrow> entries, \<not> pk \<and> \<not> is_gen col], rec_gen = generation entries\<rparr>))"

definition to_attr_map :: "build \<Rightarrow> endian \<Rightarrow> parsers \<Rightarrow> sqlite \<Rightarrow> meta_sql \<Rightarrow> cell list option \<Rightarrow> (u64, object) std_map result" where
  "to_attr_map b h p q ms result =
     rbind (boost_assert b (result \<noteq> None)) (\<lambda>_.
     rbind (to_mem b ms) (\<lambda>m.
     case result of
       None \<Rightarrow> Inr []
     | Some row \<Rightarrow>
         rbind (read_columns b h p q row 1 (meta_loop ms)) (\<lambda>entries.
         let amap = foldl (\<lambda>am (i, (col, pk, obj)). map_emplace (word_of_nat i) obj am) [] (enumerate 1 entries) in
         rbind (boost_assert b (length amap = meta_size ms)) (\<lambda>_. Inr amap))))"

definition to_param_map :: "build \<Rightarrow> endian \<Rightarrow> parsers \<Rightarrow> sqlite \<Rightarrow> meta_sql \<Rightarrow> cell list option \<Rightarrow> (byte list, object) std_map result" where
  "to_param_map b h p q ms result =
     rbind (boost_assert b (result \<noteq> None)) (\<lambda>_.
     rbind (to_mem b ms) (\<lambda>m.
     case result of
       None \<Rightarrow> Inr []
     | Some row \<Rightarrow>
         rbind (read_columns b h p q row 1 (meta_loop ms)) (\<lambda>entries.
         let pmap = foldl (\<lambda>pm (col, pk, obj). map_emplace (col_name col) obj pm) [] entries in
         rbind (boost_assert b (length pmap = meta_size ms)) (\<lambda>_. Inr pmap))))"

definition result_tuple :: "build \<Rightarrow> endian \<Rightarrow> parsers \<Rightarrow> sqlite \<Rightarrow> meta_sql \<Rightarrow> cell list option \<Rightarrow> object list result" where
  "result_tuple b h p q ms result =
     rbind (to_mem b ms) (\<lambda>m.
     case result of
       None \<Rightarrow> Inr []
     | Some row \<Rightarrow>
         rbind (read_columns b h p q row 1 (meta_loop ms)) (\<lambda>entries.
         rbind (boost_assert b (length entries = meta_size ms)) (\<lambda>_. Inr (map (snd \<circ> snd) entries))))"

text \<open>
  \<^verbatim>\<open>storage::loop\<close> over what the steps of the statement give; the callback is told a row at a time and ends
  the loop with false.  The result is the rows it was called with, and the statement after its destructor.
\<close>

fun read_rows :: "build \<Rightarrow> endian \<Rightarrow> parsers \<Rightarrow> sqlite \<Rightarrow> meta_sql \<Rightarrow> (row \<Rightarrow> bool) \<Rightarrow> outcome list \<Rightarrow> statement \<Rightarrow>
    (row list \<times> statement) result" where
  "read_rows b h p q ms f [] s = Inr ([], s)"
| "read_rows b h p q ms f (step # steps) s =
     rbind (get_result b step s) (\<lambda>(res, s').
     case res of
       None \<Rightarrow> Inr ([], s')
     | Some row \<Rightarrow>
         rbind (to_record b h p q ms (Some row)) (\<lambda>r.
         if f r then rbind (read_rows b h p q ms f steps s') (\<lambda>(rs, s''). Inr (r # rs, s'')) else Inr ([r], s')))"

definition storage_loop :: "build \<Rightarrow> endian \<Rightarrow> parsers \<Rightarrow> sqlite \<Rightarrow> meta_sql \<Rightarrow> (row \<Rightarrow> bool) \<Rightarrow> nat \<Rightarrow> nat option \<Rightarrow>
    outcome list \<Rightarrow> nat list \<Rightarrow> (row list \<times> statement) result" where
  "storage_loop b h p q ms f no compiled steps open =
     (let s = snd (prepare no compiled (statement_init open)) in
      rbind (read_rows b h p q ms f steps s) (\<lambda>(rs, s'). Inr (rs, snd (close s'))))"

text \<open>The statement that is prepared.\<close>

definition loop_sql :: "dialect \<Rightarrow> meta_sql \<Rightarrow> byte list" where
  "loop_sql d ms = sql_text (fst (from_table (meta_name ms) (fst (select_columns d ms True select_init))))"

text \<open>
  \<^verbatim>\<open>restore\<close>: an object from text and type code.  The readers of floating point numbers (they throw), and
  \<^verbatim>\<open>string_generator\<close> (\<open>None\<close>: it throws) are parameters.
\<close>

record restorers =
  r_stof :: "byte list \<Rightarrow> u32 result"
  r_stod :: "byte list \<Rightarrow> u64 result"
  r_stold :: "byte list \<Rightarrow> 128 word result"
  r_uuid :: "byte list \<Rightarrow> byte list option"

definition restore_unsigned :: "byte list \<Rightarrow> 'a::len word result" where
  "restore_unsigned s = (if s = [] then Inr 0 else rapply ucast (stoul 16 s))"

definition restore_signed :: "byte list \<Rightarrow> 'a::len word result" where
  "restore_signed s = (if s = [] then Inr 0 else rapply word_of_int (stol 32 10 s))"

definition to_severity :: "build \<Rightarrow> byte list \<Rightarrow> byte result" where
  "to_severity b s =
     (if s = str ''TRACE'' then Inr (severity_code LEVEL_TRACE)
      else if s = str ''DEBUG'' then Inr (severity_code LEVEL_DEBUG)
      else if s = str ''INFO'' then Inr (severity_code LEVEL_INFO)
      else if s = str ''WARN'' then Inr (severity_code LEVEL_WARNING)
      else if s = str ''ERROR'' then Inr (severity_code LEVEL_ERROR)
      else if s = str ''FATAL'' then Inr (severity_code LEVEL_FATAL)
      else rbind (boost_assert b False) (\<lambda>_. Inr (severity_code LEVEL_INFO)))"

definition restore :: "build \<Rightarrow> endian \<Rightarrow> parsers \<Rightarrow> restorers \<Rightarrow> byte list \<Rightarrow> nat \<Rightarrow> object result" where
  "restore b h p r s code =
     (let duration = (\<lambda>t. rapply (OChrono t) (to_duration (p_split p) (p_scaled p) t s)) in
      if code = 1 then Inr (OBool (s = str ''true''))
      else if code = 3 then rapply OFloat (r_stof r s)
      else if code = 4 then rapply ODouble (r_stod r s)
      else if code = 5 then rapply OFloat80 (r_stold r s)
      else if code = 6 then rapply OU8 (restore_unsigned s)
      else if code = 7 then rapply OU16 (restore_unsigned s)
      else if code = 8 then rapply OU32 (restore_unsigned s)
      else if code = 9 then rapply OU64 (restore_unsigned s)
      else if code = 10 then rapply OI8 (restore_signed s)
      else if code = 11 then rapply OI16 (restore_signed s)
      else if code = 12 then rapply OI32 (restore_signed s)
      else if code = 13 then rapply OI64 (restore_signed s)
      else if code = 15 then Inr (OPath s)
      else if code = 18 then duration MicroSecond
      else if code = 19 then duration MilliSecond
      else if code = 20 then duration Second
      else if code = 21 then duration Minute
      else if code = 22 then duration Hour
      else if code = 24 then rapply OVersion (to_version h (p_split p) s)
      else if code = 25 then rapply ORevision (to_revision h (p_split p) s)
      else if code = 27 then rapply OSeverity (to_severity b s)
      else if code = 23 then rbind (boost_assert b (length s mod 2 = 0)) (\<lambda>_. rapply OBuffer (hex_to_buffer b h s))
      else if code = 28 then rapply OMac48 (to_mac48 b h (p_split p) s)
      else if code = 29 then rapply OMac64 (to_mac64 b h (p_split p) s)
      else if code = 56 then Inr (case r_uuid r s of Some v \<Rightarrow> OOctets Uuid v | None \<Rightarrow> OString s)
      else if code = 57 then Inr (OIpAddress (p_address p s))
      else Inr (OString s))"

section \<open>The pool: session_pool.cpp\<close>

text \<open>
  Sessions are numbered in the order they are made; \<open>connects\<close> says which of them get a connection.  Times are
  signed numbers of seconds.
\<close>

record pool =
  sessions :: "nat list"
  pool_size :: nat
  life_time :: u64
  timer_set :: bool
  next_session :: nat

definition pool_init :: "bool \<Rightarrow> pool" where
  "pool_init sqlite = \<lparr>sessions = [], pool_size = (if sqlite then 1 else 5), life_time = 120, timer_set = False, next_session = 0\<rparr>"

definition add_session :: "(nat \<Rightarrow> bool) \<Rightarrow> pool \<Rightarrow> pool" where
  "add_session connects pl =
     (let n = next_session pl in
      pl\<lparr>sessions := sessions pl @ (if connects n then [n] else []), next_session := n + 1\<rparr>)"

text \<open>\<open>None\<close>: a new session that is not connected.\<close>

definition get_session :: "(nat \<Rightarrow> bool) \<Rightarrow> pool \<Rightarrow> nat option \<times> pool" where
  "get_session connects pl =
     (if sessions pl \<noteq> [] then
        if pool_size pl = 1 then (Some (hd (sessions pl)), pl)
        else
          let pl' = add_session connects pl in
          (Some (hd (sessions pl')), pl'\<lparr>sessions := tl (sessions pl')\<rparr>)
      else (None, pl))"

text \<open>The life time that is tested is the old one.\<close>

definition start_pool :: "(nat \<Rightarrow> bool) \<Rightarrow> build \<Rightarrow> bool \<Rightarrow> nat \<Rightarrow> u64 \<Rightarrow> pool \<Rightarrow> (bool \<times> pool) result" where
  "start_pool connects b sqlite n life pl =
     (if n < 1 then Inr (False, pl)
      else
        rbind (boost_assert b (sqlite \<longrightarrow> n = 1)) (\<lambda>_.
        if sint (life_time pl) < 5 then Inr (False, pl\<lparr>pool_size := n\<rparr>)
        else
          let pl' = (add_session connects ^^ n) (pl\<lparr>pool_size := n, life_time := life\<rparr>);
              pl'' = (if n > 1 then pl'\<lparr>timer_set := True\<rparr> else pl') in
          Inr (length (sessions pl'') = n, pl'')))"

definition on_timer :: "(nat \<Rightarrow> bool) \<Rightarrow> build \<Rightarrow> bool \<Rightarrow> pool \<Rightarrow> pool result" where
  "on_timer connects b aborted pl =
     (if aborted then Inr pl
      else
        rbind (boost_assert b (length (sessions pl) \<le> pool_size pl)) (\<lambda>_.
        rbind (if length (sessions pl) = pool_size pl then
                 let pl' = add_session connects pl in
                 rbind (defined_if (sessions pl' \<noteq> [])) (\<lambda>_. Inr (pl'\<lparr>sessions := tl (sessions pl')\<rparr>))
               else
                 let diff = word_of_nat (pool_size pl) - word_of_nat (length (sessions pl)) :: u64 in
                 Inr ((add_session connects ^^ unat diff) pl)) (\<lambda>pl'.
        Inr (pl'\<lparr>timer_set := True\<rparr>))))"

definition stop_pool :: "pool \<Rightarrow> pool" where
  "stop_pool pl = pl\<lparr>sessions := [], timer_set := False\<rparr>"

definition is_single_mode :: "pool \<Rightarrow> bool" where
  "is_single_mode pl \<longleftrightarrow> length (sessions pl) = 1"

section \<open>Rows come back\<close>

lemma store_values:
  assumes "sqlite_ok q" "splits (p_split p)"
    and "list_all2 (\<lambda>col obj. storable p q obj \<and> col_type col = unat (type_tag obj)) cols objs"
  shows "\<exists>cs. list_all2 (\<lambda>obj c. obj \<noteq> ONull \<and> bind_value b Little q obj = Some (Inr c)) objs cs \<and>
    length cs = length cols \<and>
    (\<forall>i < length cols. get_value b Little p q (col_type (cols ! i)) (through q (cols ! i) (cs ! i)) = Inr (objs ! i))"
  using assms(3)
proof (induction rule: list_all2_induct)
  case (Cons col cols obj objs)
  then obtain cs where cs: "list_all2 (\<lambda>obj c. obj \<noteq> ONull \<and> bind_value b Little q obj = Some (Inr c)) objs cs"
    "length cs = length cols"
    "\<forall>i < length cols. get_value b Little p q (col_type (cols ! i)) (through q (cols ! i) (cs ! i)) = Inr (objs ! i)"
    by blast
  obtain c where "bind_value b Little q obj = Some (Inr c)"
    "get_value b Little p q (col_type col) (through q col c) = Inr obj"
    using store_value [OF assms(1,2)] Cons.hyps(1) by blast
  moreover have "obj \<noteq> ONull" using Cons.hyps(1) by (auto simp: storable_def)
  ultimately show ?case using cs by (intro exI [of _ "c # cs"]) (auto simp: less_Suc_eq_0_disj)
qed simp

lemma read_columns_values:
  assumes "\<And>i. i < length xs \<Longrightarrow> index + i \<le> length row \<and>
      get_value b h p q (col_type (fst (snd (xs ! i)))) (row ! (index + i - 1)) = Inr (objs ! i)"
    and "length objs = length xs" "1 \<le> index"
  shows "read_columns b h p q row index xs = Inr (map2 (\<lambda>(idx, col, pk) obj. (col, pk, obj)) xs objs)"
  using assms
proof (induction xs arbitrary: index objs)
  case (Cons x xs)
  obtain idx col pk where x: "x = (idx, col, pk)" by (cases x)
  obtain obj os where objs: "objs = obj # os" "length os = length xs" using Cons.prems(2) by (cases objs) auto
  have 0: "index \<le> length row \<and> get_value b h p q (col_type col) (row ! (index - 1)) = Inr obj"
    using Cons.prems(1) [of 0] by (simp add: x objs)
  then have "get b h p q row index (col_type col) = Inr obj"
    using Cons.prems(3) by (simp add: get_def defined_if_def)
  moreover have "read_columns b h p q row (index + 1) xs = Inr (map2 (\<lambda>(idx, col, pk) obj. (col, pk, obj)) xs os)"
  proof (rule Cons.IH)
    fix i assume "i < length xs"
    then show "index + 1 + i \<le> length row \<and>
        get_value b h p q (col_type (fst (snd (xs ! i)))) (row ! (index + 1 + i - 1)) = Inr (os ! i)"
      using Cons.prems(1) [of "Suc i"] by (simp add: objs)
  qed (use objs in simp_all)
  ultimately show ?case by (simp add: x objs)
qed simp

lemma meta_loop_flags:
  assumes "columns m = ks @ bs" "length ks = pk_size m" "length xs = length ks" "length ys = length bs"
  shows "map2 (\<lambda>(idx, col, pk) obj. (col, pk, obj)) (meta_loop m) (xs @ ys) =
    map2 (\<lambda>col obj. (col, True, obj)) ks xs @ map2 (\<lambda>col obj. (col, False, obj)) bs ys"
proof (rule nth_equalityI)
  show "length (map2 (\<lambda>(idx, col, pk) obj. (col, pk, obj)) (meta_loop m) (xs @ ys)) =
    length (map2 (\<lambda>col obj. (col, True, obj)) ks xs @ map2 (\<lambda>col obj. (col, False, obj)) bs ys)"
    using assms by (simp add: meta_loop_def)
qed (use assms in \<open>auto simp: meta_loop_def nth_append nth_enumerate_eq\<close>)

lemma entries_key:
  "length ks = length xs \<Longrightarrow> [obj. (col, pk, obj) \<leftarrow> map2 (\<lambda>col obj. (col, True, obj)) ks xs, pk] = xs \<and>
     [obj. (col, pk, obj) \<leftarrow> map2 (\<lambda>col obj. (col, True, obj)) ks xs, \<not> pk \<and> \<not> is_gen col] = []"
  by (induction ks xs rule: list_induct2) auto

lemma entries_body:
  "length ks = length xs \<Longrightarrow> \<forall>col \<in> set ks. \<not> is_gen col \<Longrightarrow>
     [obj. (col, pk, obj) \<leftarrow> map2 (\<lambda>col obj. (col, False, obj)) ks xs, pk] = [] \<and>
     [obj. (col, pk, obj) \<leftarrow> map2 (\<lambda>col obj. (col, False, obj)) ks xs, \<not> pk \<and> \<not> is_gen col] = xs"
  by (induction ks xs rule: list_induct2) auto

lemma generation_keeps:
  "\<forall>(col, pk, obj) \<in> set es. pk \<or> \<not> is_gen col \<Longrightarrow>
     foldl (\<lambda>g (col, pk, obj). if \<not> pk \<and> is_gen col
       then word_of_int (numeric_cast (\<lambda>_. 0) (\<lambda>_. 0) 0 (2 ^ 64 - 1) obj 0) else g) g es = g"
  by (induction es) auto

lemma generation_gen:
  assumes "\<forall>(col, pk, obj) \<in> set xs. pk \<or> \<not> is_gen col" "\<forall>(col, pk, obj) \<in> set ys. pk \<or> \<not> is_gen col" "is_gen c"
  shows "generation (xs @ (c, False, OU64 g) # ys) = g"
  using assms(3) uint_lt2p [of g]
  by (simp add: generation_def generation_keeps [OF assms(1)] generation_keeps [OF assms(2)] numeric_cast_def Let_def)

lemma to_record_values:
  assumes "to_mem b ms = Inr m" "columns ms = ks @ gen_column # bs" "length ks = pk_size ms"
    and "\<forall>col \<in> set (ks @ bs). col_name col \<noteq> str ''gen''" "length ks = length key" "length bs = length data"
    and "length row = meta_size ms"
    and "\<forall>i < meta_size ms. get_value b h p q (col_type (columns ms ! i)) (row ! i) = Inr ((key @ OU64 g # data) ! i)"
  shows "to_record b h p q ms (Some row) = Inr \<lparr>rec_meta = m, rec_key = key, rec_data = data, rec_gen = g\<rparr>"
proof -
  let ?objs = "key @ OU64 g # data"
  have m: "length ?objs = meta_size ms" using assms(2,5,6) by (simp add: meta_size_def)
  have "read_columns b h p q row 1 (meta_loop ms) = Inr (map2 (\<lambda>(idx, col, pk) obj. (col, pk, obj)) (meta_loop ms) ?objs)"
  proof (rule read_columns_values)
    fix i assume "i < length (meta_loop ms)"
    then have i: "i < meta_size ms" by (simp add: meta_loop_def meta_size_def)
    then have "fst (snd (meta_loop ms ! i)) = columns ms ! i"
      by (simp add: meta_loop_def meta_size_def nth_enumerate_eq)
    then show "1 + i \<le> length row \<and>
        get_value b h p q (col_type (fst (snd (meta_loop ms ! i)))) (row ! (1 + i - 1)) = Inr (?objs ! i)"
      using assms(7,8) i by simp
  qed (use m in \<open>simp_all add: meta_loop_def meta_size_def\<close>)
  moreover define xs where "xs = map2 (\<lambda>col obj. (col, True, obj)) ks key"
  define ys where "ys = map2 (\<lambda>col obj. (col, False, obj)) bs data"
  have "map2 (\<lambda>(idx, col, pk) obj. (col, pk, obj)) (meta_loop ms) ?objs = xs @ (gen_column, False, OU64 g) # ys"
    using meta_loop_flags [OF assms(2,3), of key "OU64 g # data"] assms(5,6) by (simp add: xs_def ys_def)
  moreover have gen: "is_gen gen_column" "\<forall>col \<in> set bs. \<not> is_gen col"
    using assms(4) by (auto simp: is_gen_def gen_column_def)
  moreover have "generation (xs @ (gen_column, False, OU64 g) # ys) = g"
    using gen by (intro generation_gen) (auto simp: xs_def ys_def set_zip)
  ultimately show ?thesis
    by (simp add: to_record_def assms(1) entries_key [OF assms(5), folded xs_def]
        entries_body [OF assms(6) gen(2), folded ys_def])
qed

lemma integrity_by_length:
  assumes "length key = pk_size m" "length key + length data = meta_size m" "meta_size m < 2 ^ 64"
  shows "check_integrity m key data"
proof -
  have "body_size m = word_of_nat (length data)"
    unfolding body_size_def assms(2) [symmetric] using assms(1) by simp
  moreover have "length data < 2 ^ 64" using assms(2,3) by simp
  ultimately have "unat (body_size m) = length data" by (simp only: unat_of_nat) simp
  then show ?thesis using assms(1) by (simp add: check_integrity_def check_key_integrity_def check_data_integrity_def)
qed

text \<open>C32. Rows go to the database and come back, on a little-endian host: a row with a value of its column's type in
  every column, bound with \<^verbatim>\<open>bind\<close> to the statement of \<^verbatim>\<open>insert\<close>, is what \<^verbatim>\<open>to_record\<close> makes of the row of the table: key,
  body and generation, below \<open>2 ^ 63\<close>.  The values (\<open>storable\<close>) are truth values, signed numbers of up to 32 bits, unsigned
  ones (32 and 64 bits without the top bit), doubles but NaN and negative zero and what doubles can represent, texts
  and paths (below 1024) without zero bytes, times SQLite reads back, time spans (nanoseconds of 32 bits), buffers not
  empty, MACs, OBIS codes but the one of all FF, keys, UUIDs and digests but MD5, and addresses of over 6 characters; no
  other type.  The schema has \<^verbatim>\<open>gen\<close> after its key, as \<^verbatim>\<open>to_sql\<close> makes it, no other column of this name, none named
  \<^verbatim>\<open>ROWID\<close>, and a table in memory.  SQLite is assumed to keep such values (\<open>sqlite_ok\<close>), \<^verbatim>\<open>boost::split\<close> to split.\<close>

theorem row_roundtrip:
  assumes "sqlite_ok q" "splits (p_split p)" "to_mem b ms = Inr m"
    and "columns ms = ks @ gen_column # bs" "length ks = pk_size ms"
    and "\<forall>col \<in> set (ks @ bs). col_name col \<noteq> str ''gen''" "\<forall>col \<in> set (columns ms). col_name col \<noteq> str ''ROWID''"
    and "list_all2 (\<lambda>col obj. storable p q obj \<and> col_type col = unat (type_tag obj)) ks key"
    and "list_all2 (\<lambda>col obj. storable p q obj \<and> col_type col = unat (type_tag obj)) bs data"
    and "g < 0x8000000000000000" "meta_size ms < 2 ^ 64"
  shows "\<exists>s' p'. bind_row b Little q key (OU64 g # data) ms
        (snd (prepare no (Some (length (own_columns SQLITE ms))) (statement_init open))) = Inr (True, s') \<and>
      stmt s' = Some p' \<and>
      to_record b Little p q ms (Some (map2 (through q) (columns ms) (h_cells p'))) =
        Inr \<lparr>rec_meta = m, rec_key = key, rec_data = data, rec_gen = g\<rparr>"
proof -
  let ?objs = "key @ OU64 g # data" and ?n = "length (own_columns SQLITE ms)"
  have len: "length ks = length key" "length bs = length data" using assms(8,9) by (simp_all add: list_all2_lengthD)
  have "list_all2 (\<lambda>col obj. storable p q obj \<and> col_type col = unat (type_tag obj)) (columns ms) ?objs"
    using assms(4,8,9,10) by (simp add: list_all2_appendI gen_column_def storable_def)
  then obtain cs where cs: "list_all2 (\<lambda>obj c. obj \<noteq> ONull \<and> bind_value b Little q obj = Some (Inr c)) ?objs cs"
    "length cs = meta_size ms"
    "\<forall>i < meta_size ms. get_value b Little p q (col_type (columns ms ! i)) (through q (columns ms ! i) (cs ! i)) = Inr (?objs ! i)"
    using store_values [OF assms(1,2)] unfolding meta_size_def by blast
  have n: "?n = meta_size ms"
    using assms(7) by (simp add: own_columns_def do_skip_def map_snd_meta_loop meta_size_def)
  let ?s = "snd (prepare no (Some ?n) (statement_init open))"
  let ?p = "\<lparr>h_no = no, h_cells = replicate ?n Null_Cell, h_busy = False, h_row = [], h_failed = False\<rparr>"
  have s: "stmt ?s = Some ?p" "bind_counter ?s = 1" by (simp_all add: prepare_def statement_init_def)
  have m: "length key + length (OU64 g # data) = meta_size ms" using assms(4) len by (simp add: meta_size_def)
  then have "check_integrity ms key (OU64 g # data)"
    using integrity_by_length assms(5,11) len by metis
  then obtain sd where "bind_row b Little q key (OU64 g # data) ms ?s =
      Inr (True, ?s\<lparr>stmt := Some (?p\<lparr>h_cells := cs\<rparr>), bind_counter := 1 + length ?objs, static_data := sd\<rparr>)"
    using bind_row_bound [OF cs(1) s(1) _ s(2) _ _ m] m n by auto
  moreover have "to_record b Little p q ms (Some (map2 (through q) (columns ms) cs)) =
      Inr \<lparr>rec_meta = m, rec_key = key, rec_data = data, rec_gen = g\<rparr>"
    using cs(2,3) by (intro to_record_values [OF assms(3-6) len]) (simp_all add: meta_size_def)
  ultimately show ?thesis by auto
qed

definition stored_schema :: meta_sql where
  "stored_schema = \<lparr>meta_name = str ''TDevice'',
     columns = [\<lparr>col_name = str ''id'', col_type = 6, col_width = 0\<rparr>, gen_column,
       \<lparr>col_name = str ''name'', col_type = 14, col_width = 32\<rparr>], pk_size = 1\<rparr>"

theorem row_roundtrip_witness:
  "\<exists>m s' p'. to_mem Debug stored_schema = Inr m \<and>
    bind_row Debug Little plain_sqlite [OU8 7] [OU64 3, OString (str ''gate'')] stored_schema
      (snd (prepare 1 (Some (length (own_columns SQLITE stored_schema))) (statement_init []))) = Inr (True, s') \<and>
    stmt s' = Some p' \<and>
    to_record Debug Little plain_parsers plain_sqlite stored_schema
      (Some (map2 (through plain_sqlite) (columns stored_schema) (h_cells p'))) =
      Inr \<lparr>rec_meta = m, rec_key = [OU8 7], rec_data = [OString (str ''gate'')], rec_gen = 3\<rparr>"
proof -
  have names: "0 \<notin> set (str ''gate'')" by (simp add: str_def byte_of_char_def)
  obtain m where m: "to_mem Debug stored_schema = Inr m"
    by (simp add: to_mem_def stored_schema_def meta_loop_def gen_column_def make_meta_def tolower_def str_def byte_of_char_def)
  show ?thesis
    using row_roundtrip [OF plain_sqlite_ok _ m, of plain_parsers "take 1 (columns stored_schema)"
        "drop 2 (columns stored_schema)" "[OU8 7]" "[OString (str ''gate'')]" 3 1 "[]"] m names
    by (simp add: stored_schema_def plain_parsers_def splits_split_view storable_def gen_column_def meta_size_def)
qed

section \<open>Loops over tables\<close>

lemma read_rows_all:
  assumes "list_all2 (\<lambda>row r. to_record b h p q ms (Some row) = Inr r) rows rs"
    and "state s = READY \<or> state s = RUNNING" "stmt s = Some st" "h_no st = no" "unfinished s = no # open"
  shows "\<exists>s' st'. read_rows b h p q ms f (map Row rows @ No_More # steps) s =
      Inr (takeWhile f rs @ take 1 (dropWhile f rs), s') \<and>
    (state s' = RUNNING \<or> state s' = DONE) \<and> stmt s' = Some st' \<and> h_no st' = no \<and> unfinished s' = no # open"
  using assms
proof (induction rows rs arbitrary: s st rule: list_all2_induct)
  case Nil
  then show ?case by (simp add: get_result_def execute_def)
next
  case (Cons row rows r rs)
  let ?st = "st\<lparr>h_busy := True, h_row := row, h_failed := False\<rparr>"
  let ?s = "s\<lparr>stmt := Some ?st, state := RUNNING\<rparr>"
  have g: "get_result b (Row row) s = Inr (Some row, ?s)"
    using Cons.prems by (auto simp: get_result_def execute_def)
  show ?case
  proof (cases "f r")
    case True
    obtain s' st' where "read_rows b h p q ms f (map Row rows @ No_More # steps) ?s =
        Inr (takeWhile f rs @ take 1 (dropWhile f rs), s')"
      "state s' = RUNNING \<or> state s' = DONE" "stmt s' = Some st'" "h_no st' = no" "unfinished s' = no # open"
      using Cons.IH [of ?s ?st] Cons.prems by auto
    then show ?thesis using True g Cons.hyps by simp
  next
    case False
    then show ?thesis using g Cons.hyps Cons.prems by simp
  qed
qed

text \<open>A loop over a table: the callback gets the records of the rows in order, up to and with the first one
  it answers with false; then the statement is finalized.  If the first step fails the statement is not, and
  SQLite keeps it.\<close>

theorem storage_loop_rows:
  assumes "list_all2 (\<lambda>row r. to_record b h p q ms (Some row) = Inr r) rows rs"
  shows "(\<exists>s. storage_loop b h p q ms f no (Some n) (map Row rows @ No_More # steps) open =
      Inr (takeWhile f rs @ take 1 (dropWhile f rs), s) \<and> stmt s = None \<and> unfinished s = open) \<and>
    (\<exists>s. storage_loop b h p q ms f no (Some n) (Failed # steps) open = Inr ([], s) \<and> unfinished s = no # open)"
proof (rule conjI)
  let ?s = "snd (prepare no (Some n) (statement_init open))"
  have s: "state ?s = READY" "stmt ?s = Some (the (stmt ?s))" "h_no (the (stmt ?s)) = no" "unfinished ?s = no # open"
    by (simp_all add: prepare_def statement_init_def)
  obtain s' st' where "read_rows b h p q ms f (map Row rows @ No_More # steps) ?s =
      Inr (takeWhile f rs @ take 1 (dropWhile f rs), s')"
    "state s' = RUNNING \<or> state s' = DONE" "stmt s' = Some st'" "h_no st' = no" "unfinished s' = no # open"
    using read_rows_all [OF assms disjI1 [OF s(1)] s(2-4)] by blast
  then show "\<exists>s. storage_loop b h p q ms f no (Some n) (map Row rows @ No_More # steps) open =
      Inr (takeWhile f rs @ take 1 (dropWhile f rs), s) \<and> stmt s = None \<and> unfinished s = open"
    by (auto simp: storage_loop_def close_def)
  show "\<exists>s. storage_loop b h p q ms f no (Some n) (Failed # steps) open = Inr ([], s) \<and> unfinished s = no # open"
    by (simp add: storage_loop_def prepare_def statement_init_def get_result_def execute_def close_def)
qed

lemma stored_row:
  "\<exists>m. to_record Debug Little plain_parsers plain_sqlite stored_schema
      (Some [Int_Cell 7, Int_Cell 3, Text_Cell (str ''gate'')]) =
    Inr \<lparr>rec_meta = m, rec_key = [OU8 7], rec_data = [OString (str ''gate'')], rec_gen = 3\<rparr>"
proof -
  obtain m where m: "to_mem Debug stored_schema = Inr m"
    by (simp add: to_mem_def stored_schema_def meta_loop_def gen_column_def make_meta_def tolower_def str_def byte_of_char_def)
  note ev = get_value_defs Let_def plain_sqlite_def column_int_def get_text_def in_range_def
  have v: "get_value Debug Little plain_parsers plain_sqlite 6 (Int_Cell 7) = Inr (OU8 7)"
    "get_value Debug Little plain_parsers plain_sqlite 9 (Int_Cell 3) = Inr (OU64 3)"
    "get_value Debug Little plain_parsers plain_sqlite 14 (Text_Cell (str ''gate'')) = Inr (OString (str ''gate''))"
    by (simp_all add: ev)
  have g: "\<forall>i < meta_size stored_schema. get_value Debug Little plain_parsers plain_sqlite (col_type (columns stored_schema ! i))
      ([Int_Cell 7, Int_Cell 3, Text_Cell (str ''gate'')] ! i) = Inr (([OU8 7] @ OU64 3 # [OString (str ''gate'')]) ! i)"
    by (simp add: stored_schema_def gen_column_def meta_size_def All_less_Suc2 v)
  show ?thesis
    by (rule exI, rule to_record_values [OF m _ _ _ _ _ _ g, of "take 1 (columns stored_schema)" "drop 2 (columns stored_schema)"])
      (simp_all add: stored_schema_def gen_column_def meta_size_def)
qed

theorem storage_loop_rows_witness:
  "\<exists>r s. storage_loop Debug Little plain_parsers plain_sqlite stored_schema (\<lambda>r. False) 1 (Some 0)
      [Row [Int_Cell 7, Int_Cell 3, Text_Cell (str ''gate'')], No_More] [] = Inr ([r], s) \<and> rec_key r = [OU8 7] \<and>
    stmt s = None \<and> unfinished s = []"
proof -
  obtain m where "to_record Debug Little plain_parsers plain_sqlite stored_schema
      (Some [Int_Cell 7, Int_Cell 3, Text_Cell (str ''gate'')]) =
    Inr \<lparr>rec_meta = m, rec_key = [OU8 7], rec_data = [OString (str ''gate'')], rec_gen = 3\<rparr>" (is "_ = Inr ?r")
    using stored_row by blast
  then have "list_all2 (\<lambda>row r. to_record Debug Little plain_parsers plain_sqlite stored_schema (Some row) = Inr r)
      [[Int_Cell 7, Int_Cell 3, Text_Cell (str ''gate'')]] [?r]" by simp
  from storage_loop_rows [OF this, of "\<lambda>r. False" 1 0 "[]" "[]"] show ?thesis by auto
qed

section \<open>The pool keeps its size\<close>

inductive pool_reach :: "(nat \<Rightarrow> bool) \<Rightarrow> build \<Rightarrow> bool \<Rightarrow> pool \<Rightarrow> bool" for connects b sqlite where
  reach_init: "pool_reach connects b sqlite (pool_init sqlite)"
| reach_start: "pool_reach connects b sqlite pl \<Longrightarrow> sessions pl = [] \<Longrightarrow> n < 2 ^ 64 \<Longrightarrow>
    start_pool connects b sqlite n life pl = Inr (ok, pl') \<Longrightarrow> pool_reach connects b sqlite pl'"
| reach_get: "pool_reach connects b sqlite pl \<Longrightarrow> get_session connects pl = (r, pl') \<Longrightarrow> pool_reach connects b sqlite pl'"
| reach_timer: "pool_reach connects b sqlite pl \<Longrightarrow> timer_set pl \<Longrightarrow> on_timer connects b aborted pl = Inr pl' \<Longrightarrow>
    pool_reach connects b sqlite pl'"
| reach_stop: "pool_reach connects b sqlite pl \<Longrightarrow> pool_reach connects b sqlite (stop_pool pl)"

definition numbered :: "pool \<Rightarrow> bool" where
  "numbered pl \<longleftrightarrow> distinct (sessions pl) \<and> (\<forall>n \<in> set (sessions pl). n < next_session pl)"

definition pool_ok :: "pool \<Rightarrow> bool" where
  "pool_ok pl \<longleftrightarrow> numbered pl \<and> length (sessions pl) \<le> pool_size pl \<and> 1 \<le> pool_size pl"

lemma add_session_numbered: "numbered pl \<Longrightarrow> numbered (add_session c pl)"
  by (auto simp: numbered_def add_session_def Let_def less_Suc_eq)

lemma add_session_size:
  shows pool_size_add [simp]: "pool_size (add_session c pl) = pool_size pl"
    and length_add: "length (sessions (add_session c pl)) \<le> Suc (length (sessions pl))"
    and not_empty_add [simp]: "sessions pl \<noteq> [] \<Longrightarrow> sessions (add_session c pl) \<noteq> []"
  by (simp_all add: add_session_def Let_def)

lemma add_sessions:
  "numbered pl \<Longrightarrow> numbered ((add_session c ^^ k) pl)" "pool_size ((add_session c ^^ k) pl) = pool_size pl"
  "length (sessions ((add_session c ^^ k) pl)) \<le> length (sessions pl) + k"
proof (induction k)
  case (Suc k)
  show "numbered pl \<Longrightarrow> numbered ((add_session c ^^ Suc k) pl)" using Suc.IH(1) add_session_numbered by simp
  show "pool_size ((add_session c ^^ Suc k) pl) = pool_size pl" using Suc.IH(2) by simp
  show "length (sessions ((add_session c ^^ Suc k) pl)) \<le> length (sessions pl) + Suc k"
    using Suc.IH(3) length_add [of c "(add_session c ^^ k) pl"] by simp
qed simp_all

lemma numbered_tl: "numbered pl \<Longrightarrow> numbered (pl\<lparr>sessions := tl (sessions pl)\<rparr>)"
  by (cases "sessions pl") (simp_all add: numbered_def)

lemma pool_ok_timer:
  assumes "pool_ok pl" "pool_size pl < 2 ^ 64"
  shows "\<exists>pl'. on_timer c b False pl = Inr pl' \<and> pool_ok pl' \<and> pool_size pl' = pool_size pl"
proof (cases "length (sessions pl) = pool_size pl")
  case True
  let ?pl = "add_session c pl"
  have "sessions pl \<noteq> []" using True assms(1) by (auto simp: pool_ok_def)
  moreover have "numbered (?pl\<lparr>sessions := tl (sessions ?pl)\<rparr>)"
    using assms(1) by (intro numbered_tl add_session_numbered) (simp add: pool_ok_def)
  moreover have "length (sessions ?pl) - 1 \<le> pool_size pl"
    using length_add [of c pl] True by simp
  ultimately show ?thesis
    using True assms(1) by (auto simp: on_timer_def Let_def pool_ok_def defined_if_def numbered_def)
next
  case False
  let ?d = "word_of_nat (pool_size pl) - word_of_nat (length (sessions pl)) :: u64"
  have le: "length (sessions pl) \<le> pool_size pl" using assms(1) by (simp add: pool_ok_def)
  have "unat ?d = pool_size pl - length (sessions pl)"
    using assms(2) le by (simp add: unat_of_nat flip: of_nat_diff)
  then show ?thesis
    using False assms(1) le add_sessions(1) [where c = c and pl = pl and k = "unat ?d"] add_sessions(2) [where c = c and pl = pl and k = "unat ?d"]
      add_sessions(3) [where c = c and pl = pl and k = "unat ?d"]
    by (auto simp: on_timer_def Let_def pool_ok_def numbered_def)
qed

lemma pool_ok_get:
  assumes "pool_ok pl" "get_session c pl = (r, pl')"
  shows "pool_ok pl' \<and> pool_size pl' = pool_size pl \<and>
    (\<forall>n. r = Some n \<and> pool_size pl \<noteq> 1 \<longrightarrow> n \<notin> set (sessions pl') \<and> n < next_session pl')"
proof (cases "sessions pl \<noteq> [] \<and> pool_size pl \<noteq> 1")
  case True
  let ?pl = "add_session c pl"
  have eq: "r = Some (hd (sessions ?pl))" "pl' = ?pl\<lparr>sessions := tl (sessions ?pl)\<rparr>"
    using assms(2) True by (auto simp: get_session_def Let_def)
  have n: "numbered ?pl" using assms(1) add_session_numbered by (simp add: pool_ok_def)
  obtain x xs where x: "sessions ?pl = x # xs" using True not_empty_add [of pl c] by (cases "sessions ?pl") auto
  then show ?thesis
    using assms(1) n numbered_tl [OF n] length_add [of c pl] by (simp add: eq pool_ok_def) (simp add: numbered_def)
next
  case False
  then show ?thesis using assms by (auto simp: get_session_def split: if_splits)
qed

lemma pool_ok_start:
  assumes "pool_ok pl" "sessions pl = []" "start_pool c b sqlite n life pl = Inr (ok, pl')"
  shows "pool_ok pl' \<and> (n = 0 \<or> pool_size pl' = n)"
proof -
  let ?pl = "pl\<lparr>pool_size := n, life_time := life\<rparr>"
  have "numbered ?pl" using assms(1) by (simp add: pool_ok_def numbered_def)
  then show ?thesis
    using assms add_sessions(1) [where c = c and pl = ?pl and k = n] add_sessions(2) [where c = c and pl = ?pl and k = n]
      add_sessions(3) [where c = c and pl = ?pl and k = n]
    by (auto simp: start_pool_def Let_def pool_ok_def numbered_def rbind_eq_Inr split: if_splits)
qed

lemma pool_reach_ok: "pool_reach c b sqlite pl \<Longrightarrow> pool_ok pl \<and> pool_size pl < 2 ^ 64"
proof (induction rule: pool_reach.induct)
  case reach_init
  then show ?case by (simp add: pool_init_def pool_ok_def numbered_def)
next
  case (reach_start pl n life ok pl')
  moreover have "pool_size pl' = pool_size pl" if "n = 0"
    using reach_start.hyps(4) that by (simp add: start_pool_def)
  ultimately show ?case using pool_ok_start [of pl c b sqlite n life ok pl'] by auto
next
  case (reach_get pl r pl')
  then show ?case using pool_ok_get by metis
next
  case (reach_timer pl aborted pl')
  then show ?case using pool_ok_timer [of pl c b] by (cases aborted) (auto simp: on_timer_def [of c b True])
next
  case (reach_stop pl)
  then show ?case by (simp add: stop_pool_def pool_ok_def numbered_def)
qed

text \<open>C33. The session pool: as long as it is started only while it is empty, it never holds more sessions than
  its size, whatever connections succeed, so the timer's assertion holds and the timer makes a proper
  pool again; a pool of more than one session gives every session to one caller only.\<close>

theorem pool_invariant:
  assumes "pool_reach c b sqlite pl"
  shows "length (sessions pl) \<le> pool_size pl \<and> distinct (sessions pl) \<and>
    (\<exists>pl'. on_timer c b False pl = Inr pl' \<and> pool_size pl' = pool_size pl \<and> length (sessions pl') \<le> pool_size pl) \<and>
    (\<exists>r pl'. get_session c pl = (r, pl') \<and> (r = None \<longleftrightarrow> sessions pl = []) \<and>
      (\<forall>n. r = Some n \<and> pool_size pl \<noteq> 1 \<longrightarrow> n \<notin> set (sessions pl')))"
proof -
  have ok: "pool_ok pl" "pool_size pl < 2 ^ 64" using pool_reach_ok [OF assms] by simp_all
  obtain r pl' where g: "get_session c pl = (r, pl')" by (cases "get_session c pl")
  have "r = None \<longleftrightarrow> sessions pl = []" using g by (auto simp: get_session_def Let_def split: if_splits)
  then show ?thesis
    using ok pool_ok_timer [OF ok, of c b] pool_ok_get [OF ok(1) g] g by (auto simp: pool_ok_def numbered_def)
qed

definition started_once :: "bool \<Rightarrow> pool" where
  "started_once sqlite = (case start_pool (\<lambda>n. n \<noteq> 1) Debug sqlite 2 60 (pool_init sqlite) of Inr (ok, pl) \<Rightarrow> pl | Inl _ \<Rightarrow> pool_init sqlite)"

theorem pool_invariant_witness:
  "sessions (started_once False) = [0] \<and> length (sessions (started_once False)) \<le> pool_size (started_once False)"
proof -
  have s: "start_pool (\<lambda>n. n \<noteq> 1) Debug False 2 60 (pool_init False) =
      Inr (False, \<lparr>sessions = [0], pool_size = 2, life_time = 60, timer_set = True, next_session = 2\<rparr>)"
    by (simp add: start_pool_def pool_init_def add_session_def numeral_2_eq_2 Let_def)
  have e: "started_once False = \<lparr>sessions = [0], pool_size = 2, life_time = 60, timer_set = True, next_session = 2\<rparr>"
    unfolding started_once_def s by simp
  have "pool_reach (\<lambda>n. n \<noteq> 1) Debug False (started_once False)"
    unfolding e by (rule reach_start [OF reach_init _ _ s]) (simp_all add: pool_init_def)
  then show ?thesis using pool_invariant by (fastforce simp: e)
qed

text \<open>Started twice without a stop it has too many sessions, and the assertion of the timer fails; a life time
  below five seconds is not refused but the next start is.\<close>

theorem pool_started_twice:
  "\<exists>pl1 pl2. start_pool (\<lambda>_. True) Debug False 2 60 (pool_init False) = Inr (True, pl1) \<and>
     start_pool (\<lambda>_. True) Debug False 2 60 pl1 = Inr (False, pl2) \<and> length (sessions pl2) = 4 \<and>
     on_timer (\<lambda>_. True) Debug False pl2 = Inl Assertion"
  "\<exists>pl1. start_pool (\<lambda>_. True) Debug False 2 1 (pool_init False) = Inr (True, pl1) \<and>
     start_pool (\<lambda>_. True) Debug False 3 60 (stop_pool pl1) = Inr (False, (stop_pool pl1)\<lparr>pool_size := 3\<rparr>)"
  by (simp_all add: start_pool_def pool_init_def add_session_def numeral_2_eq_2 numeral_3_eq_3 Let_def on_timer_def
      boost_assert_def stop_pool_def)

end
