(* ===== verification/Cpp.thy ===== *)
theory Cpp
  imports Json_Text
begin

text \<open>
  Objects as C++ source, \<^verbatim>\<open>src/io/src/serializer/cpp.cpp\<close> and \<^verbatim>\<open>include/cyng/io/serializer/cpp.hpp\<close>, and what a
  compiler reads; hex dumps, \<^verbatim>\<open>include/cyng/io/hex_dump.hpp\<close>.
\<close>

section \<open>The serializer\<close>

text \<open>Numbers: unsigned ones in hexadecimal, signed ones in decimal, all after \<^verbatim>\<open>0x\<close>.\<close>

definition cpp_cast_text :: "string \<Rightarrow> string \<Rightarrow> byte list \<Rightarrow> string \<Rightarrow> byte list" where
  "cpp_cast_text type l digits r = str ''static_cast<'' @ str type @ str ''>('' @ str l @ str ''0x'' @ digits @ str r @ str '')''"

definition cpp_severity :: "byte \<Rightarrow> byte list" where
  "cpp_severity s = quoted
     (if s = severity_code LEVEL_TRACE then str ''cyng::severity::LEVEL_TRACE''
      else if s = severity_code LEVEL_DEBUG then str ''cyng::severity::LEVEL_DEBUG''
      else if s = severity_code LEVEL_INFO then str ''cyng::severity::LEVEL_INFO''
      else if s = severity_code LEVEL_WARNING then str ''cyng::severity::LEVEL_WARNING''
      else if s = severity_code LEVEL_ERROR then str ''cyng::severity::LEVEL_ERROR''
      else if s = severity_code LEVEL_FATAL then str ''cyng::severity::LEVEL_FATAL''
      else [])"

definition cpp_path :: "byte list \<Rightarrow> byte list" where
  "cpp_path v = quoted v"

definition cpp_uuid :: "byte list \<Rightarrow> byte list" where
  "cpp_uuid v = str ''boost::uuids::uuid::string_generator()('' @ show_uuid v @ str '')''"

text \<open>A printer of floating point numbers with \<^verbatim>\<open>std::fixed\<close> is a parameter.\<close>

definition cpp_value :: "printers \<Rightarrow> (u64 \<Rightarrow> byte list) \<Rightarrow> endian \<Rightarrow> object \<Rightarrow> byte list option" where
  "cpp_value p put_fixed h obj = (case obj of
      ONull \<Rightarrow> Some (str ''cyng::make_object()'')
    | OEod \<Rightarrow> Some (str ''cyng::make_eod())'')
    | OBool v \<Rightarrow> Some (show_bool v)
    | OI8 v \<Rightarrow> Some (cpp_cast_text ''std::int8_t'' [] (show_int (sint v)) [])
    | OI16 v \<Rightarrow> Some (cpp_cast_text ''std::int16_t'' [] (show_int (sint v)) [])
    | OI32 v \<Rightarrow> Some (cpp_cast_text ''std::int32_t'' '' '' (show_int (sint v)) '' '')
    | OI64 v \<Rightarrow> Some (cpp_cast_text ''std::int64_t'' '' '' (show_int (sint v)) '' '')
    | OU8 v \<Rightarrow> Some (cpp_cast_text ''std::int8_t'' '' '' (show_base 16 (unat v)) '' '')
    | OU16 v \<Rightarrow> Some (cpp_cast_text ''std::uint16_t'' '' '' (show_base 16 (unat v)) '' '')
    | OU32 v \<Rightarrow> Some (cpp_cast_text ''std::uint32_t'' '' '' (show_base 16 (unat v)) '' '')
    | OU64 v \<Rightarrow> Some (cpp_cast_text ''std::uint64_t'' '' '' (show_base 16 (unat v)) '' '')
    | ODouble v \<Rightarrow> Some (cpp_cast_text ''std::uint64_t'' '' '' (put_fixed v) '' '')
    | OPath v \<Rightarrow> Some (cpp_path v)
    | OSeverity s \<Rightarrow> Some (cpp_severity s)
    | OOctets t v \<Rightarrow> Some (if t = Uuid then cpp_uuid v else quoted (show_octets t v))
    | _ \<Rightarrow> map_option quoted (show_value p h obj))"

definition cpp_char :: "u32 \<Rightarrow> byte list" where
  "cpp_char c =
     (if c = 7 then backslash CHR ''a''
      else if c = 8 then backslash CHR ''b''
      else if c = 12 then backslash CHR ''f''
      else if c = 10 then backslash CHR ''n''
      else if c = 13 then backslash CHR ''r''
      else if c = 9 then backslash CHR ''t''
      else if c = 11 then backslash CHR ''v''
      else if c = 92 then [92, 92]
      else if c = 39 then [92, 39]
      else if c = 34 then [92, 34]
      else if c > 30 \<and> c < 127 then [ucast c]
      else backslash CHR ''u'' @ setw0 4 (show_base 16 (unat c)))"

definition cpp_string :: "build \<Rightarrow> byte list \<Rightarrow> byte list result" where
  "cpp_string b s = rbind (iterate b s) (\<lambda>cs. Inr (quoted (concat (map cpp_char cs))))"

fun serialize_cpp :: "build \<Rightarrow> printers \<Rightarrow> (u64 \<Rightarrow> byte list) \<Rightarrow> endian \<Rightarrow> object \<Rightarrow> writer" where
  "serialize_cpp b p pf h (OVector v) =
     w_enclosed ''cyng::make_vector({'' ''})'' (w_separated (str '', '') (map (serialize_cpp b p pf h) v))"
| "serialize_cpp b p pf h (OTuple v) =
     w_enclosed ''cyng::make_tuple('' '')'' (w_separated (str '', '') (map (serialize_cpp b p pf h) v))"
| "serialize_cpp b p pf h (OParam k v) =
     w_then (w_text (str ''cyng::make_param('' @ quoted k @ str '', '')) (w_then (serialize_cpp b p pf h v) (w_text (str '')'')))"
| "serialize_cpp b p pf h (OString s) = (\<lambda>os. rbind (cpp_string b s) (\<lambda>t. w_text t os))"
| "serialize_cpp b p pf h obj =
     (case cpp_value p pf h obj of
        Some t \<Rightarrow> w_text t
      | None \<Rightarrow> (\<lambda>os. Inr (enclosed [CHR 0x22] [CHR 0x22] (serialize_plain p h obj) os)))"

definition to_cpp :: "build \<Rightarrow> printers \<Rightarrow> (u64 \<Rightarrow> byte list) \<Rightarrow> endian \<Rightarrow> object \<Rightarrow> byte list result" where
  "to_cpp b p pf h obj = rbind (serialize_cpp b p pf h obj ([], True)) (\<lambda>os. Inr (fst os))"

section \<open>What a compiler reads\<close>

text \<open>A cast of a hexadecimal number: its type and its value.\<close>

fun cpp_hex :: "nat \<Rightarrow> byte list \<Rightarrow> nat option" where
  "cpp_hex acc [] = Some acc"
| "cpp_hex acc (c # cs) = (case digit_in 16 c of None \<Rightarrow> None | Some d \<Rightarrow> cpp_hex (acc * 16 + d) cs)"

definition strip_prefix :: "byte list \<Rightarrow> byte list \<Rightarrow> byte list option" where
  "strip_prefix p s = (if take (length p) s = p then Some (drop (length p) s) else None)"


lemma cpp_hex_append:
  "cpp_hex acc (xs @ ys) = (case cpp_hex acc xs of None \<Rightarrow> None | Some k \<Rightarrow> cpp_hex k ys)"
  by (induction acc xs rule: cpp_hex.induct) (auto split: option.split)

lemma cpp_hex_show: "cpp_hex 0 (show_base 16 k) = Some k"
proof (induction k rule: less_induct)
  case (less k)
  then show ?case
    by (subst show_base.simps) (auto simp: cpp_hex_append)
qed


lemma strip_prefix_append [simp]: "strip_prefix p (p @ x) = Some x"
  by (simp add: strip_prefix_def)











text \<open>The characters between the quotes of a string literal, as code points; a number after \<^verbatim>\<open>\u\<close> has four digits and
  must not be a surrogate.\<close>

fun read_chars :: "byte list \<Rightarrow> u32 list option" where
  "read_chars [] = Some []"
| "read_chars (c # cs) =
     (if c = 34 then None
      else if c \<noteq> 92 then map_option (Cons (ucast c)) (read_chars cs)
      else
        (case cs of
           [] \<Rightarrow> None
         | e # rest \<Rightarrow>
             if e = byte_of_char CHR ''u'' then
               (if length rest < 4 then None
                else Option.bind (cpp_hex 0 (take 4 rest)) (\<lambda>k.
                  if 0xD800 \<le> k \<and> k < 0xE000 then None
                  else map_option (Cons (word_of_nat k)) (read_chars (drop 4 rest))))
             else
               Option.bind (map_of [(byte_of_char CHR ''a'', 7), (byte_of_char CHR ''b'', 8), (byte_of_char CHR ''f'', 12),
                   (byte_of_char CHR ''n'', 10), (byte_of_char CHR ''r'', 13), (byte_of_char CHR ''t'', 9),
                   (byte_of_char CHR ''v'', 11), (92, 92), (39, 39), (34, 34)] e)
                 (\<lambda>x. map_option (Cons x) (read_chars rest))))"

lemma cpp_hex_fixed: "cpp_hex acc (fixed 16 n k) = Some (acc * 16 ^ n + k mod 16 ^ n)"
proof (induction n arbitrary: k)
  case (Suc n)
  have "k mod 16 ^ Suc n = k div 16 mod 16 ^ n * 16 + k mod 16"
    by (simp add: mod_mult2_eq mult.commute)
  then show ?case by (simp add: cpp_hex_append Suc.IH algebra_simps)
qed simp

lemma u_escape: "length t = 4 \<Longrightarrow> cpp_hex 0 t = Some k \<Longrightarrow> \<not> (0xD800 \<le> k \<and> k < 0xE000) \<Longrightarrow>
  read_chars (backslash CHR ''u'' @ t @ rest) = map_option (Cons (word_of_nat k)) (read_chars rest)"
  by (auto simp: backslash_def)

lemma plain_char:
  assumes "30 < c" "c < 127" "c \<noteq> 92" "c \<noteq> 34"
  shows "read_chars (ucast (c :: u32) # rest) = map_option (Cons c) (read_chars rest)"
proof -
  have "c = ucast (ucast c :: byte)"
  proof -
    have "uint c < 2 ^ 7" using assms(2) by (simp add: word_less_def)
    then have "take_bit 8 (uint c) = uint c" by (intro take_bit_int_eq_self) simp_all
    then show ?thesis by (simp only: word_uint_eq_iff unsigned_ucast_eq) (simp add: unsigned_take_bit_eq)
  qed
  then have "(ucast c :: byte) \<noteq> 92" "(ucast c :: byte) \<noteq> 34" "ucast (ucast c :: byte) = c"
    using assms(3,4) by auto
  then show ?thesis by simp
qed

definition unicode_bmp :: "u32 \<Rightarrow> bool" where
  "unicode_bmp c \<longleftrightarrow> c < 0xD800 \<or> 0xE000 \<le> c \<and> c < 0x10000"

lemma read_char:
  assumes "unicode_bmp c"
  shows "read_chars (cpp_char c @ rest) = map_option (Cons c) (read_chars rest)"
proof (cases "c \<in> {7, 8, 12, 10, 13, 9, 11, 92, 39, 34}")
  case True
  then show ?thesis by (auto simp: cpp_char_def backslash_def byte_of_char_def)
next
  case False
  then show ?thesis
  proof (cases "c > 30 \<and> c < 127")
    case True
    then show ?thesis using False plain_char [of c rest] by (simp add: cpp_char_def)
  next
    case plain: False
    have k: "unat c < 16 ^ 4" "\<not> (0xD800 \<le> unat c \<and> unat c < 0xE000)"
      using assms by (auto simp: unicode_bmp_def word_less_nat_alt word_le_nat_alt)
    have "cpp_char c = backslash CHR ''u'' @ fixed 16 4 (unat c)"
      using False plain setw0_show_base [of 16 "unat c" 4] k(1) by (auto simp: cpp_char_def)
    then show ?thesis using u_escape [of "fixed 16 4 (unat c)" "unat c" rest] k by (simp add: cpp_hex_fixed)
  qed
qed

lemma length_show_base: "16 ^ n \<le> k \<Longrightarrow> n < length (show_base 16 k)"
proof (induction n arbitrary: k)
  case (Suc n)
  have "\<not> k < 16" 
  proof -
    have "(1 :: nat) \<le> 16 ^ n" by simp
    moreover have "16 * 16 ^ n \<le> k" using Suc.prems by simp
    ultimately show ?thesis by linarith
  qed
  moreover have "16 ^ n \<le> k div 16" using Suc.prems by (simp add: less_eq_div_iff_mult_less_eq mult.commute)
  ultimately show ?case using Suc.IH [of "k div 16"] by (subst show_base.simps) simp
qed simp

lemma four_digits: "16 ^ 3 \<le> m \<Longrightarrow> m < 16 ^ 4 \<Longrightarrow> show_base 16 m = fixed 16 4 m"
proof -
  assume m: "16 ^ 3 \<le> m" "m < 16 ^ 4"
  then have "4 \<le> length (show_base 16 m)" using length_show_base [of 3 m] by simp
  then show ?thesis using setw0_show_base [of 16 m 4] m(2) by (simp add: setw0_def)
qed

lemma read_digit_chars: "a < 16 \<Longrightarrow> read_chars (digit_char a # cs) = map_option (Cons (ucast (digit_char a))) (read_chars cs)"
proof -
  have "\<forall>d < 16. digit_char d \<noteq> 34 \<and> digit_char d \<noteq> 92" unfolding on_digits by code_simp
  then show "a < 16 \<Longrightarrow> ?thesis" by simp
qed

lemma long_char:
  assumes "0x10000 \<le> d"
  shows "cpp_char d = backslash CHR ''u'' @ show_base 16 (unat d)"
proof -
  have u: "16 ^ 4 \<le> unat d" using assms by (simp add: word_le_nat_alt)
  have "4 < length (show_base 16 (unat d))" by (rule length_show_base [OF u])
  moreover have "\<not> d < 127" "d \<notin> {7, 8, 12, 10, 13, 9, 11, 92, 39, 34}" using assms by (auto simp: word_less_nat_alt word_le_nat_alt)
  ultimately show ?thesis by (auto simp: cpp_char_def setw0_def)
qed

text \<open>The first four digits of a longer number, and the others.\<close>

lemma read_long:
  assumes "16 ^ 3 \<le> m" "m < 16 ^ 4" "list_all (\<lambda>a. a < 16) as"
  shows "read_chars (backslash CHR ''u'' @ show_base 16 m @ map digit_char as) =
    (if 0xD800 \<le> m \<and> m < 0xE000 then None else Some (word_of_nat m # map (\<lambda>a. ucast (digit_char a)) as))"
proof -
  have "read_chars (map digit_char as) = Some (map (\<lambda>a. ucast (digit_char a)) as)"
    using assms(3) by (induction as) (simp_all add: read_digit_chars del: read_chars.simps(2))
  moreover have "cpp_hex 0 (show_base 16 m) = Some m" "length (show_base 16 m) = 4"
    by (rule cpp_hex_show) (simp add: four_digits [OF assms(1,2)])
  ultimately show ?thesis by (simp add: backslash_def)
qed

lemma more_digits: "16 \<le> k \<Longrightarrow> show_base 16 k = show_base 16 (k div 16) @ [digit_char (k mod 16)]"
  by (subst show_base.simps) simp

text \<open>C37. Strings as C++ literals: what is written for code points below U+10000 that are no surrogates is read back,
  quotes and escapes included.  Above, up to U+10FFFF, the number after \<^verbatim>\<open>\u\<close> has five or six digits; a compiler takes the
  first four for another character, and the one or two others for characters of their own, and rejects the literal
  if the first four are the number of a surrogate.\<close>

theorem cpp_strings:
  assumes "\<forall>c \<in> set cs. unicode_bmp c" "0x10000 \<le> d" "d < 0x110000"
  shows "read_chars (concat (map cpp_char cs)) = Some cs \<and>
    (if 0xD8000 \<le> d \<and> d < 0xE0000 then read_chars (cpp_char d) = None
     else if d < 0x100000 then \<exists>x y. read_chars (cpp_char d) = Some [x, y] \<and> unat x = unat d div 16
     else \<exists>x y z. read_chars (cpp_char d) = Some [x, y, z] \<and> unat x = unat d div 256)"
proof (rule conjI)
  show "read_chars (concat (map cpp_char cs)) = Some cs"
    using assms(1) by (induction cs) (simp_all add: read_char)
  let ?k = "unat d"
  have u: "0x10000 \<le> ?k" "?k < 0x110000" "0xD8000 \<le> d \<longleftrightarrow> 0xD8000 \<le> ?k" "d < 0xE0000 \<longleftrightarrow> ?k < 0xE0000"
    "d < 0x100000 \<longleftrightarrow> ?k < 0x100000"
    using assms(2,3) by (simp_all add: word_less_nat_alt word_le_nat_alt)
  have one: "show_base 16 ?k = show_base 16 (?k div 16) @ map digit_char [?k mod 16]" using more_digits [of ?k] u(1) by simp
  have w: "unat (word_of_nat m :: u32) = m" if "m < 16 ^ 4" for m using that by (simp add: unat_of_nat)
  show "if 0xD8000 \<le> d \<and> d < 0xE0000 then read_chars (cpp_char d) = None
     else if d < 0x100000 then \<exists>x y. read_chars (cpp_char d) = Some [x, y] \<and> unat x = unat d div 16
     else \<exists>x y z. read_chars (cpp_char d) = Some [x, y, z] \<and> unat x = unat d div 256"
  proof (cases "?k < 0x100000")
    case True
    then have m: "16 ^ 3 \<le> ?k div 16" "?k div 16 < 16 ^ 4" using u(1) by simp_all
    have s: "0xD800 \<le> ?k div 16 \<and> ?k div 16 < 0xE000 \<longleftrightarrow> 0xD8000 \<le> ?k \<and> ?k < 0xE0000" by auto
    show ?thesis using True read_long [OF m, of "[?k mod 16]"] w [OF m(2)]
      unfolding long_char [OF assms(2)] one s u(3-5) by simp
  next
    case False
    let ?m = "?k div 16 div 16"
    have "show_base 16 (?k div 16) = show_base 16 ?m @ [digit_char (?k div 16 mod 16)]" using more_digits [of "?k div 16"] u(1) by simp
    then have two: "show_base 16 ?k = show_base 16 ?m @ map digit_char [?k div 16 mod 16, ?k mod 16]" using one by simp
    have m: "16 ^ 3 \<le> ?m" "?m < 16 ^ 4" "?m < 0xD800" using False u(2) by simp_all
    have "?m = ?k div 256" by (simp add: div_mult2_eq [symmetric])
    then show ?thesis using False read_long [OF m(1,2), of "[?k div 16 mod 16, ?k mod 16]"] w [OF m(2)] m(3)
      unfolding long_char [OF assms(2)] two u(3-5) by simp
  qed
qed

theorem cpp_strings_witness:
  "read_chars (concat (map cpp_char [0x41, 0x22, 0xE4, 0x20AC])) = Some [0x41, 0x22, 0xE4, 0x20AC]"
  using cpp_strings [of "[0x41, 0x22, 0xE4, 0x20AC]" "0x1F600"] by (simp add: unicode_bmp_def)

section \<open>Hex dumps: hex_dump.hpp\<close>

text \<open>
  Dumps of a range of \<^verbatim>\<open>char\<close>, which is signed.  A line has \<open>2 * N\<close> bytes, \<open>N > 0\<close>, with a gap in the middle.  The text of a line is collected in \<open>d_ascii\<close> and
  written when the line is full, or at the end.
\<close>

record dump =
  d_out :: "byte list"
  d_ascii :: "byte list"
  d_gap :: bool
  d_count :: nat

definition dump_init :: dump where
  "dump_init = \<lparr>d_out = [], d_ascii = [], d_gap = False, d_count = 0\<rparr>"

definition dump_prefix :: "nat \<Rightarrow> byte list" where
  "dump_prefix count = str ''['' @ setw0 4 (show_base 16 count) @ str ''] ''"

definition dump_char :: "byte \<Rightarrow> byte" where
  "dump_char c = (if 0x20 \<le> sint c \<and> sint c \<le> 0x7E then c else 46)"

definition new_line :: "nat \<Rightarrow> dump \<Rightarrow> dump" where
  "new_line N s =
     (if d_count s mod (2 * N) = 0
      then s\<lparr>d_gap := False, d_out := d_out s @ dump_prefix (d_count s), d_ascii := d_ascii s @ [32, 32]\<rparr> else s)"

definition mid_line :: "nat \<Rightarrow> dump \<Rightarrow> dump" where
  "mid_line N s =
     (if d_count s mod (2 * N) \<noteq> 0 \<and> d_count s mod (2 * N div 2) = 0
      then s\<lparr>d_gap := True, d_out := d_out s @ [32], d_ascii := d_ascii s @ [32]\<rparr> else s)"

definition end_line :: "nat \<Rightarrow> dump \<Rightarrow> dump" where
  "end_line N s =
     (if d_count s > 0 \<and> d_count s mod (2 * N) = 2 * N - 1
      then s\<lparr>d_gap := True, d_out := d_out s @ d_ascii s @ [10], d_ascii := []\<rparr> else s)"

definition dump_byte :: "nat \<Rightarrow> dump \<Rightarrow> byte \<Rightarrow> dump" where
  "dump_byte N s c =
     (let s1 = mid_line N (new_line N s);
          s2 = s1\<lparr>d_out := d_out s1 @ [32] @ setw0 2 (show_base 16 (unat (c AND 0xFF))), d_ascii := d_ascii s1 @ [dump_char c]\<rparr>;
          s3 = end_line N s2
      in s3\<lparr>d_count := d_count s3 + 1\<rparr>)"

definition dump_end :: "nat \<Rightarrow> dump \<Rightarrow> byte list" where
  "dump_end N s =
     d_out s @ replicate ((2 * N - d_count s mod (2 * N)) * 3 - 2) 32 @ (if d_gap s then [] else [32]) @
     [32, 32] @ d_ascii s @ [10]"

definition hex_dump :: "nat \<Rightarrow> byte list \<Rightarrow> byte list \<times> nat" where
  "hex_dump N cs = (let s = foldl (dump_byte N) dump_init cs in (dump_end N s, d_count s))"

section \<open>The layout of a dump\<close>

definition octet_columns :: "nat \<Rightarrow> byte list \<Rightarrow> byte list" where
  "octet_columns N cs = concat (map (\<lambda>(k, c). (if k = N then [32] else []) @ [32] @ to_hex c) (enumerate 0 cs))"

definition char_columns :: "nat \<Rightarrow> byte list \<Rightarrow> byte list" where
  "char_columns N cs = [32, 32] @ concat (map (\<lambda>(k, c). (if k = N then [32] else []) @ [dump_char c]) (enumerate 0 cs))"

text \<open>Octets in a field of the width of a full line, then the characters.\<close>

definition dump_line :: "nat \<Rightarrow> nat \<Rightarrow> byte list \<Rightarrow> byte list" where
  "dump_line N count cs =
     dump_prefix count @ octet_columns N cs @ replicate (6 * N + 1 - length (octet_columns N cs)) 32 @ char_columns N cs @ [10]"

function dump_lines :: "nat \<Rightarrow> nat \<Rightarrow> byte list \<Rightarrow> byte list" where
  "dump_lines N count cs =
     (if cs = [] \<or> N = 0 then []
      else dump_line N count (take (2 * N) cs) @ dump_lines N (count + 2 * N) (drop (2 * N) cs))"
  by pat_completeness auto
termination by (relation "measure (\<lambda>(N, count, cs). length cs)") auto

declare dump_lines.simps [simp del]

lemma octet_columns_snoc:
  "octet_columns N (cs @ [c]) = octet_columns N cs @ (if length cs = N then [32] else []) @ [32] @ to_hex c"
  by (simp add: octet_columns_def enumerate_append_eq)

lemma char_columns_snoc:
  "char_columns N (cs @ [c]) = char_columns N cs @ (if length cs = N then [32] else []) @ [dump_char c]"
  by (simp add: char_columns_def enumerate_append_eq)

lemma octet_columns_Nil [simp]: "octet_columns N [] = []" "char_columns N [] = [32, 32]"
  by (simp_all add: octet_columns_def char_columns_def)

lemma length_octet_columns: "length (octet_columns N cs) = 3 * length cs + (if N < length cs then 1 else 0)"
  by (induction cs rule: rev_induct) (auto simp: octet_columns_snoc)

lemma middle: "0 < k \<Longrightarrow> k < 2 * N \<Longrightarrow> k mod N = 0 \<longleftrightarrow> k = (N :: nat)"
proof
  assume k: "0 < k" "k < 2 * N" "k mod N = 0"
  then obtain q where q: "k = N * q" by (auto elim: dvdE simp: mod_eq_0_iff_dvd)
  then have "0 < q" "q < 2" using k by auto
  then show "k = N" using q by (cases q) auto
qed auto

lemma dump_byte_first:
  assumes "0 < N" "d_count s mod (2 * N) = 0"
  shows "dump_byte N s c = s\<lparr>d_out := d_out s @ dump_prefix (d_count s) @ [32] @ to_hex c,
    d_ascii := d_ascii s @ [32, 32] @ [dump_char c], d_gap := False, d_count := d_count s + 1\<rparr>"
  using assms by (simp add: dump_byte_def Let_def new_line_def mid_line_def end_line_def octet_text)

lemma dump_byte_next:
  assumes "0 < k" "k < 2 * N" "d_count s mod (2 * N) = k"
  shows "dump_byte N s c =
    (let out = d_out s @ (if k = N then [32] else []) @ [32] @ to_hex c;
         ascii = d_ascii s @ (if k = N then [32] else []) @ [dump_char c] in
     if k = 2 * N - 1 then s\<lparr>d_out := out @ ascii @ [10], d_ascii := [], d_gap := True, d_count := d_count s + 1\<rparr>
     else s\<lparr>d_out := out, d_ascii := ascii, d_gap := d_gap s \<or> k = N, d_count := d_count s + 1\<rparr>)"
proof -
  have "d_count s > 0" using assms by (cases "d_count s") auto
  moreover have "d_count s mod N = 0 \<longleftrightarrow> k = N"
    using middle [OF assms(1,2)] mod_mod_cancel [of N "2 * N" "d_count s"] assms(3) by simp
  ultimately show ?thesis
    using assms
    by (auto simp: dump_byte_def Let_def new_line_def mid_line_def end_line_def octet_text)
qed

text \<open>A line that is not full yet, and one that is.\<close>

lemma dump_part:
  assumes "0 < N" "length cs < 2 * N" "cs \<noteq> []" "d_count s mod (2 * N) = 0" "d_ascii s = []"
  shows "foldl (dump_byte N) s cs =
    s\<lparr>d_out := d_out s @ dump_prefix (d_count s) @ octet_columns N cs, d_ascii := char_columns N cs,
       d_gap := N < length cs, d_count := d_count s + length cs\<rparr>"
  using assms(3,2)
proof (induction cs rule: rev_nonempty_induct)
  case (single c)
  then show ?case
    using assms octet_columns_snoc [of N "[]" c] char_columns_snoc [of N "[]" c] by (simp add: dump_byte_first)
next
  case (snoc c cs)
  have m: "(d_count s + length cs) mod (2 * N) = length cs"
    using assms(4) snoc.prems by (simp add: mod_add_left_eq [of "d_count s", symmetric])
  let ?s = "s\<lparr>d_out := d_out s @ dump_prefix (d_count s) @ octet_columns N cs, d_ascii := char_columns N cs,
       d_gap := N < length cs, d_count := d_count s + length cs\<rparr>"
  have "0 < length cs" "length cs < 2 * N" "length cs \<noteq> 2 * N - 1" "d_count ?s mod (2 * N) = length cs"
    using snoc.hyps snoc.prems m by auto
  note b = dump_byte_next [OF this(1,2,4), of c] this(3)
  have "foldl (dump_byte N) s (cs @ [c]) = dump_byte N ?s c" using snoc.IH snoc.prems by simp
  moreover have "N < length cs \<or> length cs = N \<longleftrightarrow> N < Suc (length cs)" by auto
  ultimately show ?case using b by (simp add: octet_columns_snoc char_columns_snoc Let_def)
qed

lemma dump_full:
  assumes "0 < N" "length cs = 2 * N" "d_count s mod (2 * N) = 0" "d_ascii s = []"
  shows "foldl (dump_byte N) s cs = s\<lparr>d_out := d_out s @ dump_line N (d_count s) cs, d_ascii := [],
    d_gap := True, d_count := d_count s + 2 * N\<rparr>"
proof -
  obtain ds c where cs: "cs = ds @ [c]" "length ds = 2 * N - 1" using assms(1,2) by (cases cs rule: rev_cases) auto
  have ds: "ds \<noteq> []" "length ds < 2 * N" "0 < length ds" using cs assms(1) by auto
  let ?s = "s\<lparr>d_out := d_out s @ dump_prefix (d_count s) @ octet_columns N ds, d_ascii := char_columns N ds,
       d_gap := N < length ds, d_count := d_count s + length ds\<rparr>"
  have m: "d_count ?s mod (2 * N) = length ds"
    using assms(3) ds by (simp add: mod_add_left_eq [of "d_count s", symmetric])
  have "foldl (dump_byte N) s cs = dump_byte N ?s c"
    using dump_part [OF assms(1) ds(2,1) assms(3,4)] by (simp add: cs)
  also have "\<dots> = s\<lparr>d_out := d_out s @ dump_prefix (d_count s) @ octet_columns N cs @ char_columns N cs @ [10],
      d_ascii := [], d_gap := True, d_count := d_count s + 2 * N\<rparr>"
    using dump_byte_next [OF ds(3,2) m, of c] cs assms(1) by (auto simp: octet_columns_snoc char_columns_snoc Let_def)
  also have "\<dots> = s\<lparr>d_out := d_out s @ dump_line N (d_count s) cs, d_ascii := [], d_gap := True, d_count := d_count s + 2 * N\<rparr>"
    using assms(1,2) by (simp add: dump_line_def length_octet_columns)
  finally show ?thesis .
qed

text \<open>What is written at the end if all lines are full: blanks.\<close>

definition blank_line :: "nat \<Rightarrow> bool \<Rightarrow> byte list" where
  "blank_line N first = replicate (6 * N - 2) 32 @ (if first then [32] else []) @ [32, 32, 10]"

lemma pad: "a + 2 = n \<Longrightarrow> replicate a x @ [x, x] = replicate n x" "a + 3 = n \<Longrightarrow> replicate a x @ [x, x, x] = replicate n x"
  by (induction a arbitrary: n) (auto simp: numeral_2_eq_2 numeral_3_eq_3)

lemma dump_from:
  assumes "0 < N" "d_count s mod (2 * N) = 0" "d_ascii s = []"
  shows "dump_end N (foldl (dump_byte N) s cs) = d_out s @ dump_lines N (d_count s) cs @
      (if length cs mod (2 * N) = 0 then blank_line N (cs = [] \<and> \<not> d_gap s) else []) \<and>
    d_count (foldl (dump_byte N) s cs) = d_count s + length cs"
  using assms(2,3)
proof (induction "length cs" arbitrary: s cs rule: less_induct)
  case less
  consider "cs = []" | "cs \<noteq> []" "length cs < 2 * N" | "2 * N \<le> length cs" by linarith
  then show ?case
  proof cases
    case 1
    then show ?thesis using less.prems by (simp add: dump_end_def blank_line_def dump_lines.simps mult.commute)
  next
    case 2
    have "(d_count s + length cs) mod (2 * N) = length cs"
      using less.prems(1) 2(2) by (simp add: mod_add_left_eq [of "d_count s", symmetric])
    moreover have "replicate ((2 * N - length cs) * 3 - 2) (32 :: byte) @ [32, 32] = replicate (6 * N - 3 * length cs) 32"
      "replicate ((2 * N - length cs) * 3 - 2) (32 :: byte) @ [32, 32, 32] = replicate (Suc (6 * N) - 3 * length cs) 32"
      by (rule pad; use 2(2) in linarith)+
    ultimately show ?thesis using 2 assms(1) dump_part [OF assms(1) 2(2,1) less.prems]
      by (simp add: dump_lines.simps [of N _ cs] dump_lines.simps [of N _ "[]"] dump_line_def dump_end_def length_octet_columns)
  next
    case 3
    let ?a = "take (2 * N) cs" and ?b = "drop (2 * N) cs"
    let ?s = "s\<lparr>d_out := d_out s @ dump_line N (d_count s) ?a, d_ascii := [], d_gap := True, d_count := d_count s + 2 * N\<rparr>"
    have "foldl (dump_byte N) s (?a @ ?b) = foldl (dump_byte N) ?s ?b"
      using dump_full [OF assms(1) _ less.prems, of ?a] 3 by (simp only: foldl_append) simp
    then have f: "foldl (dump_byte N) s cs = foldl (dump_byte N) ?s ?b" by simp
    have "length ?b < length cs" using 3 assms(1) by simp
    moreover have "length ?b mod (2 * N) = length cs mod (2 * N)" using 3 by (simp add: le_mod_geq)
    moreover have "cs \<noteq> []" using 3 assms(1) by auto
    ultimately show ?thesis using less.hyps [of ?b ?s] less.prems 3 assms(1)
      by (simp add: f dump_lines.simps [of N _ cs])
  qed
qed

text \<open>C38. The layout of a hex dump: a line for every \<open>2 * N\<close> bytes, the last one padded so that its characters stand
  in the column of those above; the result is the number of bytes.  After lines that are all full, a line of
  blanks follows.\<close>

theorem hex_dump_layout:
  assumes "0 < N"
  shows "hex_dump N cs =
    (dump_lines N 0 cs @ (if length cs mod (2 * N) = 0 then blank_line N (cs = []) else []), length cs)"
  using dump_from [OF assms, of dump_init cs] by (simp add: hex_dump_def Let_def dump_init_def)

theorem hex_dump_layout_witness:
  "hex_dump 2 (str ''cyng!'') =
    (str ''[0000]  63 79  6e 67  cy ng'' @ [10] @ str ''[0004]  21            !'' @ [10], 5)"
proof -
  have "hex_dump 2 (str ''cyng!'') = (dump_lines 2 0 (str ''cyng!''), 5)"
    using hex_dump_layout [of 2 "str ''cyng!''"] by simp
  moreover have "dump_lines 2 0 (str ''cyng!'') = str ''[0000]  63 79  6e 67  cy ng'' @ [10] @ str ''[0004]  21            !'' @ [10]"
    by code_simp
  ultimately show ?thesis by simp
qed

end
