(* ===== verification/Clock.thy ===== *)
theory Clock
  imports Prelude
begin

text \<open>
  Points in time, \<^verbatim>\<open>src/sys/src/clock.cpp\<close>: days, months and years that contain one, and the difference between local
  time and UTC.
\<close>

section \<open>The calendar of the standard library\<close>

text \<open>
  \<^verbatim>\<open>std::chrono::sys_days\<close> counts days from 1970-01-01; \<^verbatim>\<open>year_month_day\<close> is the date of such a day in the proleptic
  Gregorian calendar.
\<close>

definition leap :: "int \<Rightarrow> bool" where
  "leap y \<longleftrightarrow> y mod 4 = 0 \<and> (y mod 100 \<noteq> 0 \<or> y mod 400 = 0)"

definition year_length :: "int \<Rightarrow> int" where
  "year_length y = (if leap y then 366 else 365)"

definition month_length :: "int \<Rightarrow> nat \<Rightarrow> int" where
  "month_length y m = (if m = 2 then if leap y then 29 else 28 else if m \<in> {4, 6, 9, 11} then 30 else 31)"

definition year_start :: "int \<Rightarrow> int" where
  "year_start y = 365 * (y - 1970) + (y - 1) div 4 - (y - 1) div 100 + (y - 1) div 400 - 477"

definition month_start :: "int \<Rightarrow> nat \<Rightarrow> int" where
  "month_start y m = year_start y + sum_list (map (month_length y) [1..<m])"

definition sys_days :: "int \<Rightarrow> nat \<Rightarrow> int \<Rightarrow> int" where
  "sys_days y m d = month_start y m + d - 1"

definition year_of :: "int \<Rightarrow> int" where
  "year_of n =
     (let y = 1970 + n * 400 div 146097
      in if n < year_start y then y - 1 else if year_start (y + 1) \<le> n then y + 1 else y)"

fun find_month :: "int \<Rightarrow> int \<Rightarrow> nat list \<Rightarrow> nat \<times> int" where
  "find_month y r [] = (12, r + 32)"
| "find_month y r (m # ms) = (if r < month_length y m then (m, r + 1) else find_month y (r - month_length y m) ms)"

definition year_month_day :: "int \<Rightarrow> int \<times> nat \<times> int" where
  "year_month_day n = (let y = year_of n; (m, d) = find_month y (n - year_start y) [1..<13] in (y, m, d))"

lemma month_length_bounds: "28 \<le> month_length y m" "month_length y m \<le> 31"
  by (simp_all add: month_length_def)

lemma div_bounds: "0 < k \<Longrightarrow> k * (x div k) \<le> x \<and> x < k * (x div k) + (k :: int)"
  using mult_div_mod_eq [of k x] pos_mod_bound [of k x] pos_mod_sign [of k x] by linarith

lemma div_step: "0 < k \<Longrightarrow> (y :: int) div k = (y - 1) div k + (if y mod k = 0 then 1 else 0)"
proof -
  assume k: "0 < k"
  have y: "y = k * (y div k) + y mod k" by simp
  show ?thesis
  proof (cases "y mod k = 0")
    case True
    have "(y - 1) div k = y div k - 1"
    proof (rule int_div_pos_eq)
      show "y - 1 = k * (y div k - 1) + (k - 1)" using y True by (simp add: algebra_simps)
    qed (use k in simp_all)
    then show ?thesis using True by simp
  next
    case False
    have "(y - 1) div k = y div k"
    proof (rule int_div_pos_eq)
      show "y - 1 = k * (y div k) + (y mod k - 1)" by simp
      show "0 \<le> y mod k - 1" "y mod k - 1 < k" using False k pos_mod_bound [of k y] pos_mod_sign [of k y] by linarith+
    qed
    then show ?thesis using False by simp
  qed
qed

lemma year_arith:
  assumes "p400 \<Longrightarrow> p100" "p100 \<Longrightarrow> p4"
    and "a = a' + (if p4 then 1 else 0)" "b = b' + (if p100 then 1 else 0)" "c = c' + (if p400 then 1 else 0)"
    and "len = (if p4 \<and> (\<not> p100 \<or> p400) then 366 else 365)"
  shows "365 * (y + 1 - 1970) + a - b + c - 477 = 365 * (y - 1970) + a' - b' + c' - 477 + (len :: int)"
  using assms by (cases p4; cases p100; cases p400) simp_all

lemma year_start_next: "year_start (y + 1) = year_start y + year_length y"
  unfolding year_start_def add_diff_cancel_right'
proof (rule year_arith)
  show "y mod 400 = 0 \<Longrightarrow> y mod 100 = 0" "y mod 100 = 0 \<Longrightarrow> y mod 4 = 0"
    by (auto simp: mod_eq_0_iff_dvd intro: dvd_trans [of 4 100] dvd_trans [of 100 400])
  show "y div 4 = (y - 1) div 4 + (if y mod 4 = 0 then 1 else 0)"
    "y div 100 = (y - 1) div 100 + (if y mod 100 = 0 then 1 else 0)"
    "y div 400 = (y - 1) div 400 + (if y mod 400 = 0 then 1 else 0)"
    by (rule div_step; simp)+
qed (simp add: year_length_def leap_def)

lemma year_of: "year_start (year_of n) \<le> n \<and> n < year_start (year_of n + 1)"
proof -
  define q where "q = n * 400 div 146097"
  define a b c where abc: "a = (1969 + q) div 4" "b = (1969 + q) div 100" "c = (1969 + q) div 400"
  have q: "146097 * q \<le> n * 400" "n * 400 < 146097 * q + 146097"
    using div_bounds [of 146097 "n * 400"] by (simp_all add: q_def)
  have b: "4 * a \<le> 1969 + q" "1969 + q < 4 * a + 4" "100 * b \<le> 1969 + q" "1969 + q < 100 * b + 100"
     "400 * c \<le> 1969 + q" "1969 + q < 400 * c + 400"
    using div_bounds [of 4 "1969 + q"] div_bounds [of 100 "1969 + q"] div_bounds [of 400 "1969 + q"] by (simp_all add: abc)
  have e: "1970 + q - 1 = 1969 + q" by simp
  have y: "year_start (1970 + q) = 365 * q + a - b + c - 477"
    unfolding year_start_def e abc by simp
  have lo: "year_start (1970 + q) \<le> n + 2" and hi: "n < year_start (1970 + q) + 365 + 3"
    using q b unfolding y by linarith+
  have len: "365 \<le> year_length k" "year_length k \<le> 366" for k by (simp_all add: year_length_def)
  have n: "year_start (k + 1) = year_start k + year_length k" for k by (rule year_start_next)
  let ?y = "1970 + q"
  have s: "year_start ?y = year_start (?y - 1) + year_length (?y - 1)" "year_start (?y + 1) = year_start ?y + year_length ?y"
    "year_start (?y + 1 + 1) = year_start (?y + 1) + year_length (?y + 1)"
    using n [of "?y - 1"] n [of ?y] n [of "?y + 1"] by simp_all
  have "year_of n = (if n < year_start ?y then ?y - 1 else if year_start (?y + 1) \<le> n then ?y + 1 else ?y)"
    by (simp only: year_of_def Let_def q_def)
  moreover have "?y - 1 + 1 = ?y" by simp
  ultimately show ?thesis
    using lo hi len [of ?y] len [of "?y - 1"] len [of "?y + 1"] s
    by (simp only: split: if_split) linarith
qed

section \<open>Days and dates\<close>

declare One_nat_def [simp del]

definition valid_date :: "int \<Rightarrow> nat \<Rightarrow> int \<Rightarrow> bool" where
  "valid_date y m d \<longleftrightarrow> 1 \<le> m \<and> m \<le> 12 \<and> 1 \<le> d \<and> d \<le> month_length y m"

lemma months: "m \<in> {1..<13} \<Longrightarrow> [1..<13] = [1..<m] @ m # [Suc m..<13]"
  using upt_add_eq_append [of 1 m "13 - m"] by (simp add: upt_conv_Cons)

lemma find_month_at:
  "1 \<le> d \<Longrightarrow> d \<le> month_length y m \<Longrightarrow>
   find_month y (sum_list (map (month_length y) ms) + d - 1) (ms @ m # ms') = (m, d)"
proof (induction ms)
  case (Cons k ms)
  have "0 \<le> sum_list (map (month_length y) ms)"
    by (rule sum_list_nonneg) (auto simp: month_length_def)
  then show ?case using Cons by (simp add: algebra_simps)
qed simp

lemma find_month_sound:
  "0 \<le> r \<Longrightarrow> r < sum_list (map (month_length y) ms) \<Longrightarrow> find_month y r ms = (m, d) \<Longrightarrow>
   \<exists>ms1 ms2. ms = ms1 @ m # ms2 \<and> r = sum_list (map (month_length y) ms1) + d - 1 \<and> 1 \<le> d \<and> d \<le> month_length y m"
proof (induction ms arbitrary: r)
  case (Cons k ms)
  show ?case
  proof (cases "r < month_length y k")
    case True
    then show ?thesis using Cons.prems by (intro exI [of _ "[]"] exI [of _ ms]) simp
  next
    case False
    then obtain ms1 ms2 where "ms = ms1 @ m # ms2" "r - month_length y k = sum_list (map (month_length y) ms1) + d - 1"
      "1 \<le> d" "d \<le> month_length y m"
      using Cons.IH [of "r - month_length y k"] Cons.prems by auto
    then show ?thesis by (intro exI [of _ "k # ms1"] exI [of _ ms2]) simp
  qed
qed simp

lemma sum_months: "sum_list (map (month_length y) [1..<13]) = year_length y"
proof -
  have "[1..<13] = [1, 2, 3, 4, 5, 6, 7, 8, 9, 10, 11, 12 :: nat]" by (simp add: upt_rec)
  then show ?thesis by (simp add: month_length_def year_length_def)
qed

lemma year_start_mono: "y < z \<Longrightarrow> year_start (y + 1) \<le> year_start z"
proof -
  assume "y < z"
  then obtain k where "z = y + 1 + int k" using zle_iff_zadd [of "y + 1" z] by auto
  moreover have "year_start (y + 1) \<le> year_start (y + 1 + int k)"
  proof (induction k)
    case (Suc k)
    then show ?case using year_start_next [of "y + 1 + int k"] by (simp add: year_length_def algebra_simps split: if_splits)
  qed simp
  ultimately show ?thesis by simp
qed

lemma year_of_unique: "year_start y \<le> n \<Longrightarrow> n < year_start (y + 1) \<Longrightarrow> year_of n = y"
  using year_of [of n] year_start_mono [of y "year_of n"] year_start_mono [of "year_of n" y] by linarith

lemma ymd_sys_days:
  assumes "valid_date y m d"
  shows "year_month_day (sys_days y m d) = (y, m, d)"
proof -
  let ?before = "sum_list (map (month_length y) [1..<m])" and ?rest = "sum_list (map (month_length y) [Suc m..<13])"
  have m: "m \<in> {1..<13}" "1 \<le> d" "d \<le> month_length y m" using assms by (auto simp: valid_date_def)
  have nn: "0 \<le> ?before" "0 \<le> ?rest" by (rule sum_list_nonneg; auto simp: month_length_def)+
  have "?before + month_length y m + ?rest = year_length y"
    using sum_months [of y] by (simp add: months [OF m(1)])
  then have "year_of (sys_days y m d) = y"
    using nn m year_start_next [of y] by (intro year_of_unique) (simp_all add: sys_days_def month_start_def)
  then show ?thesis
    using find_month_at [OF m(2,3), of "[1..<m]" "[Suc m..<13]"]
    by (simp add: year_month_day_def Let_def months [OF m(1), symmetric] sys_days_def month_start_def add_diff_eq)
qed

lemma sys_days_ymd:
  assumes "year_month_day n = (y, m, d)"
  shows "valid_date y m d" "sys_days y m d = n"
proof -
  have y: "y = year_of n" and f: "find_month y (n - year_start y) [1..<13] = (m, d)"
    using assms by (auto simp: year_month_day_def Let_def split: prod.splits)
  then obtain ms1 ms2 where ms: "[1..<13] = ms1 @ m # ms2" and r: "n - year_start y = sum_list (map (month_length y) ms1) + d - 1"
    and d: "1 \<le> d" "d \<le> month_length y m"
    using find_month_sound [OF _ _ f] year_of [of n] year_start_next [of y] by (auto simp: sum_months)
  have len: "length ms1 < 12" using arg_cong [OF ms, of length] by simp
  have "m = [1..<13] ! length ms1" by (simp add: ms)
  then have m: "m = 1 + length ms1" using len by simp
  have "ms1 = take (length ms1) [1..<13]" by (simp add: ms)
  also have "\<dots> = [1..<m]" unfolding m by (rule take_upt) (use len in simp)
  finally have "ms1 = [1..<m]" .
  then show "valid_date y m d" "sys_days y m d = n"
    using r d m len by (simp_all add: valid_date_def sys_days_def month_start_def)
qed

lemma next_day:
  assumes "year_month_day n = (y, m, d)"
  shows "year_month_day (n + 1) =
    (if d < month_length y m then (y, m, d + 1) else if m < 12 then (y, m + 1, 1) else (y + 1, 1, 1))"
proof -
  note v = sys_days_ymd [OF assms]
  consider "d < month_length y m" | "d = month_length y m" "m < 12" | "d = month_length y m" "m = 12"
    using v(1) unfolding valid_date_def by linarith
  then show ?thesis
  proof cases
    case 1
    then have "valid_date y m (d + 1)" "sys_days y m (d + 1) = n + 1" using v by (auto simp: valid_date_def sys_days_def)
    then show ?thesis using ymd_sys_days 1 by force
  next
    case 2
    moreover have "[1..<m + 1] = [1..<m] @ [m]" using v(1) by (simp add: valid_date_def One_nat_def)
    ultimately have "valid_date y (m + 1) 1" "sys_days y (m + 1) 1 = n + 1"
      using v month_length_bounds(1) [of y "m + 1"] by (auto simp: valid_date_def sys_days_def month_start_def)
    then show ?thesis using ymd_sys_days 2 by force
  next
    case 3
    have "[1..<13] = [1..<12] @ [12 :: nat]" by (simp add: upt_rec)
    then have "sum_list (map (month_length y) [1..<12]) + month_length y 12 = year_length y"
      using sum_months [of y] by simp
    then have "valid_date (y + 1) 1 1" "sys_days (y + 1) 1 1 = n + 1"
      using v 3 month_length_bounds(1) [of "y + 1" 1] year_start_next [of y]
      by (auto simp: valid_date_def sys_days_def month_start_def)
    then show ?thesis using ymd_sys_days 3 by force
  qed
qed

section \<open>Start, end and length: clock.cpp\<close>

text \<open>
  A \<^verbatim>\<open>system_clock::time_point\<close> counts nanoseconds since 1970; \<^verbatim>\<open>floor<days>\<close> rounds down.  Times whose nanoseconds
  do not fit into 64 bits are not considered.
\<close>

type_synonym time_point = int

definition hours :: "int \<Rightarrow> int" where
  "hours h = h * 3600 * 10 ^ 9"

definition this_day :: "time_point \<Rightarrow> int" where
  "this_day tp = tp div hours 24"

definition get_start_of_day :: "time_point \<Rightarrow> time_point" where
  "get_start_of_day tp = (let (y, m, d) = year_month_day (this_day tp) in hours (24 * sys_days y m d))"

definition get_end_of_day :: "time_point \<Rightarrow> time_point" where
  "get_end_of_day tp = get_start_of_day tp + hours 24"

definition get_start_of_month :: "time_point \<Rightarrow> time_point" where
  "get_start_of_month tp = (let (y, m, d) = year_month_day (this_day tp) in hours (24 * sys_days y m 1))"

definition get_end_of_month :: "time_point \<Rightarrow> time_point" where
  "get_end_of_month tp = (let (y, m, d) = year_month_day (this_day tp) in hours (24 * sys_days y m (month_length y m)))"

definition get_length_of_month :: "time_point \<Rightarrow> int" where
  "get_length_of_month tp = (let (y, m, d) = year_month_day (this_day tp) in month_length y m * 24)"

definition get_end_of_year :: "time_point \<Rightarrow> time_point" where
  "get_end_of_year tp = (let (y, m, d) = year_month_day (this_day tp) in hours (24 * sys_days y 12 (month_length y 12)))"

definition get_start_of_year :: "time_point \<Rightarrow> time_point" where
  "get_start_of_year tp = (let (y, m, d) = year_month_day (this_day tp) in hours (24 * sys_days y 1 1))"

definition get_length_of_year :: "time_point \<Rightarrow> int" where
  "get_length_of_year tp = (get_end_of_year tp - get_start_of_year tp) div hours 1"

lemma hours_simps: "hours (a + b) = hours a + hours b" "hours (a - b) = hours a - hours b" "hours a < hours b \<longleftrightarrow> a < b"
  "hours a \<le> hours b \<longleftrightarrow> a \<le> b" "hours a div hours 1 = a" "0 < hours 1"
  by (simp_all add: hours_def algebra_simps)

lemma this_day_bounds: "hours (24 * this_day tp) \<le> tp" "tp < hours (24 * this_day tp) + hours 24"
  using div_bounds [of "hours 24" tp] by (simp_all add: this_day_def hours_def algebra_simps)

lemma date_of:
  obtains y m d where "year_month_day (this_day tp) = (y, m, d)" "valid_date y m d" "sys_days y m d = this_day tp"
proof -
  obtain y m d where e: "year_month_day (this_day tp) = (y, m, d)" by (cases "year_month_day (this_day tp)")
  show ?thesis by (rule that [OF e sys_days_ymd [OF e]])
qed

lemma december: "sys_days y 12 (month_length y 12) = year_start y + year_length y - 1" "sys_days y 1 1 = year_start y"
proof -
  have "[1..<13] = [1..<12] @ [12 :: nat]" by (simp add: upt_rec)
  then show "sys_days y 12 (month_length y 12) = year_start y + year_length y - 1"
    using sum_months [of y] by (simp add: sys_days_def month_start_def)
qed (simp add: sys_days_def month_start_def)

text \<open>C39. The day, month and year around a point in time start at or before it, and the day and the length of the
  month reach beyond it.  The end of a month or a year however is the start of its last day: points of that day
  lie after the end, and a year is one day short in \<open>get_length_of_year\<close>.\<close>

theorem clock_periods:
  "get_start_of_day tp \<le> tp \<and> tp < get_end_of_day tp \<and>
   get_start_of_month tp \<le> tp \<and> tp < get_start_of_month tp + hours (get_length_of_month tp) \<and>
   get_end_of_month tp = get_start_of_month tp + hours (get_length_of_month tp) - hours 24 \<and>
   get_start_of_year tp \<le> tp \<and> tp < get_end_of_year tp + hours 24 \<and>
   get_length_of_year tp = 24 * (year_length (fst (year_month_day (this_day tp))) - 1)"
proof -
  obtain y m d where e: "year_month_day (this_day tp) = (y, m, d)" and v: "valid_date y m d" and s: "sys_days y m d = this_day tp"
    by (rule date_of)
  have d: "1 \<le> d" "d \<le> month_length y m" "this_day tp = sys_days y m 1 + d - 1"
    using v s by (simp_all add: valid_date_def sys_days_def)
  have y: "year_start y \<le> this_day tp" "this_day tp < year_start y + year_length y"
    using e year_of [of "this_day tp"] year_start_next [of y] by (auto simp: year_month_day_def Let_def split: prod.splits)
  note b = this_day_bounds [of tp]
  have ops: "get_start_of_day tp = hours (24 * this_day tp)" "get_end_of_day tp = hours (24 * this_day tp) + hours 24"
    "get_start_of_month tp = hours (24 * sys_days y m 1)" "get_length_of_month tp = month_length y m * 24"
    "get_end_of_month tp = hours (24 * sys_days y m (month_length y m))" "get_start_of_year tp = hours (24 * sys_days y 1 1)"
    "get_end_of_year tp = hours (24 * sys_days y 12 (month_length y 12))"
    by (simp_all add: get_start_of_day_def get_end_of_day_def get_start_of_month_def get_end_of_month_def
      get_length_of_month_def get_end_of_year_def get_start_of_year_def e s)
  have h: "sys_days y m (month_length y m) = sys_days y m 1 + month_length y m - 1" by (simp add: sys_days_def)
  have "get_start_of_day tp \<le> tp" "tp < get_end_of_day tp" using b by (simp_all add: ops)
  moreover have "get_start_of_month tp \<le> tp" "tp < get_start_of_month tp + hours (get_length_of_month tp)"
    using b d by (simp_all add: ops hours_def)
  moreover have "get_end_of_month tp = get_start_of_month tp + hours (get_length_of_month tp) - hours 24"
    by (simp add: ops h hours_def algebra_simps)
  moreover have "get_start_of_year tp \<le> tp" "tp < get_end_of_year tp + hours 24"
    using b y by (simp_all add: ops december hours_def)
  moreover have "get_length_of_year tp = 24 * (year_length y - 1)"
    by (simp add: get_length_of_year_def ops december hours_simps(2) [symmetric] hours_simps(5) algebra_simps)
  ultimately show ?thesis by (simp add: e)
qed

section \<open>Local time\<close>

text \<open>
  \<^verbatim>\<open>to_time_t\<close> truncates to seconds.  The zone gives the offset of local time in seconds.
\<close>

record tm =
  tm_min :: int
  tm_hour :: int
  tm_mday :: int

definition to_time_t :: "time_point \<Rightarrow> int" where
  "to_time_t tp = sgn tp * (\<bar>tp\<bar> div 10 ^ 9)"

definition to_utc :: "int \<Rightarrow> tm" where
  "to_utc tt = \<lparr>tm_min = tt div 60 mod 60, tm_hour = tt div 3600 mod 24, tm_mday = snd (snd (year_month_day (tt div 86400)))\<rparr>"

definition to_localtime :: "(int \<Rightarrow> int) \<Rightarrow> int \<Rightarrow> tm" where
  "to_localtime zone tt = to_utc (tt + zone tt)"

definition delta_utc :: "build \<Rightarrow> (int \<Rightarrow> int) \<Rightarrow> time_point \<Rightarrow> int result" where
  "delta_utc b zone now =
     (let tt = to_time_t now;
          utc = to_utc tt; loc = to_localtime zone tt;
          minutes = tm_min utc - tm_min loc
      in if tm_mday loc = tm_mday utc then Inr (60 * (tm_hour utc - tm_hour loc) + minutes)
         else rbind (boost_assert b (\<bar>tm_mday loc - tm_mday utc\<bar> = 1)) (\<lambda>_.
           let h = (if tm_hour loc > tm_hour utc then tm_hour loc - tm_hour utc else tm_hour utc - (tm_hour loc + 24))
           in Inr (60 * h + minutes)))"

definition day_minute :: "int \<Rightarrow> int" where
  "day_minute tt = tt div 60 mod 1440"

lemma clock_minutes: "60 * tm_hour (to_utc tt) + tm_min (to_utc tt) = day_minute tt"
  "0 \<le> tm_min (to_utc tt)" "tm_min (to_utc tt) < 60"
proof -
  have "tt div 60 div 60 = tt div (60 * 60)" by (rule zdiv_zmult2_eq [symmetric]) simp
  then have h: "tm_hour (to_utc tt) = tt div 60 div 60 mod 24" by (simp add: to_utc_def)
  have "tt div 60 mod (60 * 24) = 60 * (tt div 60 div 60 mod 24) + tt div 60 mod 60" by (rule zmod_zmult2_eq) simp
  then show "60 * tm_hour (to_utc tt) + tm_min (to_utc tt) = day_minute tt"
    unfolding h by (simp add: day_minute_def to_utc_def)
qed (simp_all add: to_utc_def)

lemma quotients_near:
  assumes "1440 * q' + r' = t + k" "1440 * q + r = (t :: int)" "0 \<le> r" "r < 1440" "0 \<le> r'" "r' < 1440" "\<bar>k\<bar> < 1440"
  shows "q' = q \<and> r' = r + k \<or> q' = q + 1 \<and> r' = r + k - 1440 \<or> q' = q - 1 \<and> r' = r + k + 1440"
proof -
  have "- 2 < q' - q" "q' - q < 2" using assms by linarith+
  then consider "q' = q" | "q' = q + 1" | "q' = q - 1" by linarith
  then show ?thesis using assms(1,2) by cases auto
qed

lemma day_minute_shift:
  assumes "\<bar>k\<bar> < 1440"
  shows "(tt + 60 * k) div 86400 = tt div 86400 \<and> day_minute (tt + 60 * k) = day_minute tt + k \<or>
    (tt + 60 * k) div 86400 = tt div 86400 + 1 \<and> day_minute (tt + 60 * k) = day_minute tt + k - 1440 \<or>
    (tt + 60 * k) div 86400 = tt div 86400 - 1 \<and> day_minute (tt + 60 * k) = day_minute tt + k + 1440"
proof -
  have d: "x div 86400 = x div 60 div 1440" for x :: int using zdiv_zmult2_eq [of 1440 x 60] by simp
  have s: "(tt + 60 * k) div 60 = tt div 60 + k" by simp
  show ?thesis
    unfolding d s day_minute_def
    by (rule quotients_near [OF mult_div_mod_eq mult_div_mod_eq _ _ _ _ assms]) simp_all
qed

lemma mday_next:
  assumes "tt' div 86400 = tt div 86400 + 1"
  shows "1 \<le> tm_mday (to_utc tt) \<and> (tm_mday (to_utc tt') = tm_mday (to_utc tt) + 1 \<or> tm_mday (to_utc tt') = 1 \<and> 28 \<le> tm_mday (to_utc tt))"
proof -
  obtain y m d where e: "year_month_day (tt div 86400) = (y, m, d)" by (cases "year_month_day (tt div 86400)")
  have "28 \<le> month_length y m" "1 \<le> d" "d \<le> month_length y m" using sys_days_ymd(1) [OF e] by (auto simp: valid_date_def month_length_def)
  then show ?thesis using next_day [OF e] assms e by (auto simp: to_utc_def split: if_splits)
qed

text \<open>The hours of the difference, if the dates differ.\<close>

lemma hour_same: "60 * lh + lm = 60 * uh + um + k \<Longrightarrow> 60 * (uh - lh) + (um - lm) = - (k :: int)"
  by (simp add: algebra_simps)

lemma hour_ahead:
  assumes "60 * lh + lm = 60 * uh + um + k - 1440" "k < 1440" "0 \<le> lm" "um < (60 :: int)"
  shows "60 * (if lh > uh then lh - uh else uh - (lh + 24)) + (um - lm) = - k"
proof -
  have "\<not> lh > uh" using assms by linarith
  then show ?thesis using assms(1) by (simp add: algebra_simps)
qed

lemma hour_behind:
  assumes "60 * lh + lm = 60 * uh + um + 60 * j + 1440" "- 24 < j" "0 \<le> lm" "lm < 60" "0 \<le> um" "um < (60 :: int)"
  shows "60 * (if lh > uh then lh - uh else uh - (lh + 24)) + (um - lm) = 1440 + 60 * j"
proof -
  have h: "lh - uh = j + 24" using assms by linarith
  then have "60 * lh = 60 * uh + 60 * j + 1440" by simp
  then have "lm = um" using assms(1) by linarith
  then show ?thesis using h assms(2) by (simp add: algebra_simps)
qed

text \<open>C40. The difference between UTC and a zone \<open>k\<close> minutes ahead of it: right if the date is the same or local time is
  already a day ahead.  If local time is a day behind, a zone of whole hours gets the difference to a full day: 19
  hours for the 5 of New York.  With assertions, the program stops whenever the later one of both dates is the
  first of a month.\<close>

theorem delta_utc_offset:
  fixes now :: time_point
  defines "t \<equiv> to_time_t now"
  assumes "zone t = 60 * k" "\<bar>k\<bar> < 1440"
  shows "((t + 60 * k) div 86400 = t div 86400 \<longrightarrow> delta_utc b zone now = Inr (- k)) \<and>
    ((t + 60 * k) div 86400 = t div 86400 + 1 \<longrightarrow> delta_utc Release zone now = Inr (- k)) \<and>
    ((t + 60 * k) div 86400 = t div 86400 - 1 \<longrightarrow> 60 dvd k \<longrightarrow> delta_utc Release zone now = Inr (1440 + k)) \<and>
    ((t + 60 * k) div 86400 \<noteq> t div 86400 \<longrightarrow> delta_utc Debug zone now =
      (if tm_mday (to_utc (max t (t + 60 * k))) = 1 then Inl Assertion else delta_utc Release zone now))"
proof (intro conjI impI)
  let ?l = "t + 60 * k"
  have loc: "to_localtime zone t = to_utc ?l" using assms(2) by (simp add: to_localtime_def)
  note u = clock_minutes [of t] and l = clock_minutes [of ?l] and shift = day_minute_shift [OF assms(3), of t]
  have delta: "tm_mday (to_utc ?l) \<noteq> tm_mday (to_utc t) \<Longrightarrow> delta_utc c zone now =
      rbind (boost_assert c (\<bar>tm_mday (to_utc ?l) - tm_mday (to_utc t)\<bar> = 1)) (\<lambda>_. Inr (60 *
        (if tm_hour (to_utc ?l) > tm_hour (to_utc t) then tm_hour (to_utc ?l) - tm_hour (to_utc t)
         else tm_hour (to_utc t) - (tm_hour (to_utc ?l) + 24)) + (tm_min (to_utc t) - tm_min (to_utc ?l))))" for c
    by (simp add: delta_utc_def Let_def t_def [symmetric] loc)
  show "delta_utc b zone now = Inr (- k)" if "?l div 86400 = t div 86400"
  proof -
    have "tm_mday (to_utc ?l) = tm_mday (to_utc t)" using that by (simp add: to_utc_def)
    moreover have "day_minute ?l = day_minute t + k" using shift that by linarith
    then have "60 * (tm_hour (to_utc t) - tm_hour (to_utc ?l)) + (tm_min (to_utc t) - tm_min (to_utc ?l)) = - k"
      using u(1) l(1) by (intro hour_same) simp
    ultimately show ?thesis by (simp add: delta_utc_def Let_def t_def [symmetric] loc)
  qed
  show "delta_utc Release zone now = Inr (- k)" if d: "?l div 86400 = t div 86400 + 1"
  proof -
    have "day_minute ?l = day_minute t + k - 1440" using shift d by linarith
    then have e: "60 * tm_hour (to_utc ?l) + tm_min (to_utc ?l) = 60 * tm_hour (to_utc t) + tm_min (to_utc t) + k - 1440"
      using u(1) l(1) by simp
    have "k < 1440" using assms(3) by simp
    note h = hour_ahead [OF e this l(2) u(3)]
    have n: "tm_mday (to_utc ?l) \<noteq> tm_mday (to_utc t)" using mday_next [OF d] by linarith
    show ?thesis by (simp only: delta [OF n] boost_assert_True rbind_simps h)
  qed
  show "delta_utc Release zone now = Inr (1440 + k)" if d: "?l div 86400 = t div 86400 - 1" and k: "60 dvd k"
  proof -
    obtain j where j: "k = 60 * j" using k by blast
    have d': "t div 86400 = ?l div 86400 + 1" using d by simp
    have "day_minute ?l = day_minute t + 60 * j + 1440" using shift d j by linarith
    then have e: "60 * tm_hour (to_utc ?l) + tm_min (to_utc ?l) = 60 * tm_hour (to_utc t) + tm_min (to_utc t) + 60 * j + 1440"
      using u(1) l(1) by simp
    have "- 24 < j" using assms(3) j by simp
    note h = hour_behind [OF e this l(2,3) u(2,3)]
    have n: "tm_mday (to_utc ?l) \<noteq> tm_mday (to_utc t)" using mday_next [OF d'] by linarith
    show ?thesis by (simp only: delta [OF n] boost_assert_True rbind_simps h) (simp add: j)
  qed
  show "delta_utc Debug zone now = (if tm_mday (to_utc (max t ?l)) = 1 then Inl Assertion else delta_utc Release zone now)"
    if "?l div 86400 \<noteq> t div 86400"
  proof -
    have "?l div 86400 = t div 86400 + 1 \<or> t div 86400 = ?l div 86400 + 1" using shift that by auto
    then show ?thesis
    proof
      assume 1: "?l div 86400 = t div 86400 + 1"
      then have "max t ?l = ?l" using zdiv_mono1 [of ?l t 86400] by linarith
      then show ?thesis using mday_next [OF 1] by (auto simp: delta)
    next
      assume 2: "t div 86400 = ?l div 86400 + 1"
      then have "max t ?l = t" using zdiv_mono1 [of t ?l 86400] by linarith
      then show ?thesis using mday_next [OF 2] by (auto simp: delta)
    qed
  qed
qed

theorem delta_utc_offset_witness:
  "delta_utc Release (\<lambda>_. - 18000) (3600 * 10 ^ 9) = Inr 1140 \<and>
   delta_utc Debug (\<lambda>_. - 18000) (3600 * 10 ^ 9) = Inl Assertion"
proof -
  have t: "to_time_t 3600000000000 = 3600" by code_simp
  have "tm_mday (to_utc 3600) = 1" by code_simp
  then show ?thesis
    using delta_utc_offset [of "\<lambda>_. - 18000" "3600 * 10 ^ 9" "- 300" Debug] by (simp add: t)
qed

declare One_nat_def [simp]

end
