(* ===== verification/Generator.thy ===== *)
theory Generator
  imports Parser Program
begin

text \<open>
  Programs that call a function of another machine, \<^verbatim>\<open>include/cyng/vm/generator.hpp\<close> and \<^verbatim>\<open>linearize.hpp\<close>, as
  objects and as buffers; their way through the parser to the channel of the machine that runs them.
\<close>

section \<open>Generators\<close>

text \<open>\<^verbatim>\<open>make_deque\<close>: the arguments, their number, the name and the op code.\<close>

definition generate_invoke :: "byte list \<Rightarrow> object list \<Rightarrow> object list" where
  "generate_invoke name args = args @ [OU64 (word_of_nat (length args)), OString name, instruction INVOKE]"

definition generate_forward :: "byte list \<Rightarrow> byte list \<Rightarrow> object list \<Rightarrow> object list" where
  "generate_forward name tag args =
     args @ [OU64 (word_of_nat (length args)), OString name, OOctets Uuid tag, instruction FORWARD]"

text \<open>
  The buffer gets the size that the serializer returns; what the stream does not have stays zero.
\<close>

definition convert_binary :: "endian \<Rightarrow> object \<Rightarrow> byte list" where
  "convert_binary h obj =
     (let size = binary_size h obj; stream = take size (serialize_binary h obj)
      in stream @ replicate (size - length stream) 0)"

definition convert_to_deque :: "endian \<Rightarrow> object list \<Rightarrow> byte list list" where
  "convert_to_deque h objs = map (convert_binary h) objs"

definition serialize_invoke :: "endian \<Rightarrow> byte list \<Rightarrow> object list \<Rightarrow> byte list list" where
  "serialize_invoke h name args = convert_to_deque h (generate_invoke name args)"

definition serialize_forward :: "endian \<Rightarrow> byte list \<Rightarrow> byte list \<Rightarrow> object list \<Rightarrow> byte list list" where
  "serialize_forward h name tag args = convert_to_deque h (generate_forward name tag args)"

section \<open>From the buffers to the channel\<close>

lemma convert_binary_bytes: "convert_binary h obj = serialize_binary h obj"
  by (simp add: convert_binary_def Let_def binary_size_length)

lemma read_deque:
  assumes "ready r" "list_all (fits e) objs"
  shows "\<exists>s'. ready s' \<and> read e r (concat (convert_to_deque (host e) objs)) = (concat (map program_of objs), Inr s')"
proof -
  let ?ok = "\<lambda>x. sendable e x \<and> (case scalar_value (host e) x of
      Some bs \<Rightarrow> length bs < 2 ^ 64 \<and> word_of_nat (length bs) \<le> max_size e | None \<Rightarrow> False)"
  have bytes: "concat (convert_to_deque (host e) objs) =
      concat (map (serialize_scalar (host e)) (concat (map program_of objs)))"
    by (induction objs) (simp_all add: convert_to_deque_def convert_binary_bytes serialize_program)
  have "list_all ?ok (concat (map program_of objs))" using assms(2) by (induction objs) (simp_all add: fits_def)
  from read_program [OF assms(1) this, of "[]"] show ?thesis by (simp add: bytes)
qed

lemma eval_args:
  "list_all (\<lambda>x. loadable (v_max_vec e) x \<and> wf_object x) args \<Longrightarrow>
   eval e (concat (map program_of args) @ xs) s = eval e xs (push_all (map mirror args) s)"
  by (induction args arbitrary: s) (simp_all add: eval_program_of)

lemma run_call:
  assumes "list_all (\<lambda>x. loadable (v_max_vec e) x \<and> wf_object x) args"
    and "prg = m @ concat (map program_of args) @ xs @ [instruction c]" and "length (concat (map program_of args) @ xs) + 1 < n"
    and "eval e xs (push_all (map mirror args) s) = Some s1"
    and "\<And>rerun p. exec rerun e (instruction c) (at_pc prg p s1) = Some (evs, Inr (at_pc prg p s))"
  shows "run n e (at_pc prg (length m) s) = Some (evs, Inr (at_pc prg (length prg) s))"
proof -
  let ?body = "concat (map program_of args) @ xs"
  obtain k where n: "n = length ?body + Suc (Suc k)"
  proof -
    have "\<exists>k. n = length ?body + Suc (Suc k)" using assms(3) by (intro exI [of _ "n - length ?body - 2"]) simp
    then show ?thesis using that by blast
  qed
  have "eval e ?body s = Some s1" using assms(4) by (simp add: eval_args [OF assms(1)])
  then have "run n e (at_pc prg (length m) s) = run (Suc (Suc k)) e (at_pc prg (length m + length ?body) s1)"
    using run_eval [of e ?body s s1 m "[instruction c]" prg "Suc (Suc k)"] assms(2) by (simp add: n)
  also have "\<dots> = Some (evs, Inr (at_pc prg (length prg) s))"
  proof -
    have "prg ! (length m + length ?body) = instruction c" "length m + length ?body < length prg"
      "length prg = Suc (length m + length ?body)"
      using assms(2) by (simp_all add: nth_append)
    then show ?thesis using assms(5) by simp
  qed
  finally show ?thesis .
qed

lemma exec_invoke_push:
  assumes "n = length args" "n < 2 ^ 64" "v_channel e = Some own"
  shows "exec rerun e (instruction INVOKE) (at_pc m p (push (OString name) (push (OU64 (word_of_nat n)) (push_all args s)))) =
    Some ([Dispatch name args], Inr (at_pc m p s))"
proof -
  have "op_of_code (op_code INVOKE) = Some INVOKE" by code_simp
  then show ?thesis
    using assms(3) by (simp add: exec_def exec_op_def instruction_def stack_op_def exec_invoke_def invoke_push [OF assms(1,2)])
qed

lemma exec_forward_push:
  assumes "n = length args" "n < 2 ^ 64" "v_channel e = Some own" "tag \<noteq> nil_uuid"
  shows "exec rerun e (instruction FORWARD)
      (at_pc m p (push (OOctets Uuid tag) (push (OString name) (push (OU64 (word_of_nat n)) (push_all args s))))) =
    Some ([if own = tag then Dispatch name args else Forward tag name args], Inr (at_pc m p s))"
proof -
  have "op_of_code (op_code FORWARD) = Some FORWARD" by code_simp
  moreover have "forward_tag b (push (OOctets Uuid tag) t) = Inr (tag, t)" for b t
    using assms(4) by (simp add: forward_tag_def top_value_push [of cast_uuid _ tag] cast_uuid_def)
  ultimately show ?thesis
    using assms(3) by (simp add: exec_def exec_op_def instruction_def stack_op_def exec_forward_def get_channel_tag_def
        invoke_push [OF assms(1,2)])
qed

text \<open>C14. Calls over the wire: the buffers of a generated call, parsed by a parser between two values and run by a
  machine that has a channel and has run everything it has loaded, send the name and the arguments, with their
  sequences back to front, to the machine's own channel, or, when the call is forwarded to a tag other than nil, to
  the channel of that tag; the stack is left as it was.  The arguments, and the name and the tag, must be ones that can be sent
  (\<open>fits\<close>: no 64-bit MAC, no 16-bit color, no empty raw value, no value longer than the parser accepts) and, the
  arguments, well-formed and loaded without being executed (\<open>loadable\<close>: no op codes as values, no empty attribute map).\<close>

theorem call_over_wire:
  assumes "list_all (fits e) (generate_forward name tag args)" and "fits e (instruction INVOKE)"
    and "list_all (\<lambda>x. loadable (v_max_vec ve) x \<and> wf_object x) args" and "length args < 2 ^ 64"
    and "v_channel ve = Some own" and "tag \<noteq> nil_uuid" and "length (concat (map program_of args)) + 4 < n"
    and "ready r" and "pc (code v) = length (mem (code v))"
  shows "\<exists>out1 s1 c1 out2 s2 c2.
    read e r (concat (serialize_invoke (host e) name args)) = (out1, Inr s1) \<and>
    run n ve (load_deque out1 v) = Some ([Dispatch name (map mirror args)], Inr \<lparr>code = c1, stk = stk v\<rparr>) \<and>
    read e r (concat (serialize_forward (host e) name tag args)) = (out2, Inr s2) \<and>
    run n ve (load_deque out2 v) =
      Some ([if own = tag then Dispatch name (map mirror args) else Forward tag name (map mirror args)],
        Inr \<lparr>code = c2, stk = stk v\<rparr>)"
proof -
  let ?n = "OU64 (word_of_nat (length args))" and ?a = "concat (map program_of args)"
  let ?out1 = "?a @ [?n, OString name] @ [instruction INVOKE]"
  let ?out2 = "?a @ [?n, OString name, OOctets Uuid tag] @ [instruction FORWARD]"
  have out: "concat (map program_of (generate_invoke name args)) = ?out1"
    "concat (map program_of (generate_forward name tag args)) = ?out2"
    by (simp_all add: generate_invoke_def generate_forward_def instruction_def)
  have fit: "list_all (fits e) (generate_invoke name args)"
    using assms(1,2) by (simp add: generate_invoke_def generate_forward_def)
  obtain s1 where r1: "read e r (concat (serialize_invoke (host e) name args)) = (?out1, Inr s1)"
    using read_deque [OF assms(8) fit] by (auto simp: serialize_invoke_def out)
  obtain s2 where r2: "read e r (concat (serialize_forward (host e) name tag args)) = (?out2, Inr s2)"
    using read_deque [OF assms(8,1)] by (auto simp: serialize_forward_def out)
  obtain m p s where "v = at_pc m p s" by (rule vm_cases)
  with assms(9) have v: "v = at_pc m (length m) s" by simp
  have len: "length (map mirror args) = length args" by simp
  have "run n ve (load_deque ?out1 v) =
      Some ([Dispatch name (map mirror args)], Inr (at_pc (m @ ?out1) (length (m @ ?out1)) s))"
    unfolding v at_pc_simps using assms(7) exec_invoke_push [OF len [symmetric] assms(4,5)]
    by (intro run_call [OF assms(3), of _ _ "[?n, OString name]" INVOKE]) auto
  moreover have "run n ve (load_deque ?out2 v) =
      Some ([if own = tag then Dispatch name (map mirror args) else Forward tag name (map mirror args)],
        Inr (at_pc (m @ ?out2) (length (m @ ?out2)) s))"
    unfolding v at_pc_simps using assms(7) exec_forward_push [OF len [symmetric] assms(4,5,6)]
    by (intro run_call [OF assms(3), of _ _ "[?n, OString name, OOctets Uuid tag]" FORWARD]) (auto simp: exec_stack_def)
  moreover have "stk v = s" by (simp add: v)
  ultimately show ?thesis using r1 r2 unfolding at_pc_def by blast
qed

theorem call_over_wire_witness:
  "\<exists>out s c.
    read sample_env parser_init (concat (serialize_invoke Little (str ''f'') [OU8 1, OTuple [OBool True, ONull]])) = (out, Inr s) \<and>
    run 20 (sample_venv\<lparr>v_channel := Some nil_uuid\<rparr>) (load_deque out vm_init) =
      Some ([Dispatch (str ''f'') [OU8 1, OTuple [ONull, OBool True]]], Inr \<lparr>code = c, stk = stack_init\<rparr>)"
proof -
  have "list_all (fits sample_env) (generate_forward (str ''f'') (replicate 16 1) [OU8 1, OTuple [OBool True, ONull]])"
    "fits sample_env (instruction INVOKE)"
    by (simp_all add: fits_def generate_forward_def sample_env_def instruction_def count_def
        scalar_value_def basic_value_def code_value_def)
  from call_over_wire [OF this, of "sample_venv\<lparr>v_channel := Some nil_uuid\<rparr>" nil_uuid 20 parser_init vm_init] show ?thesis
    by (auto simp: sample_venv_def sample_env_def nil_uuid_def ready_init vm_init_def memory_init_def)
qed

end
