(* ===== verification/Xml.thy ===== *)
theory Xml
  imports Storage Json_Text
begin

text \<open>
  Objects as XML, \<^verbatim>\<open>src/io/src/serializer/xml.cpp\<close> and \<^verbatim>\<open>include/cyng/io/serializer/xml.hpp\<close>, and back,
  \<^verbatim>\<open>src/xml/src/reader.cpp\<close>.

  Nodes belong to pugixml: how they are made and read is a parameter of the model, and \<open>xml_ok\<close> says what the
  round trip relies on.  \<^verbatim>\<open>set_value\<close> of an element has no effect and gives false; a text is set up to its first
  zero byte.
\<close>

section \<open>Nodes\<close>

type_synonym attributes = "(byte list \<times> byte list) list"

definition c_str :: "byte list \<Rightarrow> byte list" where
  "c_str s = takeWhile (\<lambda>c. c \<noteq> 0) s"

text \<open>
  What both directions are given: the build, the host, printers (also \<^verbatim>\<open>std::to_string\<close> of floating point
  numbers), parsers, the nodes of pugixml, its \<^verbatim>\<open>as_int\<close>, and the name that a tuple makes for its containers from
  its address (nothing rests on which one).
\<close>

record 'n xml_env =
  x_element :: "byte list \<Rightarrow> attributes \<Rightarrow> 'n list \<Rightarrow> 'n"
  x_pcdata :: "byte list \<Rightarrow> 'n"
  x_name :: "'n \<Rightarrow> byte list"
  x_attribute :: "'n \<Rightarrow> byte list \<Rightarrow> byte list"
  x_children :: "'n \<Rightarrow> 'n list"
  x_child_value :: "'n \<Rightarrow> byte list"
  x_build :: build
  x_host :: endian
  x_print :: printers
  x_put_float :: "u32 \<Rightarrow> byte list"
  x_put_double :: "u64 \<Rightarrow> byte list"
  x_tuple_name :: "object list \<Rightarrow> byte list"
  x_as_int :: "byte list \<Rightarrow> int"
  x_parse :: parsers
  x_restore :: restorers

definition attribute :: "'n xml_env \<Rightarrow> string \<Rightarrow> 'n \<Rightarrow> byte list" where
  "attribute e n node = x_attribute e node (str n)"

section \<open>The serializer\<close>

text \<open>
  A serializer appends attributes and children to a node; its result is that of the last call.
\<close>

type_synonym 'n content = "attributes \<times> 'n list \<times> bool"

definition xml_type :: "object \<Rightarrow> byte list" where
  "xml_type obj = str (names ! unat (type_tag obj))"

definition typed :: "'n xml_env \<Rightarrow> object \<Rightarrow> byte list \<Rightarrow> 'n content" where
  "typed e obj text = ([(str ''type'', xml_type obj)], [x_pcdata e (c_str text)], True)"

definition leaf :: "'n xml_env \<Rightarrow> string \<Rightarrow> byte list \<Rightarrow> 'n" where
  "leaf e name text = x_element e (str name) [] [x_pcdata e (c_str text)]"

text \<open>The opacity of a color has the value of its green channel.\<close>

definition color_content :: "'n xml_env \<Rightarrow> object \<Rightarrow> 'a::len word color \<Rightarrow> 'n content" where
  "color_content e obj c = ([(str ''type'', xml_type obj)],
     [leaf e ''red'' (show_dec (red c)), leaf e ''green'' (show_dec (green c)), leaf e ''blue'' (show_dec (blue c)),
      leaf e ''opacity'' (show_dec (green c))], True)"

definition endpoint_content :: "'n xml_env \<Rightarrow> object \<Rightarrow> u16 \<Rightarrow> byte list \<Rightarrow> 'n content" where
  "endpoint_content e obj port address = ([(str ''type'', xml_type obj)],
     [leaf e ''address'' address, leaf e ''port'' (show_dec port)], True)"

text \<open>The types that are written as their type and a text; a character has the type of a signed byte.\<close>

definition xml_number :: "'n xml_env \<Rightarrow> object \<Rightarrow> byte list option" where
  "xml_number e obj = (case obj of
      OBool v \<Rightarrow> Some (show_bool v)
    | OI8 v \<Rightarrow> Some (show_int (sint v))
    | OI16 v \<Rightarrow> Some (show_int (sint v))
    | OI32 v \<Rightarrow> Some (show_int (sint v))
    | OI64 v \<Rightarrow> Some (show_int (sint v))
    | OU8 v \<Rightarrow> Some (show_dec v)
    | OU16 v \<Rightarrow> Some (show_dec v)
    | OU32 v \<Rightarrow> Some (show_dec v)
    | OU64 v \<Rightarrow> Some (show_dec v)
    | OFloat v \<Rightarrow> Some (x_put_float e v)
    | ODouble v \<Rightarrow> Some (x_put_double e v)
    | _ \<Rightarrow> None)"

definition xml_text :: "'n xml_env \<Rightarrow> object \<Rightarrow> byte list option" where
  "xml_text e obj = (case obj of
      OBuffer v \<Rightarrow> Some (to_hex_buffer v)
    | OString v \<Rightarrow> Some v
    | OPath v \<Rightarrow> Some (show_path v)
    | OChrono t v \<Rightarrow> Some (if t = TimePoint then pr_chrono (x_print e) t v else show_int (sint v))
    | OVersion v \<Rightarrow> Some (show_version (x_host e) v)
    | ORevision v \<Rightarrow> Some (show_revision (x_host e) v)
    | OMac48 v \<Rightarrow> Some (show_mac48 v)
    | OMac64 v \<Rightarrow> Some (show_mac64 v)
    | OPid v \<Rightarrow> Some (show_pid v)
    | OObis v \<Rightarrow> Some (obis_to_string v)
    | OObisPath v \<Rightarrow> Some (show_obis_path v)
    | OEdis v \<Rightarrow> Some (show_edis v)
    | OOctets t v \<Rightarrow> (if t = Md5 then None else Some (show_octets t v))
    | OIpAddress v \<Rightarrow> Some v
    | _ \<Rightarrow> xml_number e obj)"

definition write_value :: "'n xml_env \<Rightarrow> object \<Rightarrow> 'n content result" where
  "write_value e obj = (case xml_text e obj of
      Some text \<Rightarrow> Inr (typed e obj text)
    | None \<Rightarrow> (case obj of
          ONull \<Rightarrow> Inr ([(str ''xsi:nil'', [])], [], True)
        | OEod \<Rightarrow> Inr ([(str ''type'', xml_type obj)], [], False)
        | OChar v \<Rightarrow> Inr (typed e (OI8 v) (show_int (sint v)))
        | OColor8 c \<Rightarrow> Inr (color_content e obj c)
        | OColor16 c \<Rightarrow> Inr (color_content e obj c)
        | OEndpoint t port address \<Rightarrow> Inr (endpoint_content e obj port address)
        | _ \<Rightarrow> rbind (boost_assert (x_build e) False) (\<lambda>_. Inr ([], [], False))))"

text \<open>An element of a sequence: in an element of its own, or, a parameter, in the node of the sequence.\<close>

definition is_sub :: "object \<Rightarrow> bool" where
  "is_sub obj \<longleftrightarrow> type_tag obj \<in> {45, 46, 47, 48, 50}"

definition place :: "'n xml_env \<Rightarrow> byte list \<times> attributes \<Rightarrow> object \<Rightarrow> 'n content \<Rightarrow> attributes \<times> 'n list" where
  "place e sub obj c =
     (if is_sub obj then ([], [x_element e (fst sub) (snd sub @ fst c) (fst (snd c))])
      else if type_tag obj = 51 then (fst c, fst (snd c))
      else ([], [x_element e (str ''value'') (fst c) (fst (snd c))]))"

definition sequence :: "object \<Rightarrow> nat \<Rightarrow> (attributes \<times> 'n list) list \<Rightarrow> 'n content" where
  "sequence obj n placed =
     ([(str ''type'', xml_type obj), (str ''size'', show_base 10 n)] @ concat (map fst placed), concat (map snd placed), True)"

definition vector_content :: "'n xml_env \<Rightarrow> object list \<Rightarrow> 'n content list \<Rightarrow> 'n content" where
  "vector_content e v cs = sequence (OVector v) (length v)
     (map (\<lambda>(index, obj, c). place e (str ''element'', [(str ''index'', show_base 10 index)]) obj c)
       (enumerate 0 (zip v cs)))"

definition tuple_content :: "'n xml_env \<Rightarrow> object list \<Rightarrow> 'n content list \<Rightarrow> 'n content" where
  "tuple_content e v cs = sequence (OTuple v) (length v)
     (map (\<lambda>(obj, c). place e (x_tuple_name e v, []) obj c) (zip v cs))"

definition param_node :: "'n xml_env \<Rightarrow> byte list \<Rightarrow> 'n content \<Rightarrow> 'n" where
  "param_node e k c = x_element e (str ''param'') ((str ''name'', c_str k) # fst c) (fst (snd c))"

definition attr_node :: "'n xml_env \<Rightarrow> u64 \<Rightarrow> 'n content \<Rightarrow> 'n" where
  "attr_node e k c = x_element e (show_dec k) ((str ''type'', str ''attr'') # fst c) (fst (snd c))"

lemma rmap_cong [fundef_cong]: "xs = ys \<Longrightarrow> (\<And>x. x \<in> set ys \<Longrightarrow> f x = g x) \<Longrightarrow> rmap f xs = rmap g ys"
  by (induction xs arbitrary: ys) auto

fun write_xml :: "'n xml_env \<Rightarrow> object \<Rightarrow> 'n content result" where
  "write_xml e (OVector v) = rbind (rmap (write_xml e) v) (\<lambda>cs. Inr (vector_content e v cs))"
| "write_xml e (OTuple v) = rbind (rmap (write_xml e) v) (\<lambda>cs. Inr (tuple_content e v cs))"
| "write_xml e (ODeque v) = Inr ([], [], False)"
| "write_xml e (OParam k v) = rbind (write_xml e v) (\<lambda>c. Inr ([], [param_node e k c], snd (snd c)))"
| "write_xml e (OAttr k v) = rbind (write_xml e v) (\<lambda>c. Inr ([], [attr_node e k c], snd (snd c)))"
| "write_xml e (OParamMap m) =
     rbind (rmap (\<lambda>p. write_xml e (snd p)) m) (\<lambda>cs. Inr ([], map2 (\<lambda>p c. param_node e (fst p) c) m cs, True))"
| "write_xml e (OAttrMap m) =
     rbind (rmap (\<lambda>p. write_xml e (snd p)) m) (\<lambda>cs. Inr ([], map2 (\<lambda>p c. attr_node e (fst p) c) m cs, True))"
| "write_xml e obj = write_value e obj"

text \<open>The root of a document.\<close>

definition serialize_xml :: "'n xml_env \<Rightarrow> byte list \<Rightarrow> object \<Rightarrow> 'n result" where
  "serialize_xml e root_name obj = rbind (write_xml e obj) (\<lambda>c.
     Inr (x_element e (c_str root_name) ((str ''xmlns:xsi'', str ''w3.org/2001/XMLSchema-instance'') # fst c) (fst (snd c))))"

section \<open>The reader\<close>

definition is_set :: "byte list \<Rightarrow> bool" where
  "is_set type \<longleftrightarrow> type \<in> {str ''tpl'', str ''vec'', str ''set'', str ''amap'', str ''attr'', str ''pmap'', str ''param''}"

text \<open>Numbers throw if they cannot be read; the 64-bit unsigned one is cut to 32 bits.\<close>

definition produce_number :: "'n xml_env \<Rightarrow> byte list \<Rightarrow> byte list \<Rightarrow> object result" where
  "produce_number e type s =
     (if type = str ''f'' then rapply OFloat (r_stof (x_restore e) s)
      else if type = str ''d'' then rapply ODouble (r_stod (x_restore e) s)
      else if type = str ''ld'' then rapply OFloat80 (r_stold (x_restore e) s)
      else if type = str ''s'' then Inr (OString s)
      else if type = str ''u8'' then rapply (\<lambda>v. OU8 (ucast v)) (stoul 10 s)
      else if type = str ''u16'' then rapply (\<lambda>v. OU16 (ucast v)) (stoul 10 s)
      else if type = str ''u32'' then rapply (\<lambda>v. OU32 (ucast v)) (stoul 10 s)
      else if type = str ''u64'' then rapply (\<lambda>v. OU32 (ucast v)) (stoul 10 s)
      else if type = str ''i8'' then rapply (\<lambda>i. OI8 (word_of_int i)) (stol 32 10 s)
      else if type = str ''i16'' then rapply (\<lambda>i. OI16 (word_of_int i)) (stol 32 10 s)
      else if type = str ''i32'' then rapply (\<lambda>i. OI32 (word_of_int i)) (stol 32 10 s)
      else if type = str ''i64'' then rapply (\<lambda>i. OI64 (word_of_int i)) (stol 64 10 s)
      else Inr ONull)"

definition produce_object :: "'n xml_env \<Rightarrow> byte list \<Rightarrow> byte list \<Rightarrow> object result" where
  "produce_object e type s =
     (if type = str ''null'' then Inr ONull
      else if type = str ''bool'' then Inr (OBool (s = str ''true''))
      else if type = str ''char'' then Inr (OString s)
      else if type = str ''chrono:tp'' then Inr (OChrono TimePoint (p_time_point (x_parse e) s))
      else if type = str ''v'' then rapply OVersion (to_version (x_host e) (p_split (x_parse e)) s)
      else if type = str ''rev'' then rapply ORevision (to_revision (x_host e) (p_split (x_parse e)) s)
      else if type = str ''log:severity'' then rapply OSeverity (to_severity (x_build e) s)
      else if type = str ''binary'' then Inr (OString (str ''ToDo''))
      else if type = str ''mac48'' then rapply OMac48 (to_mac48 (x_build e) (x_host e) (p_split (x_parse e)) s)
      else if type = str ''mac64'' then rapply OMac64 (to_mac64 (x_build e) (x_host e) (p_split (x_parse e)) s)
      else if type = str ''uuid'' then (case r_uuid (x_restore e) s of Some v \<Rightarrow> Inr (OOctets Uuid v) | None \<Rightarrow> Inl Exception)
      else if type = str ''fs:path'' then Inr (OPath s)
      else if type = str ''ip:address'' then Inr (OIpAddress (p_address (x_parse e) s))
      else if type = str ''eod'' then Inr OEod
      else produce_number e type s)"

definition pair_factory :: "'n xml_env \<Rightarrow> byte list \<Rightarrow> object \<Rightarrow> object result" where
  "pair_factory e name obj = rbind (boost_assert (x_build e) (name \<noteq> [])) (\<lambda>_. Inr (OParam name obj))"

text \<open>
  The two readers call each other without end on some nodes: \<open>None\<close> when the fuel runs out.
\<close>

definition rthen :: "'a result option \<Rightarrow> ('a \<Rightarrow> 'b result) \<Rightarrow> 'b result option" where
  "rthen m f = map_option (\<lambda>r. rbind r f) m"

fun read_list :: "('n \<Rightarrow> object result option) \<Rightarrow> 'n list \<Rightarrow> object list result option" where
  "read_list f [] = Some (Inr [])"
| "read_list f (x # xs) =
     (case f x of
        None \<Rightarrow> None
      | Some (Inl err) \<Rightarrow> Some (Inl err)
      | Some (Inr y) \<Rightarrow> rthen (read_list f xs) (\<lambda>ys. Inr (y # ys)))"

definition read_elem :: "'n xml_env \<Rightarrow> ('n \<Rightarrow> object result option) \<Rightarrow> 'n \<Rightarrow> object result option" where
  "read_elem e f elem =
     (let type = attribute e ''type'' elem in
      if is_set type then f elem else Some (produce_object e type (x_child_value e elem)))"

text \<open>A vector reserves the size its attribute gives, as an \<^verbatim>\<open>int\<close>: a negative one throws.  (Memory never runs out.)\<close>

definition reserve :: "'n xml_env \<Rightarrow> 'n \<Rightarrow> object result option \<Rightarrow> object result option" where
  "reserve e node r = (if x_as_int e (attribute e ''size'' node) < 0 then Some (Inl Exception) else r)"

fun read_root :: "'n xml_env \<Rightarrow> nat \<Rightarrow> 'n \<Rightarrow> object result option"
  and read_node :: "'n xml_env \<Rightarrow> nat \<Rightarrow> 'n \<Rightarrow> object result option" where
  "read_root e 0 node = None"
| "read_root e (Suc n) node =
     (let type = attribute e ''type'' node in
      if type = str ''vec'' then
        reserve e node (rthen (read_list (read_elem e (read_node e n)) (x_children e node)) (\<lambda>v. Inr (OVector v)))
      else if type = str ''tpl'' then rthen (read_list (read_elem e (read_node e n)) (x_children e node)) (\<lambda>v. Inr (OTuple v))
      else read_node e n node)"
| "read_node e 0 node = None"
| "read_node e (Suc n) node =
     (let name = x_name e node; type = attribute e ''type'' node in
      if name = str ''element'' then
        (if type = str ''tpl'' then rthen (read_list (read_node e n) (x_children e node)) (\<lambda>v. Inr (OTuple v))
         else Some (Inr ONull))
      else if name = str ''vec'' then reserve e node (rthen (read_list (read_node e n) (x_children e node)) (\<lambda>v. Inr (OVector v)))
      else if name = str ''param'' then
        (if is_set type then rthen (read_root e n node) (pair_factory e (attribute e ''name'' node))
         else Some (rbind (produce_object e type (x_child_value e node)) (pair_factory e (attribute e ''name'' node))))
      else Some (Inr ONull))"

section \<open>Texts\<close>

lemma c_str_plain [simp]: "0 \<notin> set s \<Longrightarrow> c_str s = s"
  unfolding c_str_def by (rule takeWhile_eq_all_conv [THEN iffD2]) auto

lemma digits_no_zero [simp]: "1 < base \<Longrightarrow> base \<le> 16 \<Longrightarrow> 0 \<notin> set (show_base base k)" "0 \<notin> set (fixed 16 n k)"
proof -
  have "\<forall>d < 16. digit_char d \<noteq> 0" unfolding on_digits by code_simp
  then show "1 < base \<Longrightarrow> base \<le> 16 \<Longrightarrow> 0 \<notin> set (show_base base k)" "0 \<notin> set (fixed 16 n k)"
    using set_show_base [of 0 base k] set_fixed [of 0 16 n k] by fastforce+
qed

lemma int_no_zero [simp]: "0 \<notin> set (show_int i)"
  by (simp add: show_int_def)

lemma join_no_zero: "sep \<noteq> 0 \<Longrightarrow> (\<And>p. p \<in> set ps \<Longrightarrow> 0 \<notin> set p) \<Longrightarrow> 0 \<notin> set (join sep ps)"
  by (induction sep ps rule: join.induct) auto

lemma mac_no_zero [simp]: "0 \<notin> set (show_mac48 m)" "0 \<notin> set (show_mac64 m64)"
  unfolding show_mac48_def show_mac64_def octet_text word_text by (rule join_no_zero; auto simp: to_hex_byte)+

lemma version_no_zero [simp]: "0 \<notin> set (show_version h v)"
  by (simp add: show_version_def)

lemma show_buffer_no_zero [simp]: "0 \<notin> set (show_buffer v)"
  unfolding show_buffer_def octet_text by (induction v) (auto simp: to_hex_byte)

lemma uuid_no_zero [simp]: "0 \<notin> set (show_uuid v)"
  by (auto simp: show_uuid_def str_def byte_of_char_def)

lemma stol_show_int: "- (2 ^ (n - 1)) \<le> i \<Longrightarrow> i < 2 ^ (n - 1) \<Longrightarrow> stol n 10 (show_int i) = Inr i"
  by (auto simp: stol_def show_int_def str_to_number_negative str_to_number_show_base Let_def)

lemma word_bounds:
  "- (2 ^ 31) \<le> sint (i8 :: byte)" "sint i8 < 2 ^ 31" "- (2 ^ 31) \<le> sint (i16 :: u16)" "sint i16 < 2 ^ 31"
  "- (2 ^ 31) \<le> sint (i32 :: u32)" "sint i32 < 2 ^ 31" "- (2 ^ 63) \<le> sint (i64 :: u64)" "sint i64 < 2 ^ 63"
  using sint_greater_eq [of i8] sint_less [of i8] sint_greater_eq [of i16] sint_less [of i16] sint_greater_eq [of i32]
    sint_less [of i32] sint_greater_eq [of i64] sint_less [of i64] by simp_all

lemma unsigned_back:
  "stoul 10 (show_dec w) = Inr (ucast (w :: 'a::len word))" if "LENGTH('a) \<le> 64"
proof -
  have "unat w < 2 ^ LENGTH('a)" by simp
  also have "\<dots> \<le> (2 ^ 64 :: nat)" using that by (intro power_increasing) auto
  finally show ?thesis by (simp add: show_dec_def)
qed

section \<open>Values there and back\<close>

lemma xml_types:
  "xml_type (OBool b) = str ''bool''" "xml_type (OU8 u8) = str ''u8''" "xml_type (OU16 u16) = str ''u16''"
  "xml_type (OU32 u32) = str ''u32''" "xml_type (OU64 u64) = str ''u64''" "xml_type (OI8 i8) = str ''i8''"
  "xml_type (OI16 i16) = str ''i16''" "xml_type (OI32 i32) = str ''i32''" "xml_type (OI64 i64) = str ''i64''"
  "xml_type (OString s) = str ''s''" "xml_type (OPath s) = str ''fs:path''" "xml_type (OBuffer s) = str ''binary''"
  "xml_type (OVersion v) = str ''v''" "xml_type (ORevision r) = str ''r''" "xml_type (OMac48 m) = str ''mac48''"
  "xml_type (OMac64 m64) = str ''mac64''" "xml_type (OOctets Uuid s) = str ''uuid''" "xml_type (OIpAddress s) = str ''ip:address''"
  "xml_type OEod = str ''eod''" "xml_type (OTuple xs) = str ''tpl''" "xml_type (OVector xs) = str ''vec''"
  by (simp_all add: xml_type_def names_def)

text \<open>Values that the reader gives back as they were; what UUIDs and addresses need is known of their parsers.\<close>

definition proper_version :: "endian \<Rightarrow> version \<Rightarrow> bool" where
  "proper_version h v \<longleftrightarrow> v = make_version h (version_major h v) (version_minor h v)"

definition xml_scalar :: "'n xml_env \<Rightarrow> object \<Rightarrow> bool" where
  "xml_scalar e obj = (case obj of
      ONull \<Rightarrow> True
    | OEod \<Rightarrow> True
    | OBool v \<Rightarrow> True
    | OU8 v \<Rightarrow> True
    | OU16 v \<Rightarrow> True
    | OU32 v \<Rightarrow> True
    | OI8 v \<Rightarrow> True
    | OI16 v \<Rightarrow> True
    | OI32 v \<Rightarrow> True
    | OI64 v \<Rightarrow> True
    | OString s \<Rightarrow> 0 \<notin> set s
    | OVersion v \<Rightarrow> proper_version (x_host e) v
    | OMac48 v \<Rightarrow> True
    | OMac64 v \<Rightarrow> True
    | OOctets t v \<Rightarrow> t = Uuid \<and> r_uuid (x_restore e) (show_uuid v) = Some v
    | OIpAddress v \<Rightarrow> 0 \<notin> set v \<and> p_address (x_parse e) v = v
    | _ \<Rightarrow> False)"

text \<open>
  What the round trip relies on: a node of pugixml has the name, the attributes (the first of a name counts, one that
  is not there reads as an empty string) and the children it was given, the first text among them being its
  \<^verbatim>\<open>child_value\<close>; \<^verbatim>\<open>boost::split\<close>; \<^verbatim>\<open>as_int\<close> of a size that was written; and a little-endian host.
\<close>

definition nodes_ok :: "'n xml_env \<Rightarrow> bool" where
  "nodes_ok e \<longleftrightarrow> (\<forall>m as ch. x_name e (x_element e m as ch) = m \<and> x_children e (x_element e m as ch) = ch \<and>
     (\<forall>k. x_attribute e (x_element e m as ch) k = (case map_of as k of Some v \<Rightarrow> v | None \<Rightarrow> [])) \<and>
     (\<forall>t. x_child_value e (x_element e m as [x_pcdata e t]) = t))"

definition xml_ok :: "'n xml_env \<Rightarrow> bool" where
  "xml_ok e \<longleftrightarrow> nodes_ok e \<and> splits (p_split (x_parse e)) \<and> (\<forall>n. 0 \<le> x_as_int e (show_base 10 n)) \<and> x_host e = Little"

lemma nodes_ok:
  assumes "nodes_ok e"
  shows "x_name e (x_element e m as ch) = m" and "x_children e (x_element e m as ch) = ch"
    and "attribute e n (x_element e m as ch) = (case map_of as (str n) of Some v \<Rightarrow> v | None \<Rightarrow> [])"
    and "x_child_value e (x_element e m as [x_pcdata e t]) = t"
  using assms by (simp_all add: nodes_ok_def attribute_def)

lemma xml_ok: "xml_ok e \<Longrightarrow> nodes_ok e" "xml_ok e \<Longrightarrow> splits (p_split (x_parse e))" "xml_ok e \<Longrightarrow> x_host e = Little"
  "xml_ok e \<Longrightarrow> attribute e ''size'' node = show_base 10 n \<Longrightarrow> reserve e node r = r"
  by (auto simp: xml_ok_def reserve_def dest: spec [of _ n])

definition reads_as :: "'n xml_env \<Rightarrow> 'n content \<Rightarrow> object \<Rightarrow> bool" where
  "reads_as e c obj \<longleftrightarrow> (\<forall>m pre. str ''type'' \<notin> fst ` set pre \<longrightarrow>
     (let node = x_element e m (pre @ fst c) (fst (snd c)) in
      \<not> is_set (attribute e ''type'' node) \<and> produce_object e (attribute e ''type'' node) (x_child_value e node) = Inr obj))"

lemma map_of_pre: "k \<notin> fst ` set pre \<Longrightarrow> map_of (pre @ as) k = map_of as k"
  by (induction pre) auto

lemma typed_reads:
  assumes "0 \<notin> set text" "xml_type obj = str t"
    "t \<notin> {''tpl'', ''vec'', ''set'', ''amap'', ''attr'', ''pmap'', ''param''}" "produce_object e (str t) text = Inr obj" "nodes_ok e"
  shows "reads_as e (typed e obj text) obj"
  using assms(1-4) by (simp add: reads_as_def typed_def Let_def nodes_ok [OF assms(5)] map_of_pre is_set_def del: map_of_append)

lemmas produce_simps = produce_object_def produce_number_def rapply_def

lemma bool_reads: "nodes_ok e \<Longrightarrow> reads_as e (typed e (OBool b) (show_bool b)) (OBool b)"
  by (rule typed_reads [OF _ xml_types(1)]) (auto simp: produce_simps show_bool_def str_def byte_of_char_def)

lemma unsigned_reads:
  assumes "nodes_ok e"
  shows "reads_as e (typed e (OU8 u8) (show_dec u8)) (OU8 u8)"
  "reads_as e (typed e (OU16 u16) (show_dec u16)) (OU16 u16)"
  "reads_as e (typed e (OU32 u32) (show_dec u32)) (OU32 u32)"
proof -
  have d: "0 \<notin> set (show_dec w)" for w :: "'w::len word" by (simp add: show_dec_def)
  have "ucast (ucast u8 :: u64) = u8" "ucast (ucast u16 :: u64) = u16" "ucast (ucast u32 :: u64) = u32"
    by (simp_all add: ucast_up_ucast_id is_up)
  note unsigned_back = unsigned_back this
  show "reads_as e (typed e (OU8 u8) (show_dec u8)) (OU8 u8)"
    by (rule typed_reads [OF d xml_types(2)]) (simp_all add: produce_simps assms unsigned_back)
  show "reads_as e (typed e (OU16 u16) (show_dec u16)) (OU16 u16)"
    by (rule typed_reads [OF d xml_types(3)]) (simp_all add: produce_simps assms unsigned_back)
  show "reads_as e (typed e (OU32 u32) (show_dec u32)) (OU32 u32)"
    by (rule typed_reads [OF d xml_types(4)]) (simp_all add: produce_simps assms unsigned_back)
qed

lemma signed_reads:
  assumes "nodes_ok e"
  shows "reads_as e (typed e (OI8 i8) (show_int (sint i8))) (OI8 i8)"
  "reads_as e (typed e (OI16 i16) (show_int (sint i16))) (OI16 i16)"
  "reads_as e (typed e (OI32 i32) (show_int (sint i32))) (OI32 i32)"
  "reads_as e (typed e (OI64 i64) (show_int (sint i64))) (OI64 i64)"
proof -
  have s: "stol 32 10 (show_int (sint i8)) = Inr (sint i8)" "stol 32 10 (show_int (sint i16)) = Inr (sint i16)"
    "stol 32 10 (show_int (sint i32)) = Inr (sint i32)" "stol 64 10 (show_int (sint i64)) = Inr (sint i64)"
    by (rule stol_show_int; use word_bounds in simp)+
  show "reads_as e (typed e (OI8 i8) (show_int (sint i8))) (OI8 i8)"
    by (rule typed_reads [OF int_no_zero xml_types(6)]) (simp_all add: produce_simps assms s)
  show "reads_as e (typed e (OI16 i16) (show_int (sint i16))) (OI16 i16)"
    by (rule typed_reads [OF int_no_zero xml_types(7)]) (simp_all add: produce_simps assms s)
  show "reads_as e (typed e (OI32 i32) (show_int (sint i32))) (OI32 i32)"
    by (rule typed_reads [OF int_no_zero xml_types(8)]) (simp_all add: produce_simps assms s)
  show "reads_as e (typed e (OI64 i64) (show_int (sint i64))) (OI64 i64)"
    by (rule typed_reads [OF int_no_zero xml_types(9)]) (simp_all add: produce_simps assms s)
qed

lemma text_reads:
  assumes "nodes_ok e"
  shows "0 \<notin> set s \<Longrightarrow> reads_as e (typed e (OString s) s) (OString s)"
    and "0 \<notin> set s \<Longrightarrow> p_address (x_parse e) s = s \<Longrightarrow> reads_as e (typed e (OIpAddress s) s) (OIpAddress s)"
    and "r_uuid (x_restore e) (show_uuid s) = Some s \<Longrightarrow> reads_as e (typed e (OOctets Uuid s) (show_octets Uuid s)) (OOctets Uuid s)"
  by (rule typed_reads [OF _ xml_types(10)] typed_reads [OF _ xml_types(18)] typed_reads [OF _ xml_types(17)];
      simp add: produce_simps show_octets_def assms)+

lemma split_reads:
  assumes "xml_ok e"
  shows "reads_as e (typed e (OMac48 m) (show_mac48 m)) (OMac48 m)"
    and "reads_as e (typed e (OMac64 w) (show_mac64 w)) (OMac64 w)"
    and "proper_version Little v \<Longrightarrow> reads_as e (typed e (OVersion v) (show_version Little v)) (OVersion v)"
proof -
  note ok = xml_ok(1-3) [OF assms]
  show "reads_as e (typed e (OMac48 m) (show_mac48 m)) (OMac48 m)"
    by (rule typed_reads [OF mac_no_zero(1) xml_types(15)]) (cases m, simp_all add: produce_simps ok mac48_text)
  have "to_mac64 (x_build e) Little (p_split (x_parse e)) (show_mac64 w) = Inr w"
    using mac64_text [OF ok(2)] by (cases w) (simp add: host_word_def)
  then show "reads_as e (typed e (OMac64 w) (show_mac64 w)) (OMac64 w)"
    by (intro typed_reads [OF mac_no_zero(2) xml_types(16)]) (simp_all add: produce_simps ok)
  show "reads_as e (typed e (OVersion v) (show_version Little v)) (OVersion v)" if v: "proper_version Little v"
  proof -
    have "to_version Little (p_split (x_parse e)) (show_version Little v) = Inr v"
      using v version_text [OF ok(2), of Little "version_major Little v" "version_minor Little v"]
      unfolding proper_version_def by metis
    then show ?thesis by (intro typed_reads [OF version_no_zero xml_types(13)]) (simp_all add: produce_simps ok)
  qed
qed

lemma untyped_reads:
  assumes "nodes_ok e"
  shows "reads_as e ([(str ''xsi:nil'', [])], [], True) ONull"
    and "reads_as e ([(str ''type'', xml_type OEod)], [], False) OEod"
proof -
  have n: "[] \<notin> {str ''tpl'', str ''vec'', str ''set'', str ''amap'', str ''attr'', str ''pmap'', str ''param''}"
    by (simp add: str_def)
  have p: "produce_object e [] t = Inr ONull" for t by (simp add: produce_simps str_def)
  show "reads_as e ([(str ''xsi:nil'', [])], [], True) ONull"
    by (simp add: reads_as_def Let_def nodes_ok [OF assms] map_of_pre is_set_def n [simplified] p del: map_of_append)
  show "reads_as e ([(str ''type'', xml_type OEod)], [], False) OEod"
    by (simp add: reads_as_def Let_def nodes_ok [OF assms] map_of_pre is_set_def produce_simps xml_types del: map_of_append)
qed

lemma scalar_reads:
  assumes "xml_ok e" "xml_scalar e obj"
  shows "\<exists>c. write_xml e obj = Inr c \<and> reads_as e c obj"
  using assms(2) split_reads [OF assms(1)]
  by (cases obj) (auto simp: xml_scalar_def write_value_def xml_text_def xml_number_def xml_ok(3) [OF assms(1)] bool_reads unsigned_reads
      signed_reads text_reads untyped_reads xml_ok(1) [OF assms(1)])

section \<open>Sequences there and back\<close>

text \<open>What is placed in a sequence is one node without attributes for the sequence itself.\<close>

lemma rmap_Inr_exists: "(\<And>x. x \<in> set xs \<Longrightarrow> \<exists>c. f x = Inr c \<and> P x c) \<Longrightarrow> \<exists>cs. rmap f xs = Inr cs \<and> list_all2 P xs cs"
  by (induction xs) fastforce+

lemma read_list_all2:
  "list_all2 (\<lambda>x n. f n = Some (Inr x)) xs ns \<Longrightarrow> read_list f ns = Some (Inr xs)"
  by (induction rule: list_all2_induct) (simp_all add: rthen_def)

lemma scalar_tag: "xml_scalar e x \<Longrightarrow> \<not> is_sub x \<and> type_tag x \<noteq> 51"
  by (cases x) (auto simp: xml_scalar_def is_sub_def)

lemma scalar_value_node:
  assumes "reads_as e c x"
  shows "read_elem e f (x_element e m (fst c) (fst (snd c))) = Some (Inr x)"
  using assms [unfolded reads_as_def, rule_format, of "[]" m] by (simp add: read_elem_def Let_def)

text \<open>The nodes of scalars in a vector and in a tuple.\<close>

lemma placed_scalars:
  assumes "list_all2 (\<lambda>x c. xml_scalar e x \<and> reads_as e c x) xs cs"
  shows "concat (map fst (map (\<lambda>(i, x, c). place e (f i) x c) (enumerate k (zip xs cs)))) = []"
    and "list_all2 (\<lambda>x n. read_elem e g n = Some (Inr x)) xs (concat (map snd (map (\<lambda>(i, x, c). place e (f i) x c) (enumerate k (zip xs cs)))))"
  using assms
proof (induction xs cs arbitrary: k rule: list_all2_induct)
  case (Cons x xs c cs)
  {
    case 1
    then show ?case using Cons scalar_tag [of e x] by (simp add: place_def)
  next
    case 2
    then show ?case using Cons scalar_tag [of e x] scalar_value_node [of e c x] by (simp add: place_def)
  }
qed simp_all

lemma tuple_content_enumerate:
  "tuple_content e v cs = sequence (OTuple v) (length v)
     (map (\<lambda>(index, obj, c). place e (x_tuple_name e v, []) obj c) (enumerate 0 (zip v cs)))"
proof -
  have m: "map (\<lambda>(obj, c). h obj c) ps = map (\<lambda>(i, obj, c). h obj c) (enumerate k ps)" for h :: "object \<Rightarrow> 'n content \<Rightarrow> 'b" and ps k
    by (induction ps arbitrary: k) auto
  show ?thesis unfolding tuple_content_def by (subst m [of _ _ 0]) (rule refl)
qed

lemma scalar_sequence:
  assumes "xml_ok e" "list_all (xml_scalar e) xs" "obj = OVector xs \<or> obj = OTuple xs"
  shows "\<exists>ch. write_xml e obj = Inr ([(str ''type'', xml_type obj), (str ''size'', show_base 10 (length xs))], ch, True) \<and>
    (\<forall>f. read_list (read_elem e f) ch = Some (Inr xs))"
proof -
  obtain cs where cs: "rmap (write_xml e) xs = Inr cs" "list_all2 (\<lambda>x c. xml_scalar e x \<and> reads_as e c x) xs cs"
    using rmap_Inr_exists [of xs "write_xml e" "\<lambda>x c. xml_scalar e x \<and> reads_as e c x"] scalar_reads [OF assms(1)] assms(2)
    by (auto simp: list_all_iff)
  note p = placed_scalars(1) [OF cs(2)] read_list_all2 [OF placed_scalars(2) [OF cs(2)]]
  show ?thesis
    using assms(3) by (auto simp: cs(1) vector_content_def tuple_content_enumerate sequence_def p simp del: map_map)
qed

text \<open>A parameter of the kind a configuration has: a scalar, or a sequence of scalars, under a name.\<close>

definition xml_entry :: "'n xml_env \<Rightarrow> object \<Rightarrow> bool" where
  "xml_entry e obj = (case obj of
      OParam k x \<Rightarrow> k \<noteq> [] \<and> 0 \<notin> set k \<and>
        (case x of OVector ys \<Rightarrow> list_all (xml_scalar e) ys | OTuple ys \<Rightarrow> list_all (xml_scalar e) ys | _ \<Rightarrow> xml_scalar e x)
    | _ \<Rightarrow> False)"

lemma entry_reads:
  assumes "xml_ok e" "xml_entry e obj"
  shows "\<exists>c node. write_xml e obj = Inr c \<and> fst c = [] \<and> fst (snd c) = [node] \<and> (\<forall>n. read_node e (Suc (Suc n)) node = Some (Inr obj))"
proof -
  note nodes = nodes_ok [OF xml_ok(1) [OF assms(1)]]
  obtain k x where obj: "obj = OParam k x" "k \<noteq> []" "0 \<notin> set k" using assms(2) by (cases obj) (auto simp: xml_entry_def)
  show ?thesis
  proof (cases "\<exists>ys. x = OVector ys \<or> x = OTuple ys")
    case True
    then obtain ys where ys: "x = OVector ys \<or> x = OTuple ys" by blast
    then have "list_all (xml_scalar e) ys" using assms(2) by (auto simp: xml_entry_def obj)
    from scalar_sequence [OF assms(1) this ys] obtain ch where ch:
      "write_xml e x = Inr ([(str ''type'', xml_type x), (str ''size'', show_base 10 (length ys))], ch, True)"
      "\<And>f. read_list (read_elem e f) ch = Some (Inr ys)" by blast
    let ?node = "param_node e k ([(str ''type'', xml_type x), (str ''size'', show_base 10 (length ys))], ch, True)"
    have "attribute e ''size'' ?node = show_base 10 (length ys)" by (simp add: param_node_def nodes)
    then have "reserve e ?node r = r" for r by (rule xml_ok(4) [OF assms(1)])
    then have "read_node e (Suc (Suc n)) ?node = Some (Inr obj)" for n
      using ys obj by (auto simp: param_node_def nodes Let_def is_set_def xml_types ch(2) rthen_def pair_factory_def)
    then show ?thesis by (simp add: obj(1) ch(1))
  next
    case False
    then have "xml_scalar e x" using assms(2) by (cases x) (auto simp: xml_entry_def obj)
    from scalar_reads [OF assms(1) this] obtain c where c: "write_xml e x = Inr c" "reads_as e c x" by blast
    have "read_node e (Suc (Suc n)) (param_node e k c) = Some (Inr obj)" for n
      using c(2) [unfolded reads_as_def, rule_format, of "[(str ''name'', k)]" "str ''param''"] obj
      by (simp add: param_node_def nodes Let_def pair_factory_def)
    then show ?thesis by (simp add: obj(1) c(1))
  qed
qed

lemma placed_entries:
  assumes "list_all2 (\<lambda>x c. xml_entry e x \<and> fst c = [] \<and> (\<exists>node. fst (snd c) = [node] \<and> (\<forall>n. read_node e (Suc (Suc n)) node = Some (Inr x)))) xs cs"
  shows "concat (map fst (map (\<lambda>(i, x, c). place e (f i) x c) (enumerate k (zip xs cs)))) = [] \<and>
    list_all2 (\<lambda>x n. read_node e (Suc (Suc j)) n = Some (Inr x)) xs (concat (map snd (map (\<lambda>(i, x, c). place e (f i) x c) (enumerate k (zip xs cs)))))"
  using assms
proof (induction xs cs arbitrary: k rule: list_all2_induct)
  case (Cons x xs c cs)
  moreover have "\<not> is_sub x \<and> type_tag x = 51" using Cons.hyps by (cases x) (auto simp: xml_entry_def is_sub_def)
  ultimately show ?case by (auto simp: place_def)
qed simp

lemma entry_tuple:
  assumes "xml_ok e" "list_all (xml_entry e) xs"
  shows "\<exists>ch. write_xml e (OTuple xs) = Inr ([(str ''type'', str ''tpl''), (str ''size'', show_base 10 (length xs))], ch, True) \<and>
    (\<forall>n. read_list (read_node e (Suc (Suc n))) ch = Some (Inr xs))"
proof -
  let ?P = "\<lambda>x c. xml_entry e x \<and> fst c = [] \<and> (\<exists>node. fst (snd c) = [node] \<and> (\<forall>n. read_node e (Suc (Suc n)) node = Some (Inr x)))"
  have "\<And>x. x \<in> set xs \<Longrightarrow> \<exists>c. write_xml e x = Inr c \<and> ?P x c"
    using entry_reads [OF assms(1)] assms(2) by (auto simp: list_all_iff)
  from rmap_Inr_exists [of xs "write_xml e" ?P, OF this] obtain cs where cs: "rmap (write_xml e) xs = Inr cs" "list_all2 ?P xs cs" by blast
  note p = placed_entries [OF cs(2), THEN conjunct1] read_list_all2 [OF placed_entries [OF cs(2), THEN conjunct2]]
  show ?thesis by (simp add: cs(1) tuple_content_enumerate sequence_def p xml_types del: map_map)
qed

section \<open>Properties\<close>

text \<open>An element of the vector: a scalar or a tuple of parameters.\<close>

definition xml_item :: "'n xml_env \<Rightarrow> object \<Rightarrow> bool" where
  "xml_item e obj = (case obj of OTuple xs \<Rightarrow> list_all (xml_entry e) xs | _ \<Rightarrow> xml_scalar e obj)"

definition item_node :: "'n xml_env \<Rightarrow> object \<Rightarrow> 'n content \<Rightarrow> byte list \<Rightarrow> 'n" where
  "item_node e x c i =
     (if is_sub x then x_element e (str ''element'') ((str ''index'', i) # fst c) (fst (snd c))
      else x_element e (str ''value'') (fst c) (fst (snd c)))"

definition item_ok :: "'n xml_env \<Rightarrow> object \<Rightarrow> 'n content \<Rightarrow> bool" where
  "item_ok e x c \<longleftrightarrow> type_tag x \<noteq> 51 \<and> (\<forall>i n. read_elem e (read_node e (Suc (Suc (Suc n)))) (item_node e x c i) = Some (Inr x))"

lemma item_reads:
  assumes "xml_ok e" "xml_item e obj"
  shows "\<exists>c. write_xml e obj = Inr c \<and> item_ok e obj c"
proof (cases "\<exists>xs. obj = OTuple xs")
  case True
  then obtain xs where xs: "obj = OTuple xs" "list_all (xml_entry e) xs" using assms(2) by (auto simp: xml_item_def)
  from entry_tuple [OF assms(1) xs(2)] obtain ch where ch:
    "write_xml e (OTuple xs) = Inr ([(str ''type'', str ''tpl''), (str ''size'', show_base 10 (length xs))], ch, True)"
    "\<And>n. read_list (read_node e (Suc (Suc n))) ch = Some (Inr xs)" by blast
  let ?c = "([(str ''type'', str ''tpl''), (str ''size'', show_base 10 (length xs))], ch, True)"
  have sub: "is_sub obj" "type_tag obj \<noteq> 51" by (simp_all add: xs(1) is_sub_def)
  note nodes = nodes_ok [OF xml_ok(1) [OF assms(1)]]
  have "read_node e (Suc (Suc (Suc n))) (item_node e obj ?c i) = Some (Inr obj)"
    "attribute e ''type'' (item_node e obj ?c i) = str ''tpl''" for n i
    using sub(1) by (simp_all add: item_node_def nodes Let_def ch(2) rthen_def xs(1))
  then have "item_ok e obj ?c" using sub(2) by (simp add: item_ok_def read_elem_def is_set_def Let_def)
  with ch(1) xs(1) show ?thesis by blast
next
  case False
  then have x: "xml_scalar e obj" using assms(2) by (cases obj) (auto simp: xml_item_def)
  with scalar_reads [OF assms(1)] obtain c where "write_xml e obj = Inr c" "reads_as e c obj" by blast
  then show ?thesis using scalar_tag [OF x] scalar_value_node [of e c obj] by (auto simp: item_ok_def item_node_def)
qed

lemma place_item:
  "item_ok e x c \<Longrightarrow> place e (str ''element'', [(str ''index'', i)]) x c = ([], [item_node e x c i])"
  by (simp add: item_ok_def place_def item_node_def)

lemma placed_items:
  assumes "list_all2 (item_ok e) xs cs"
  shows "concat (map fst (map (\<lambda>(i, x, c). place e (str ''element'', [(str ''index'', show_base 10 i)]) x c) (enumerate k (zip xs cs)))) = [] \<and>
    list_all2 (\<lambda>x node. read_elem e (read_node e (Suc (Suc (Suc n)))) node = Some (Inr x)) xs
      (concat (map snd (map (\<lambda>(i, x, c). place e (str ''element'', [(str ''index'', show_base 10 i)]) x c) (enumerate k (zip xs cs)))))"
  using assms
proof (induction xs cs arbitrary: k rule: list_all2_induct)
  case (Cons x xs c cs)
  have "read_elem e (read_node e (Suc (Suc (Suc n)))) (item_node e x c (show_base 10 k)) = Some (Inr x)" using Cons.hyps(1) by (simp add: item_ok_def)
  then show ?case using Cons.IH [of "Suc k"] by (simp add: place_item [OF Cons.hyps(1)] del: map_map concat_eq_Nil_conv read_node.simps)
qed simp

text \<open>C31. A configuration as XML and back, on a little-endian host: a vector of scalars and of tuples of named
  parameters, each of them a scalar or a vector or tuple of scalars, is written as a tree of nodes, under a root of any
  name, and the reader makes the same vector of that tree.  The scalars (\<open>xml_scalar\<close>) are null, end of data, truth
  values, unsigned numbers of up to 32 bits (64-bit ones are cut), signed ones, strings without zero bytes, MAC addresses,
  versions made of a major and a minor number, and UUIDs and IP addresses their parsers read; no other type.  Names of
  parameters are not empty and have no zero byte.  It is the tree that is read back; how pugixml writes and parses its
  text is not modelled.  Assumed (\<open>xml_ok\<close>): its nodes keep name, attributes and children, it reads a written size as
  no negative number, and \<^verbatim>\<open>boost::split\<close> splits.\<close>

theorem xml_roundtrip:
  assumes "xml_ok e" "list_all (xml_item e) v"
  shows "\<exists>node. serialize_xml e root (OVector v) = Inr node \<and> (\<forall>n. read_root e (n + 4) node = Some (Inr (OVector v)))"
proof -
  have "\<And>x. x \<in> set v \<Longrightarrow> \<exists>c. write_xml e x = Inr c \<and> item_ok e x c"
    using item_reads [OF assms(1)] assms(2) by (simp add: list_all_iff)
  from rmap_Inr_exists [of v "write_xml e" "item_ok e", OF this] obtain cs where
    cs: "rmap (write_xml e) v = Inr cs" "list_all2 (item_ok e) v cs" by blast
  let ?p = "map (\<lambda>(i, x, c). place e (str ''element'', [(str ''index'', show_base 10 i)]) x c) (enumerate 0 (zip v cs))"
  let ?node = "x_element e (c_str root) ((str ''xmlns:xsi'', str ''w3.org/2001/XMLSchema-instance'') #
     [(str ''type'', str ''vec''), (str ''size'', show_base 10 (length v))]) (concat (map snd ?p))"
  have "serialize_xml e root (OVector v) = Inr ?node"
    using placed_items [OF cs(2), THEN conjunct1]
    by (simp add: serialize_xml_def cs(1) vector_content_def sequence_def xml_types del: map_map concat_eq_Nil_conv)
  moreover have "read_root e (Suc (Suc (Suc (Suc n)))) ?node = Some (Inr (OVector v))" for n
  proof -
    note nodes = nodes_ok [OF xml_ok(1) [OF assms(1)]]
    have "attribute e ''type'' ?node = str ''vec''" by (simp add: nodes)
    moreover have "attribute e ''size'' ?node = show_base 10 (length v)" by (simp add: nodes)
    then have "reserve e ?node r = r" for r by (rule xml_ok(4) [OF assms(1)])
    ultimately show ?thesis using read_list_all2 [OF placed_items [OF cs(2), THEN conjunct2]]
      by (simp only: read_root.simps Let_def if_True nodes(2)) (simp add: rthen_def)
  qed
  ultimately show ?thesis by (auto simp: numeral_eq_Suc)
qed

text \<open>Nodes as trees.\<close>

datatype xml = Element (tree_name: "byte list") attributes (tree_children: "xml list") | Pcdata "byte list"

definition tree_attribute :: "xml \<Rightarrow> byte list \<Rightarrow> byte list" where
  "tree_attribute node n =
     (case node of Element _ as _ \<Rightarrow> (case map_of as n of Some v \<Rightarrow> v | None \<Rightarrow> []) | Pcdata _ \<Rightarrow> [])"

fun first_text :: "xml list \<Rightarrow> byte list" where
  "first_text [] = []"
| "first_text (Pcdata t # ch) = t"
| "first_text (Element n as sub # ch) = first_text ch"

definition plain_xml :: "xml xml_env" where
  "plain_xml = \<lparr>x_element = Element, x_pcdata = Pcdata, x_name = tree_name, x_attribute = tree_attribute,
     x_children = tree_children, x_child_value = (\<lambda>node. first_text (tree_children node)), x_build = Debug, x_host = Little, x_print = \<lparr>pr_float = \<lambda>_. [], pr_double = \<lambda>_. [], pr_float80 = \<lambda>_. [],
     pr_chrono = \<lambda>_ _. [], pr_ec = \<lambda>_ _. []\<rparr>, x_put_float = \<lambda>_. [], x_put_double = \<lambda>_. [], x_tuple_name = \<lambda>_. str ''tpl_0'',
     x_as_int = \<lambda>s. int (foldl (\<lambda>n c. 10 * n + unat (c - 48)) 0 s), x_parse = plain_parsers,
     x_restore = \<lparr>r_stof = \<lambda>_. Inl Exception, r_stod = \<lambda>_. Inl Exception, r_stold = \<lambda>_. Inl Exception, r_uuid = \<lambda>_. None\<rparr>\<rparr>"

theorem xml_roundtrip_witness:
  "\<exists>node. serialize_xml plain_xml (str ''root'') (OVector [OTuple [OParam (str ''output'') (OVector [OString (str ''console''), OU16 7])], OI32 5]) =
      Inr node \<and>
    read_root plain_xml 4 node = Some (Inr (OVector [OTuple [OParam (str ''output'') (OVector [OString (str ''console''), OU16 7])], OI32 5]))"
proof -
  have "xml_ok plain_xml" by (simp add: xml_ok_def nodes_ok_def tree_attribute_def plain_xml_def plain_parsers_def splits_split_view)
  moreover have "list_all (xml_item plain_xml) [OTuple [OParam (str ''output'') (OVector [OString (str ''console''), OU16 7])], OI32 5]"
    by (simp add: xml_item_def xml_entry_def xml_scalar_def str_def byte_of_char_def)
  ultimately show ?thesis using xml_roundtrip [of plain_xml _ "str ''root''"] by (metis add_0)
qed

text \<open>What is not read back: 64-bit unsigned numbers are cut to 32 bits, buffers become a text, revisions, whose type is
  written as \<^verbatim>\<open>r\<close> and read as \<^verbatim>\<open>rev\<close>, become null.  The two readers call each other without end on a parameter of type
  \<^verbatim>\<open>pmap\<close>.\<close>

lemma endless_parameter:
  assumes "attribute e ''type'' node = str ''pmap''" "x_name e node = str ''param''"
  shows "read_root e n node = None \<and> read_node e n node = None"
proof (induction n)
  case (Suc n)
  then show ?case by (simp add: assms Let_def is_set_def rthen_def)
qed simp

theorem xml_losses:
  assumes "attribute e ''type'' node = str ''pmap''" "x_name e node = str ''param''"
  shows "produce_object e (xml_type (OU64 v)) (show_dec v) = Inr (OU32 (ucast v)) \<and>
   produce_object e (xml_type (OBuffer buf)) t = Inr (OString (str ''ToDo'')) \<and>
   produce_object e (xml_type (ORevision r)) t = Inr ONull \<and>
   read_root e n node = None"
  using unsigned_back [of v] endless_parameter [OF assms, of n]
  by (simp add: produce_simps xml_types)

end
