(* ===== verification/Spec2Isabelle.thy ===== *)
theory Spec2Isabelle
  imports Parser Program Utf8 Store Csv Walker Task Storage Cpp Clock Generator Xml
begin

text \<open>
  Verification library for cyng, a C++ library of loosely typed objects, their binary and text formats and a
  small stack machine that transports them.

  \<^bold>\<open>The program.\<close>  An \<^verbatim>\<open>object\<close> (\<^verbatim>\<open>src/obj\<close>) wraps a value of one of some fifty intrinsic types or a container of
  objects.  The binary serializer (\<^verbatim>\<open>src/io/src/serializer/binary.cpp\<close>) turns an object into bytes; a container
  becomes its elements followed by a count and an op code.  The parser (\<^verbatim>\<open>src/io/src/parser/parser.cpp\<close>) is fed
  byte by byte and calls back with every object it has read.  The virtual machine (\<^verbatim>\<open>src/vm\<close>) loads these
  objects: values go to its stack, op codes rebuild containers from the stack or invoke functions, built-in
  slots among them.

  \<^bold>\<open>The theories.\<close>
  \<^item> \<open>Prelude\<close>: results with faults (a failed \<^verbatim>\<open>BOOST_ASSERT\<close> in a debug build, undefined behaviour, a thrown
    exception), callbacks as output lists, the locale \<open>feeder\<close> of byte-wise readers.
  \<^item> \<open>Buffer\<close> (\<^verbatim>\<open>buffer_cast.hpp\<close>, \<^verbatim>\<open>swap_bytes.h\<close>): numbers to bytes and back for hosts of both byte orders;
    the locale \<open>fixed_codec\<close>, interpreted for every width.
  \<^item> \<open>Intrinsics\<close> (\<^verbatim>\<open>obj/intrinsics\<close>, \<^verbatim>\<open>parse/src/op.cpp\<close>): OBIS and EDIS codes, MAC addresses, versions, colors,
    raw values, op codes and their names.
  \<^item> \<open>Maps\<close>: the standard library's ordered maps as sorted association lists; the locale \<open>ordered_map\<close> and its
    interpretation on them.
  \<^item> \<open>Object\<close> (\<^verbatim>\<open>tag.cpp\<close>, \<^verbatim>\<open>size.cpp\<close>, \<^verbatim>\<open>find.cpp\<close>, \<^verbatim>\<open>merge.cpp\<close>, the casts): objects as a datatype with one
    constructor for each type code, their search, merge and casts.
  \<^item> \<open>Binary\<close> and \<open>Parser\<close>: the binary format; the parser as a state machine with every transition.
  \<^item> \<open>Vm\<close> and \<open>Program\<close>: memory, stack, op codes and slots; programs, runs, frames and calls.
  \<^item> \<open>Utf8\<close> (\<^verbatim>\<open>utf-8.hpp\<close>, \<^verbatim>\<open>utf-8.cpp\<close>, \<^verbatim>\<open>stream.hpp\<close>): decoder, sanitizer, encoder and ranges.
  \<^item> \<open>Hash\<close> (\<^verbatim>\<open>object.cpp\<close>, \<^verbatim>\<open>container.cpp\<close>, \<^verbatim>\<open>store/src/key.cpp\<close>): hashes of objects and containers, equality by
    hash, keys.
  \<^item> \<open>Schema\<close> (\<^verbatim>\<open>meta.cpp\<close>, \<^verbatim>\<open>store/src/record.cpp\<close>), \<open>Table\<close> (\<^verbatim>\<open>table.cpp\<close>, \<^verbatim>\<open>pub.cpp\<close>, \<^verbatim>\<open>slot.cpp\<close>, \<^verbatim>\<open>auto_table.cpp\<close>),
    \<open>Replica\<close> and \<open>Store\<close> (\<^verbatim>\<open>db.cpp\<close>): the in-memory store.  A table is its rows and its connections; an operation
    gives the new table and the messages it publishes.  \<open>Replica\<close> shows that a subscriber that does what the
    messages say has the same rows.
  \<^item> \<open>Text\<close> (\<^verbatim>\<open>src/parse/src\<close>, \<^verbatim>\<open>ostream.cpp\<close>, \<^verbatim>\<open>io_buffer.cpp\<close>): numbers, addresses, codes, versions and timestamps
    as text and back.
  \<^item> \<open>Plain\<close> (\<^verbatim>\<open>serializer/plain.cpp\<close>): streams with their fail bit, the plain form.
  \<^item> \<open>Json\<close> (\<^verbatim>\<open>json_tokenizer.cpp\<close>, \<^verbatim>\<open>json_parser.cpp\<close>) and \<open>Json_Text\<close> (\<^verbatim>\<open>serializer/json.cpp\<close>): the tokenizer as a
    state machine with symbols as output, the parser as a machine with two stacks, the serializer, and what
    comes back of a value.
  \<^item> \<open>Csv\<close> (\<^verbatim>\<open>csv_tokenizer.cpp\<close>, \<^verbatim>\<open>csv_parser.cpp\<close>, \<^verbatim>\<open>csv.cpp\<close>, \<^verbatim>\<open>line_cast.hpp\<close>, \<^verbatim>\<open>serializer/csv.cpp\<close>): likewise for CSV.
  \<^item> \<open>Dom\<close> (\<^verbatim>\<open>dom_walker.cpp\<close>, \<^verbatim>\<open>dom_transform.cpp\<close>): walks as lists of events, transformations, moving of parameters.
  \<^item> \<open>Walker\<close> (\<^verbatim>\<open>typed.cpp\<close>, \<^verbatim>\<open>pretty_walker.cpp\<close>, \<^verbatim>\<open>json_walker.cpp\<close>): the typed form and the indented forms, written
    event by event; indented JSON is read back by the parser of \<open>Json\<close>.
  \<^item> \<open>Task\<close> (\<^verbatim>\<open>src/task\<close>): channels, registry and stash as a transition system.  A strand of Boost.Asio is a queue of
    jobs; a run is any sequence of calls of the user and turns of strands (\<open>reaches\<close>), its events are what was
    accepted, called and stopped.  The invariant \<open>system_ok\<close> gives order, at most one stop and silence afterwards.
  \<^item> \<open>Sql\<close> (\<^verbatim>\<open>src/sql\<close>): dialects, types of columns, statements and expressions as text.  Statements are read
    back as SQL reads them: which value goes to which column.
  \<^item> \<open>Sqlite\<close> (\<^verbatim>\<open>sqlite_statement.cpp\<close>, \<^verbatim>\<open>sqlite_result.cpp\<close>) and \<open>Storage\<close> (\<^verbatim>\<open>storage.cpp\<close>,
    \<^verbatim>\<open>session_pool.cpp\<close>): the life of a statement, values bound and read, rows there and back, loops over tables
    and the session pool.
  \<^item> \<open>Xml\<close> (\<^verbatim>\<open>serializer/xml.cpp\<close>, \<^verbatim>\<open>xml/src/reader.cpp\<close>): objects as nodes of pugixml and back; the nodes are a
    parameter, and the two readers, which may call each other without end, have fuel.
  \<^item> \<open>Cpp\<close> (\<^verbatim>\<open>serializer/cpp.cpp\<close>, \<^verbatim>\<open>hex_dump.hpp\<close>): objects as C++ source and what a compiler reads; hex dumps.
  \<^item> \<open>Generator\<close> (\<^verbatim>\<open>vm/generator.hpp\<close>, \<^verbatim>\<open>vm/linearize.hpp\<close>): generated calls as buffers, through the parser of one machine
    to the channel it sends them to.
  \<^item> \<open>Clock\<close> (\<^verbatim>\<open>sys/src/clock.cpp\<close>): the calendar of the standard library, starts, ends and lengths of periods, and the
    difference between local time and UTC.

  \<^bold>\<open>What the lemmas show.\<close>  Each theory has the bounds, invariants and functional behaviour of its operations
  and ends with its properties, the numbered ones.  The properties that span components are in this theory: an
  object goes through serializer, parser and machine and arrives; see there for what it looks like.

  \<^bold>\<open>Bounds and fuel.\<close>  Machine integers have their width in the code; sizes are natural numbers where the
  code cannot overflow them and 64-bit words where it can (lengths read from the wire, the stack's base
  pointer).  \<open>run\<close> takes fuel because a program may invoke itself; it gives \<open>None\<close> when the fuel runs out, and
  \<open>run_total\<close> shows that a program that does not invoke slots needs one step more than it has instructions.
  All other loops are structural or have a termination proof.

  \<^bold>\<open>Parameters.\<close>  The byte order of the host, the build (assertions on or off), the parser of IP addresses
  (Boost), clock, process and thread ids, lookups of channels, hashes of objects and external functions are
  arguments of the definitions that use them.  So are the iteration order of hash maps (\<open>arrange\<close>), the hash
  functions of the standard library and of Boost, the slots of subscribers that are still alive, the
  functions that make new keys, \<^verbatim>\<open>boost::split\<close> (assumed to split at each separator, \<open>splits\<close>),
  \<^verbatim>\<open>boost::lexical_cast\<close> (assumed to read decimal numbers, \<open>boost_ok\<close>), the calendar of timestamps, the time zone, the printers of floating
  point numbers, the results of the functions of a task (\<open>reply\<close>), the nodes of pugixml (assumed to keep name, attributes and
  children, \<open>xml_ok\<close>), and SQLite: what a column gives back of a value (\<open>sqlite_ok\<close>) and what the steps of a statement give.

  \<^bold>\<open>Not modelled.\<close>  Locks of the store (its operations are atomic here), threads of the scheduler and the clock of
  timers (a timer may fire at any time), sockets, connections of SQLite, ODBC, logging and system information: glue to third-party libraries or to the operating system.  The counters of
  objects in debug builds and the line counter of the JSON parser have no effect.  Floating point values are
  opaque, so HSL colors are left out.  Type erasure and run-time type information of objects are replaced by
  the datatype.  The mesh of virtual machines is left out as well.
\<close>

section \<open>Across components\<close>

text \<open>
  The programs of the binary serializer are the link between serializer, parser and machine: what the parser
  calls back is what a proxy loads.
\<close>

lemma transported:
  assumes "fits e obj" and "wf_object obj" and "loadable (v_max_vec ve) obj" and "length (program_of obj) < n"
    and "pc (code v) = length (mem (code v))" and "ready r"
  shows "\<exists>r'. read e r (serialize_binary (host e) obj) = (program_of obj, Inr r') \<and>
    run n ve (load_deque (program_of obj) v) =
      Some ([], Inr \<lparr>code = \<lparr>mem = mem (code v) @ program_of obj, pc = length (mem (code v) @ program_of obj)\<rparr>,
                     stk = Vm.push (mirror obj) (stk v)\<rparr>)"
proof -
  obtain m p s where v: "v = at_pc m p s" by (rule vm_cases)
  with assms(5) have v: "v = at_pc m (length m) s" by simp
  have "eval ve (program_of obj) s = Some (Vm.push (mirror obj) s)"
    using eval_program_of [OF assms(3,2), of "[]"] by simp
  from run_list [OF this assms(4), of m]
  have "run n ve (load_deque (program_of obj) v) =
      Some ([], Inr (at_pc (m @ program_of obj) (length (m @ program_of obj)) (Vm.push (mirror obj) s)))"
    by (simp add: v)
  moreover have "\<exists>r'. read e r (serialize_binary (host e) obj) = (program_of obj, Inr r')"
    using read_program [OF assms(6) assms(1) [unfolded fits_def], of "[]"]
    by (auto simp: serialize_program)
  ultimately show ?thesis by (auto simp: v at_pc_def)
qed

lemma fits_mirror: "fits e (mirror obj) = fits e obj"
  by (simp add: fits_def program_of_mirror)

text \<open>C1. Transport of objects: a well-formed object is serialized, parsed by a parser between two values and run by a
  machine that has run everything it has loaded; then the object with its sequences back to front is on top of the
  machine's stack.  When that one is serialized, parsed and run, by a second parser and machine, the original object
  arrives.  The object must be one that can be sent (\<open>fits\<close>: no 64-bit MAC, no 16-bit color, no empty raw value, error
  codes of the generic and the system category, addresses their parser reads as they are, no value longer than the
  parser accepts) and loaded (\<open>loadable\<close>: no op codes as values, no empty attribute map, no more elements than a count
  and a vector can have).\<close>

theorem transport:
  assumes "fits e obj" and "wf_object obj" and "loadable (v_max_vec ve) obj" and "length (program_of obj) < n"
    and "ready r1" and "ready r2" and "pc (code v1) = length (mem (code v1))" and "pc (code v2) = length (mem (code v2))"
  shows "\<exists>out1 out2 s1 s2 c1 c2.
    read e r1 (serialize_binary (host e) obj) = (out1, Inr s1) \<and>
    run n ve (load_deque out1 v1) = Some ([], Inr \<lparr>code = c1, stk = Vm.push (mirror obj) (stk v1)\<rparr>) \<and>
    read e r2 (serialize_binary (host e) (mirror obj)) = (out2, Inr s2) \<and>
    run n ve (load_deque out2 v2) = Some ([], Inr \<lparr>code = c2, stk = Vm.push obj (stk v2)\<rparr>)"
proof -
  have m: "fits e (mirror obj)" "wf_object (mirror obj)" "loadable (v_max_vec ve) (mirror obj)" "length (program_of (mirror obj)) < n"
    using assms(1-4) by (simp_all add: fits_mirror wf_object_mirror loadable_mirror program_of_mirror)
  show ?thesis
    using transported [OF assms(1-4,7,5)] transported [OF m assms(8,6)] by (auto simp: mirror_mirror)
qed

theorem transport_witness:
  "\<exists>out1 out2 s1 s2 c1 c2.
    read sample_env Parser.parser_init (serialize_binary Little (OTuple [OU8 1, OVector [OBool True, ONull]])) =
      (out1, Inr s1) \<and>
    run 9 sample_venv (load_deque out1 vm_init) =
      Some ([], Inr \<lparr>code = c1, stk = Vm.push (OTuple [OVector [ONull, OBool True], OU8 1]) stack_init\<rparr>) \<and>
    read sample_env Parser.parser_init (serialize_binary Little (OTuple [OVector [ONull, OBool True], OU8 1])) =
      (out2, Inr s2) \<and>
    run 9 sample_venv (load_deque out2 vm_init) =
      Some ([], Inr \<lparr>code = c2, stk = Vm.push (OTuple [OU8 1, OVector [OBool True, ONull]]) stack_init\<rparr>)"
  using transport [of sample_env "OTuple [OU8 1, OVector [OBool True, ONull]]" sample_venv 9
      Parser.parser_init Parser.parser_init vm_init vm_init]
  by (simp add: ready_init vm_init_def memory_init_def fits_def sample_env_def sample_venv_def instruction_def count_def
      scalar_value_def basic_value_def code_value_def)

end
